(* ===== verification/Prelude.thy ===== *)
theory Prelude
  imports Main "HOL-Library.Sublist" "HOL-Library.List_Lexorder" "HOL-Library.Char_ord"
begin

section \<open>Prelude: Go values, effects and the generic lemmas the components share\<close>

text \<open>
  Shared by every component theory:
  \<^item> names for the identifiers the program passes around (all of them Go strings);
  \<^item> \<open>goerror\<close>, the \<open>error\<close> values of the program, with \<open>error_text\<close> for
    \<open>err.Error()\<close> and \<open>error_is\<close> for \<open>errors.Is\<close>;
  \<^item> \<open>go\<close>, the outcome of code that may return, block on a channel or panic;
  \<^item> \<open>chan\<close>, a Go channel with its buffer bound and its closed flag;
  \<^item> \<open>cut_first\<close>, the search-and-splice loop the code repeats for slices;
  \<^item> decimal rendering (\<open>%d\<close>) and \<open>hasPrefix\<close>;
  \<^item> reachability of a step relation and the locale \<open>inv_system\<close> with the
    invariant rule every state machine of the development uses.
\<close>

subsection \<open>Names\<close>

type_synonym run_id = string
type_synonym script_id = string

text \<open>
  A point in time (\<open>time.Time\<close>) is a number; 0 is the zero value \<open>time.Time{}\<close>,
  the one \<open>IsZero\<close> recognises.
\<close>

type_synonym time = nat

named_theorems go_simps \<open>equations that evaluate the Go primitives\<close>
named_theorems inv_intros \<open>an operation keeps its component's invariant\<close>
named_theorems frame_simps \<open>the fields an operation leaves alone\<close>

subsection \<open>Errors\<close>

text \<open>
  The sentinels of \<^verbatim>\<open>internal/runner/dialog.go\<close> are constructors of their own, as
  they are compared by identity; \<open>Errorf txt w\<close> is \<open>errors.New txt\<close> (\<open>w = None\<close>) or
  \<open>fmt.Errorf\<close> with a \<open>%w\<close> operand (its text already formatted); \<open>ErrJoin\<close> is
  \<open>errors.Join\<close> of non-nil errors.
\<close>

datatype goerror =
    ErrDialogCancelled
  | ErrRunNotActive
  | Errorf string "goerror option"
  | ErrJoin "goerror list"

fun join_with :: "string \<Rightarrow> string list \<Rightarrow> string" where
  "join_with sep [] = []"
| "join_with sep [x] = x"
| "join_with sep (x # y # zs) = x @ sep @ join_with sep (y # zs)"

abbreviation newline :: string where
  "newline \<equiv> [CHR 0x0A]"

fun error_text :: "goerror \<Rightarrow> string" where
  "error_text ErrDialogCancelled = ''dialog cancelled by user''"
| "error_text ErrRunNotActive = ''run not active''"
| "error_text (Errorf txt w) = txt"
| "error_text (ErrJoin es) = join_with newline (map error_text es)"

text \<open>\<open>errors.Is err target\<close> walks the wrapped errors, depth first.\<close>

fun error_is :: "goerror \<Rightarrow> goerror \<Rightarrow> bool" where
  "error_is (Errorf txt None) t = (Errorf txt None = t)"
| "error_is (Errorf txt (Some w)) t = (Errorf txt (Some w) = t \<or> error_is w t)"
| "error_is (ErrJoin es) t = (ErrJoin es = t \<or> (\<exists>e \<in> set es. error_is e t))"
| "error_is e t = (e = t)"

lemma error_is_refl [simp]: "error_is e e"
proof (cases e)
  case (Errorf msg w)
  then show ?thesis by (cases w) auto
qed auto

subsection \<open>Outcomes of code that may block or panic\<close>

datatype 'a go =
    Ret 'a
  | Block
  | Panic string

fun go_bind :: "'a go \<Rightarrow> ('a \<Rightarrow> 'b go) \<Rightarrow> 'b go" where
  "go_bind (Ret x) f = f x"
| "go_bind Block f = Block"
| "go_bind (Panic p) f = Panic p"

lemma go_bind_Ret [simp]: "go_bind m Ret = m"
  by (cases m) auto

lemma go_bind_assoc: "go_bind (go_bind m f) g = go_bind m (\<lambda>x. go_bind (f x) g)"
  by (cases m) auto

lemma go_bind_eq_Ret: "go_bind m f = Ret y \<longleftrightarrow> (\<exists>x. m = Ret x \<and> f x = Ret y)"
  by (cases m) auto

lemma go_bind_cong: "m = m' \<Longrightarrow> (\<And>x. m' = Ret x \<Longrightarrow> f x = g x) \<Longrightarrow> go_bind m f = go_bind m' g"
  by (cases m') auto

text \<open>A loop that runs an operation over a list, from left to right.\<close>

fun go_fold :: "('a \<Rightarrow> 's \<Rightarrow> 's go) \<Rightarrow> 'a list \<Rightarrow> 's \<Rightarrow> 's go" where
  "go_fold f [] s = Ret s"
| "go_fold f (x # xs) s = go_bind (f x s) (go_fold f xs)"

lemma go_fold_append: "go_fold f (xs @ ys) s = go_bind (go_fold f xs s) (go_fold f ys)"
  by (induction xs arbitrary: s) (auto simp: go_bind_assoc intro!: go_bind_cong)

subsection \<open>Channels\<close>

text \<open>
  A Go channel: its capacity, the values buffered (oldest first) and whether it was closed.
  Closing a closed channel and sending on a closed one panic; a send on a full buffer
  blocks; a receive takes the oldest value and, once the channel is closed and drained,
  reports that nothing will come any more.
\<close>

record 'a chan =
  ch_cap :: nat
  ch_buf :: "'a list"
  ch_closed :: bool

definition make_chan :: "nat \<Rightarrow> 'a chan" where
  "make_chan n = \<lparr>ch_cap = n, ch_buf = [], ch_closed = False\<rparr>"

definition chan_send :: "'a \<Rightarrow> 'a chan \<Rightarrow> 'a chan go" where
  "chan_send x c =
     (if ch_closed c then Panic ''send on closed channel''
      else if length (ch_buf c) < ch_cap c then Ret (c\<lparr>ch_buf := ch_buf c @ [x]\<rparr>)
      else Block)"

definition chan_close :: "'a chan \<Rightarrow> 'a chan go" where
  "chan_close c =
     (if ch_closed c then Panic ''close of closed channel'' else Ret (c\<lparr>ch_closed := True\<rparr>))"

text \<open>\<open>Ret (Some x, c)\<close> received \<open>x\<close>; \<open>Ret (None, c)\<close> ends a \<open>range\<close> loop.\<close>

definition chan_recv :: "'a chan \<Rightarrow> ('a option \<times> 'a chan) go" where
  "chan_recv c =
     (case ch_buf c of
        x # xs \<Rightarrow> Ret (Some x, c\<lparr>ch_buf := xs\<rparr>)
      | [] \<Rightarrow> (if ch_closed c then Ret (None, c) else Block))"

lemma make_chan_simps [simp]:
  "ch_cap (make_chan n) = n" "ch_buf (make_chan n) = []" "\<not> ch_closed (make_chan n)"
  by (simp_all add: make_chan_def)

lemma chan_send_Ret:
  "chan_send x c = Ret c' \<longleftrightarrow>
     \<not> ch_closed c \<and> length (ch_buf c) < ch_cap c \<and> c' = c\<lparr>ch_buf := ch_buf c @ [x]\<rparr>"
  by (auto simp: chan_send_def)

lemma chan_close_Ret:
  "chan_close c = Ret c' \<longleftrightarrow> \<not> ch_closed c \<and> c' = c\<lparr>ch_closed := True\<rparr>"
  by (auto simp: chan_close_def)

subsection \<open>Slices\<close>

text \<open>
  The loop \<^verbatim>\<open>for i, x := range xs { if p(x) { xs = append(xs[:i], xs[i+1:]...); break } }\<close>:
  the slice without its first element that satisfies \<open>p\<close>, and whether there was one.
\<close>

fun cut_first :: "('a \<Rightarrow> bool) \<Rightarrow> 'a list \<Rightarrow> 'a list \<times> bool" where
  "cut_first p [] = ([], False)"
| "cut_first p (x # xs) =
     (if p x then (xs, True) else (case cut_first p xs of (ys, found) \<Rightarrow> (x # ys, found)))"

lemma cut_first_eq: "cut_first (\<lambda>r. r = x) xs = (remove1 x xs, x \<in> set xs)"
  by (induction xs) (auto split: prod.splits)

lemma snd_cut_first: "snd (cut_first p xs) = (\<exists>x \<in> set xs. p x)"
  by (induction xs) (auto split: prod.splits)

lemma cut_first_none: "\<forall>x \<in> set xs. \<not> p x \<Longrightarrow> fst (cut_first p xs) = xs"
  by (induction xs) (auto split: prod.splits)

lemma set_cut_first_subset: "set (fst (cut_first p xs)) \<subseteq> set xs"
  by (induction xs) (auto split: prod.splits)

text \<open>
  The loop \<^verbatim>\<open>for i, x := range xs { if p(x) { xs[i] = y; return } }; xs = append(xs, y)\<close>:
  the first element that satisfies \<open>p\<close> replaced, or the value appended.
\<close>

fun put_first :: "('a \<Rightarrow> bool) \<Rightarrow> 'a \<Rightarrow> 'a list \<Rightarrow> 'a list" where
  "put_first p y [] = [y]"
| "put_first p y (x # xs) = (if p x then y # xs else x # put_first p y xs)"

lemma put_first_none: "\<forall>x \<in> set xs. \<not> p x \<Longrightarrow> put_first p y xs = xs @ [y]"
  by (induction xs) auto

lemma put_first_mem: "y \<in> set (put_first p y xs)"
  by (induction xs) auto

lemma length_put_first:
  "length (put_first p y xs) = (if \<exists>x \<in> set xs. p x then length xs else Suc (length xs))"
  by (induction xs) auto

subsection \<open>Strings\<close>

definition hasPrefix :: "string \<Rightarrow> string \<Rightarrow> bool" where
  "hasPrefix s pre = (length s \<ge> length pre \<and> take (length pre) s = pre)"

lemma hasPrefix_iff_prefix: "hasPrefix s pre \<longleftrightarrow> prefix pre s"
proof
  assume "hasPrefix s pre"
  then have "s = pre @ drop (length pre) s"
    by (metis append_take_drop_id hasPrefix_def)
  then show "prefix pre s" by (metis prefixI)
qed (auto simp: hasPrefix_def prefix_def)

definition digit_char :: "nat \<Rightarrow> char" where
  "digit_char d = char_of (48 + d)"

fun dec_nat :: "nat \<Rightarrow> string" where
  "dec_nat n = (if n < 10 then [digit_char n] else dec_nat (n div 10) @ [digit_char (n mod 10)])"

declare dec_nat.simps [simp del]

definition dec_int :: "int \<Rightarrow> string" where
  "dec_int i = (if i < 0 then ''-'' @ dec_nat (nat (- i)) else dec_nat (nat i))"

lemma digit_char_inj: "a < 10 \<Longrightarrow> b < 10 \<Longrightarrow> digit_char a = digit_char b \<Longrightarrow> a = b"
proof -
  assume lt: "a < 10" "b < 10" and eq: "digit_char a = digit_char b"
  from eq have "(of_char (digit_char a) :: nat) = of_char (digit_char b)" by simp
  then have "(48 + a) mod 256 = (48 + b) mod 256" by (simp add: digit_char_def)
  with lt show "a = b" by simp
qed

lemma distinct_single: "distinct xs \<Longrightarrow> set xs \<subseteq> {k} \<Longrightarrow> length xs \<le> 1"
  using card_mono [of "{k}" "set xs"] by (simp add: distinct_card)

text \<open>The last \<open>n\<close> elements of a list: what a buffer bounded by \<open>n\<close> keeps.\<close>

definition last_n :: "nat \<Rightarrow> 'a list \<Rightarrow> 'a list" where
  "last_n n xs = drop (length xs - n) xs"

lemma length_last_n [simp]: "length (last_n n xs) = min n (length xs)"
  by (simp add: last_n_def)

lemma last_n_short: "length xs \<le> n \<Longrightarrow> last_n n xs = xs"
  by (simp add: last_n_def)

lemma last_n_snoc: "last_n n (last_n n xs @ [x]) = last_n n (xs @ [x])"
proof (cases "length xs \<le> n")
  case True
  then show ?thesis by (simp add: last_n_short)
next
  case False
  then show ?thesis by (cases n) (auto simp: last_n_def Suc_diff_Suc Suc_diff_le)
qed

lemma last_n_append: "last_n n (last_n n xs @ ys) = last_n n (xs @ ys)"
proof (induction ys rule: rev_induct)
  case Nil
  then show ?case by (simp add: last_n_short)
next
  case (snoc y ys)
  then show ?case
    by (metis append.assoc last_n_snoc)
qed

subsection \<open>Ranging over a map\<close>

text \<open>
  A Go \<open>range\<close> over a map visits every key present exactly once, in an order the language
  leaves open. Code that ranges takes the order as an argument; \<open>map_range\<close> is Go's promise
  about it. Go compares strings by their bytes, which is the lexicographic order on strings,
  so visiting the keys in sorted order is one admissible behaviour.
\<close>

definition range_order :: "(string \<rightharpoonup> 'v) \<Rightarrow> string list \<Rightarrow> bool" where
  "range_order m order \<longleftrightarrow> distinct order \<and> set order = dom m"

locale map_range =
  fixes ord :: "(string \<rightharpoonup> 'v) \<Rightarrow> string list"
  assumes ord_range: "finite (dom m) \<Longrightarrow> range_order m (ord m)"

definition sorted_keys :: "(string \<rightharpoonup> 'v) \<Rightarrow> string list" where
  "sorted_keys m = sorted_list_of_set (dom m)"

interpretation sorted_range: map_range sorted_keys
  by unfold_locales (simp add: range_order_def sorted_keys_def)

subsection \<open>Log records\<close>

text \<open>
  What \<^verbatim>\<open>slog.Logger\<close> hands to its handler, less the time it stamps: the level as
  slog's integer, the message, and the attributes in order (every attribute of the program
  is a string).
\<close>

record SlogRecord =
  sl_Level :: int
  sl_Message :: string
  sl_Attrs :: "(string \<times> string) list"

abbreviation (input) LevelDebug :: int where "LevelDebug \<equiv> -4"
abbreviation (input) LevelInfo :: int where "LevelInfo \<equiv> 0"
abbreviation (input) LevelWarn :: int where "LevelWarn \<equiv> 4"
abbreviation (input) LevelError :: int where "LevelError \<equiv> 8"

subsection \<open>Reachable states and invariants\<close>

inductive reach :: "('s \<Rightarrow> bool) \<Rightarrow> ('s \<Rightarrow> 's \<Rightarrow> bool) \<Rightarrow> 's \<Rightarrow> bool"
  for init :: "'s \<Rightarrow> bool" and step :: "'s \<Rightarrow> 's \<Rightarrow> bool"
where
  reach_init: "init s \<Longrightarrow> reach init step s"
| reach_step: "reach init step s \<Longrightarrow> step s t \<Longrightarrow> reach init step t"

locale inv_system =
  fixes init :: "'s \<Rightarrow> bool"
    and step :: "'s \<Rightarrow> 's \<Rightarrow> bool"
    and inv :: "'s \<Rightarrow> bool"
  assumes inv_init: "init s \<Longrightarrow> inv s"
    and inv_step: "inv s \<Longrightarrow> step s t \<Longrightarrow> inv t"
begin

lemma reach_inv: "reach init step s \<Longrightarrow> inv s"
  by (induction rule: reach.induct) (auto intro: inv_init inv_step)

lemma steps_inv: "step\<^sup>*\<^sup>* s t \<Longrightarrow> inv s \<Longrightarrow> inv t"
  by (induction rule: rtranclp_induct) (auto intro: inv_step)

end

end
