(* ===== verification/Logging.thy ===== *)
theory Logging
  imports Prelude "HOL-Library.Signed_Division"
begin

section \<open>Logging: the ring buffer and the slog handler that feeds it\<close>

text \<open>
  Models \<^verbatim>\<open>internal/logging/ring.go\<close> and the handler of
  \<^verbatim>\<open>internal/logging/logger.go\<close>. Go's \<open>int\<close> fields are \<open>int\<close> and \<open>%\<close> is the
  truncating \<open>smod\<close>, with the run-time panics (negative \<open>make\<close>, index out of range,
  division by zero) as outcomes; the arithmetic never leaves \<open>[-cap, 2 cap]\<close>, so 64 bits
  do not matter. The mutexes make every method one atomic step.

  The contract of a bounded log is the locale \<open>bounded_log\<close>; the ring buffer is shown to
  implement it, and the handler's properties follow from the contract.
\<close>

subsection \<open>State\<close>

record LogEntry =
  le_Timestamp :: time
  le_Level :: string
  le_Source :: string
  le_Message :: string
  le_RunID :: string
  le_ScriptID :: string
  le_Traceback :: string

definition zeroLogEntry :: LogEntry where
  "zeroLogEntry = \<lparr>le_Timestamp = 0, le_Level = [], le_Source = [], le_Message = [],
     le_RunID = [], le_ScriptID = [], le_Traceback = []\<rparr>"

text \<open>
  \<open>rb_onPush\<close> says whether a callback is installed; \<open>rb_calls\<close> are the calls made to it,
  oldest first (the callback itself belongs to \<^verbatim>\<open>LogService\<close>).
\<close>

record RingBuffer =
  rb_entries :: "LogEntry list"
  rb_cap :: int
  rb_head :: int
  rb_count :: int
  rb_onPush :: bool
  rb_calls :: "LogEntry list"

subsection \<open>Operations of the ring buffer\<close>

definition NewRingBuffer :: "int \<Rightarrow> RingBuffer go" where
  "NewRingBuffer capacity =
     (if capacity < 0 then Panic ''makeslice: len out of range''
      else Ret \<lparr>rb_entries = replicate (nat capacity) zeroLogEntry, rb_cap = capacity,
                rb_head = 0, rb_count = 0, rb_onPush = False, rb_calls = []\<rparr>)"

definition SetOnPush :: "RingBuffer \<Rightarrow> RingBuffer" where
  "SetOnPush r = r\<lparr>rb_onPush := True\<rparr>"

definition go_index :: "'a list \<Rightarrow> int \<Rightarrow> 'a go" where
  "go_index xs i =
     (if 0 \<le> i \<and> i < int (length xs) then Ret (xs ! nat i) else Panic ''index out of range'')"

definition go_mod :: "int \<Rightarrow> int \<Rightarrow> int go" where
  "go_mod a b = (if b = 0 then Panic ''integer divide by zero'' else Ret (a smod b))"

definition Push :: "LogEntry \<Rightarrow> RingBuffer \<Rightarrow> RingBuffer go" where
  "Push entry r =
     go_bind (go_index (rb_entries r) (rb_head r)) (\<lambda>_.
     go_bind (go_mod (rb_head r + 1) (rb_cap r)) (\<lambda>h.
       Ret (r\<lparr>rb_entries := (rb_entries r)[nat (rb_head r) := entry],
              rb_head := h,
              rb_count := (if rb_count r < rb_cap r then rb_count r + 1 else rb_count r),
              rb_calls := (if rb_onPush r then rb_calls r @ [entry] else rb_calls r)\<rparr>)))"

definition Len :: "RingBuffer \<Rightarrow> int" where
  "Len r = rb_count r"

text \<open>The loop of \<open>Entries\<close>, with \<open>n\<close> iterations left and \<open>i\<close> the loop variable.\<close>

fun entries_loop :: "nat \<Rightarrow> int \<Rightarrow> int \<Rightarrow> RingBuffer \<Rightarrow> LogEntry list \<Rightarrow> LogEntry list go" where
  "entries_loop 0 i start r result = Ret result"
| "entries_loop (Suc n) i start r result =
     go_bind (go_mod (start + i) (rb_cap r)) (\<lambda>idx.
     go_bind (go_index (rb_entries r) idx) (\<lambda>e.
       entries_loop n (i + 1) start r (result @ [e])))"

definition Entries :: "RingBuffer \<Rightarrow> LogEntry list go" where
  "Entries r =
     (if rb_count r < 0 then Panic ''makeslice: cap out of range''
      else go_bind (go_mod (rb_head r - rb_count r + rb_cap r) (rb_cap r)) (\<lambda>start.
             entries_loop (nat (rb_count r)) 0 start r []))"

subsection \<open>Well-formed buffers and the list they hold\<close>

definition ring_inv :: "RingBuffer \<Rightarrow> bool" where
  "ring_inv r \<longleftrightarrow> 0 < rb_cap r \<and> int (length (rb_entries r)) = rb_cap r \<and>
     0 \<le> rb_head r \<and> rb_head r < rb_cap r \<and> 0 \<le> rb_count r \<and> rb_count r \<le> rb_cap r"

definition ring_slot :: "RingBuffer \<Rightarrow> int \<Rightarrow> LogEntry" where
  "ring_slot r i = rb_entries r ! nat ((rb_head r - rb_count r + i) mod rb_cap r)"

definition ring_list :: "RingBuffer \<Rightarrow> LogEntry list" where
  "ring_list r = map (\<lambda>i. ring_slot r (int i)) [0..<nat (rb_count r)]"

lemma smod_nonneg: "0 \<le> a \<Longrightarrow> 0 < b \<Longrightarrow> (a :: int) smod b = a mod b"
  by (cases "a = 0") (auto simp: signed_modulo_int_def signed_divide_int_def minus_div_mult_eq_mod sgn_if)

lemma go_mod_nonneg: "0 \<le> a \<Longrightarrow> 0 < b \<Longrightarrow> go_mod a b = Ret (a mod b)"
  by (simp add: go_mod_def smod_nonneg)

lemma NewRingBuffer_inv:
  "0 < c \<Longrightarrow> NewRingBuffer c = Ret r \<Longrightarrow> ring_inv r \<and> ring_list r = [] \<and> rb_cap r = c"
  by (auto simp: NewRingBuffer_def ring_inv_def ring_list_def split: if_splits)

lemma length_ring_list: "ring_inv r \<Longrightarrow> int (length (ring_list r)) = rb_count r"
  by (simp add: ring_inv_def ring_list_def)

text \<open>\<open>Entries\<close> returns exactly the list a well-formed buffer holds.\<close>

lemma entries_loop_eq:
  assumes inv: "ring_inv r" and start: "0 \<le> start" "start mod rb_cap r = (rb_head r - rb_count r) mod rb_cap r"
  shows "0 \<le> i \<Longrightarrow> entries_loop n i start r acc =
    Ret (acc @ map (\<lambda>j. ring_slot r (i + int j)) [0..<n])"
proof (induction n arbitrary: i acc)
  case 0
  then show ?case by simp
next
  case (Suc n)
  let ?idx = "(start + i) mod rb_cap r"
  from inv have cap: "0 < rb_cap r" and len: "int (length (rb_entries r)) = rb_cap r"
    by (auto simp: ring_inv_def)
  have idx: "go_mod (start + i) (rb_cap r) = Ret ?idx"
    using Suc.prems start cap by (simp add: go_mod_nonneg)
  have "?idx = (rb_head r - rb_count r + i) mod rb_cap r"
    using start(2) by (metis mod_add_left_eq)
  moreover have "0 \<le> ?idx" "?idx < rb_cap r" using cap by auto
  ultimately have "go_index (rb_entries r) ?idx = Ret (ring_slot r i)"
    using len by (simp add: go_index_def ring_slot_def)
  moreover have "map (\<lambda>j. ring_slot r (i + int j)) [0..<Suc n] =
      ring_slot r i # map (\<lambda>j. ring_slot r (i + 1 + int j)) [0..<n]"
    by (simp add: upt_conv_Cons map_Suc_upt [symmetric] algebra_simps del: upt_Suc map_Suc_upt)
  ultimately show ?case
    using idx Suc.IH [of "i + 1"] Suc.prems by simp
qed

lemma Entries_ring_list: "ring_inv r \<Longrightarrow> Entries r = Ret (ring_list r)"
proof -
  assume inv: "ring_inv r"
  let ?start = "(rb_head r - rb_count r + rb_cap r) mod rb_cap r"
  have "go_mod (rb_head r - rb_count r + rb_cap r) (rb_cap r) = Ret ?start"
    using inv by (simp add: ring_inv_def go_mod_nonneg)
  moreover have "entries_loop (nat (rb_count r)) 0 ?start r [] = Ret (ring_list r)"
    using inv by (subst entries_loop_eq) (auto simp: ring_list_def ring_inv_def)
  ultimately show ?thesis using inv by (simp add: Entries_def ring_inv_def)
qed

subsection \<open>A push appends and evicts\<close>

text \<open>Where the next push lands and what it leaves: the index arithmetic of one step.\<close>

lemma ring_slot_other:
  assumes inv: "ring_inv r" and j: "0 \<le> j" "j < rb_cap r"
    and ne: "j \<noteq> rb_count r mod rb_cap r"
  shows "nat ((rb_head r - rb_count r + j) mod rb_cap r) \<noteq> nat (rb_head r)"
proof
  assume eq: "nat ((rb_head r - rb_count r + j) mod rb_cap r) = nat (rb_head r)"
  from inv have cap: "0 < rb_cap r" and hd: "0 \<le> rb_head r" "rb_head r < rb_cap r"
    by (auto simp: ring_inv_def)
  have "0 \<le> (rb_head r - rb_count r + j) mod rb_cap r" using cap by simp
  with eq hd have "(rb_head r - rb_count r + j) mod rb_cap r = rb_head r" by (simp add: nat_eq_iff)
  with hd have "(rb_head r - rb_count r + j) mod rb_cap r = rb_head r mod rb_cap r" by simp
  then have "rb_cap r dvd (rb_head r - rb_count r + j) - rb_head r"
    by (metis mod_eq_dvd_iff)
  then have "rb_cap r dvd j - rb_count r" by (simp add: algebra_simps)
  then have "j mod rb_cap r = rb_count r mod rb_cap r" by (metis mod_eq_dvd_iff)
  with j ne show False by simp
qed

lemma Push_Ret:
  assumes "ring_inv r"
  shows "\<exists>r'. Push e r = Ret r' \<and> ring_inv r' \<and> rb_cap r' = rb_cap r \<and>
    rb_entries r' = (rb_entries r)[nat (rb_head r) := e] \<and>
    rb_head r' = (rb_head r + 1) mod rb_cap r \<and>
    rb_count r' = (if rb_count r < rb_cap r then rb_count r + 1 else rb_count r) \<and>
    rb_onPush r' = rb_onPush r \<and>
    rb_calls r' = (if rb_onPush r then rb_calls r @ [e] else rb_calls r)"
  using assms by (auto simp: Push_def ring_inv_def go_index_def go_mod_nonneg)

lemma Push_slot:
  assumes inv: "ring_inv r" and push: "Push e r = Ret r'"
    and i: "0 \<le> i" "i < rb_count r'"
  shows "ring_slot r' i =
    (if rb_count r < rb_cap r then (if i = rb_count r then e else ring_slot r i)
     else (if i = rb_count r - 1 then e else ring_slot r (i + 1)))"
proof -
  from Push_Ret [OF inv, of e] push
  have r': "rb_cap r' = rb_cap r" "rb_entries r' = (rb_entries r)[nat (rb_head r) := e]"
    "rb_head r' = (rb_head r + 1) mod rb_cap r"
    "rb_count r' = (if rb_count r < rb_cap r then rb_count r + 1 else rb_count r)"
    by auto
  from inv have wf: "0 < rb_cap r" "int (length (rb_entries r)) = rb_cap r"
    "0 \<le> rb_head r" "rb_head r < rb_cap r" "0 \<le> rb_count r" "rb_count r \<le> rb_cap r"
    by (auto simp: ring_inv_def)
  \<comment> \<open>the position of slot \<open>i\<close> after the push, as a slot of the buffer before it\<close>
  define j where "j = (if rb_count r < rb_cap r then i else i + 1)"
  have pos: "(rb_head r' - rb_count r' + i) mod rb_cap r' = (rb_head r - rb_count r + j) mod rb_cap r"
  proof -
    have "(rb_head r' - rb_count r' + i) mod rb_cap r =
        ((rb_head r + 1) mod rb_cap r + (i - rb_count r')) mod rb_cap r"
      unfolding r'(3) by (simp add: algebra_simps)
    also have "\<dots> = (rb_head r + 1 + (i - rb_count r')) mod rb_cap r"
      by (rule mod_add_left_eq)
    also have "rb_head r + 1 + (i - rb_count r') = rb_head r - rb_count r + j"
      using r'(4) by (simp add: j_def)
    finally show ?thesis unfolding r'(1) .
  qed
  have slot: "ring_slot r' i =
      (rb_entries r)[nat (rb_head r) := e] ! nat ((rb_head r - rb_count r + j) mod rb_cap r)"
    unfolding ring_slot_def pos r'(2) ..
  show ?thesis
  proof (cases "j = rb_count r")
    case True
    then have "nat ((rb_head r - rb_count r + j) mod rb_cap r) = nat (rb_head r)"
      using wf by simp
    then have "ring_slot r' i = e" using slot wf by simp
    then show ?thesis using True j_def by auto
  next
    case False
    have "0 \<le> j" "j < rb_cap r" "j \<noteq> rb_count r mod rb_cap r"
      using False i r'(4) wf by (auto simp: j_def split: if_splits)
    then have "nat (rb_head r) \<noteq> nat ((rb_head r - rb_count r + j) mod rb_cap r)"
      using ring_slot_other [OF inv, of j] by metis
    then have "ring_slot r' i = ring_slot r j"
      unfolding slot by (simp add: ring_slot_def)
    then show ?thesis using False by (auto simp: j_def split: if_splits)
  qed
qed

lemma Push_list:
  assumes inv: "ring_inv r" and push: "Push e r = Ret r'"
  shows "ring_list r' = last_n (nat (rb_cap r)) (ring_list r @ [e])"
proof -
  from Push_Ret [OF inv, of e] push
  have cnt: "rb_count r' = (if rb_count r < rb_cap r then rb_count r + 1 else rb_count r)"
    by auto
  have wf: "0 \<le> rb_count r" "rb_count r \<le> rb_cap r" "0 < rb_cap r" using inv by (auto simp: ring_inv_def)
  show ?thesis
  proof (rule nth_equalityI)
    show "length (ring_list r') = length (last_n (nat (rb_cap r)) (ring_list r @ [e]))"
      using wf cnt by (auto simp: ring_list_def)
  next
    fix i assume "i < length (ring_list r')"
    then have i: "int i < rb_count r'" by (simp add: ring_list_def)
    then have nth: "ring_list r' ! i = ring_slot r' (int i)" by (simp add: ring_list_def)
    show "ring_list r' ! i = last_n (nat (rb_cap r)) (ring_list r @ [e]) ! i"
      unfolding nth Push_slot [OF inv push _ i, simplified]
      using wf cnt i
      by (auto simp: last_n_def ring_list_def nth_append nat_eq_iff add.commute split: if_splits)
  qed
qed

subsection \<open>The contract of a bounded log\<close>

text \<open>
  What the log's clients rely on: a push never fails and keeps the newest \<open>bound\<close>
  elements, in order.
\<close>

locale bounded_log =
  fixes push :: "'e \<Rightarrow> 'r \<Rightarrow> 'r go"
    and contents :: "'r \<Rightarrow> 'e list"
    and bound :: "'r \<Rightarrow> nat"
    and ok :: "'r \<Rightarrow> bool"
  assumes push_ok: "ok r \<Longrightarrow> \<exists>r'. push e r = Ret r' \<and> ok r' \<and> bound r' = bound r \<and>
    contents r' = last_n (bound r) (contents r @ [e])"
begin

lemma push_all_ok:
  "ok r \<Longrightarrow> contents r = last_n (bound r) xs \<Longrightarrow>
    \<exists>r'. go_fold push es r = Ret r' \<and> ok r' \<and> bound r' = bound r \<and>
      contents r' = last_n (bound r) (xs @ es)"
proof (induction es arbitrary: r xs)
  case Nil
  then show ?case by auto
next
  case (Cons e es)
  from push_ok [OF Cons.prems(1), of e] obtain r1 where
    r1: "push e r = Ret r1" "ok r1" "bound r1 = bound r"
    "contents r1 = last_n (bound r) (contents r @ [e])" by blast
  then have "contents r1 = last_n (bound r1) (xs @ [e])"
    using Cons.prems(2) by (simp add: last_n_snoc)
  from Cons.IH [OF r1(2) this] r1 show ?case by auto
qed

end

interpretation ring: bounded_log Push ring_list "\<lambda>r. nat (rb_cap r)" ring_inv
proof
  fix r e
  assume inv: "ring_inv r"
  from Push_Ret [OF inv, of e] obtain r' where "Push e r = Ret r'" "ring_inv r'" "rb_cap r' = rb_cap r"
    by blast
  with Push_list [OF inv] show "\<exists>r'. Push e r = Ret r' \<and> ring_inv r' \<and>
      nat (rb_cap r') = nat (rb_cap r) \<and>
      ring_list r' = last_n (nat (rb_cap r)) (ring_list r @ [e])" by auto
qed

text \<open>C28: a buffer made with a positive capacity never panics however many entries are
  pushed, holds \<open>min (pushes) capacity\<close> of them, and \<open>Entries\<close> returns exactly the newest
  ones in the order they were pushed.\<close>

theorem ring_keeps_newest:
  assumes "0 < c"
  shows "\<exists>r r'. NewRingBuffer c = Ret r \<and> go_fold Push es r = Ret r' \<and>
    Entries r' = Ret (last_n (nat c) es) \<and> Len r' = min (int (length es)) c"
proof -
  from assms obtain r where new: "NewRingBuffer c = Ret r" by (auto simp: NewRingBuffer_def)
  from NewRingBuffer_inv [OF assms this] have r: "ring_inv r" "ring_list r = []" "rb_cap r = c" by auto
  from ring.push_all_ok [OF r(1), of "[]" es] r obtain r' where
    r': "go_fold Push es r = Ret r'" "ring_inv r'" "ring_list r' = last_n (nat c) es"
    by (auto simp: last_n_def)
  have "Len r' = int (length (ring_list r'))"
    using length_ring_list [OF r'(2)] by (simp add: Len_def)
  also have "\<dots> = min (int (length es)) c" using r'(3) assms by auto
  finally show ?thesis using new r' Entries_ring_list [OF r'(2)] by auto
qed

lemma ring_keeps_newest_witness:
  "\<exists>r r'. NewRingBuffer 2 = Ret r \<and>
     go_fold Push [zeroLogEntry\<lparr>le_Message := ''a''\<rparr>, zeroLogEntry\<lparr>le_Message := ''b''\<rparr>,
       zeroLogEntry\<lparr>le_Message := ''c''\<rparr>] r = Ret r' \<and>
     Entries r' = Ret [zeroLogEntry\<lparr>le_Message := ''b''\<rparr>, zeroLogEntry\<lparr>le_Message := ''c''\<rparr>] \<and>
     Len r' = 2"
  using ring_keeps_newest [of 2 "[zeroLogEntry\<lparr>le_Message := ''a''\<rparr>,
    zeroLogEntry\<lparr>le_Message := ''b''\<rparr>, zeroLogEntry\<lparr>le_Message := ''c''\<rparr>]"]
  by (simp add: last_n_def)

subsection \<open>The slog handler\<close>

text \<open>
  A handler value carries what \<open>With\<close> and \<open>WithGroup\<close> bound; handlers derived from one
  another share the file and the ring, which are the sink; \<open>mh_file\<close> lists the
  derivations (\<open>file.WithAttrs\<close>, \<open>file.WithGroup\<close>) its file handler went through. The file handler
  (\<^verbatim>\<open>slog.JSONHandler\<close> over lumberjack) is a parameter: \<open>fileErr n\<close> is what its \<open>Handle\<close>
  returns the \<open>n\<close>-th time it is called.
\<close>

datatype file_derivation = FileAttrs "(string \<times> string) list" | FileGroup string

record multiHandler =
  mh_file :: "file_derivation list"
  mh_attrs :: "(string \<times> string) list"
  mh_group :: string

record logsink =
  ls_tries :: nat
  ls_file :: "(time \<times> multiHandler \<times> SlogRecord) list"
  ls_ring :: RingBuffer

definition newMultiHandler :: multiHandler where
  "newMultiHandler = \<lparr>mh_file = [], mh_attrs = [], mh_group = []\<rparr>"

definition handlerEnabled :: "int \<Rightarrow> bool" where
  "handlerEnabled level = (level \<ge> LevelDebug)"

definition WithAttrs :: "(string \<times> string) list \<Rightarrow> multiHandler \<Rightarrow> multiHandler" where
  "WithAttrs attrs h = h\<lparr>mh_file := mh_file h @ [FileAttrs attrs], mh_attrs := mh_attrs h @ attrs\<rparr>"

definition WithGroup :: "string \<Rightarrow> multiHandler \<Rightarrow> multiHandler" where
  "WithGroup name h = h\<lparr>mh_file := mh_file h @ [FileGroup name], mh_group := name\<rparr>"

text \<open>\<open>Level.String\<close> of the standard library: a base name and a signed offset.\<close>

definition level_offset :: "string \<Rightarrow> int \<Rightarrow> string" where
  "level_offset base v = (if v = 0 then base else base @ (if v > 0 then ''+'' else []) @ dec_int v)"

definition Level_String :: "int \<Rightarrow> string" where
  "Level_String l =
     (if l < LevelInfo then level_offset ''DEBUG'' (l - LevelDebug)
      else if l < LevelWarn then level_offset ''INFO'' (l - LevelInfo)
      else if l < LevelError then level_offset ''WARN'' (l - LevelWarn)
      else level_offset ''ERROR'' (l - LevelError))"

fun fill_attr :: "string \<times> string \<Rightarrow> LogEntry \<Rightarrow> LogEntry" where
  "fill_attr (k, v) e =
     (if k = ''source'' then e\<lparr>le_Source := v\<rparr>
      else if k = ''runID'' then e\<lparr>le_RunID := v\<rparr>
      else if k = ''scriptID'' then e\<lparr>le_ScriptID := v\<rparr>
      else if k = ''traceback'' \<or> k = ''stderr'' then e\<lparr>le_Traceback := v\<rparr>
      else e)"

definition log_entry :: "time \<Rightarrow> time \<Rightarrow> SlogRecord \<Rightarrow> LogEntry" where
  "log_entry now t r =
     (let e = fold fill_attr (sl_Attrs r)
                (zeroLogEntry\<lparr>le_Timestamp := t, le_Level := Level_String (sl_Level r),
                              le_Message := sl_Message r\<rparr>);
          e = (if le_Timestamp e = 0 then e\<lparr>le_Timestamp := now\<rparr> else e)
      in if le_Source e = [] then e\<lparr>le_Source := ''system''\<rparr> else e)"

definition Handle ::
  "(nat \<Rightarrow> goerror option) \<Rightarrow> time \<Rightarrow> time \<Rightarrow> multiHandler \<Rightarrow> SlogRecord \<Rightarrow> logsink \<Rightarrow>
   (goerror option \<times> logsink) go" where
  "Handle fileErr now t h r s =
     (let s1 = s\<lparr>ls_tries := Suc (ls_tries s)\<rparr> in
      case fileErr (ls_tries s) of
        Some err \<Rightarrow> Ret (Some err, s1)
      | None \<Rightarrow>
          go_bind (Push (log_entry now t r) (ls_ring s)) (\<lambda>ring.
            Ret (None, s1\<lparr>ls_file := ls_file s @ [(t, h, r)], ls_ring := ring\<rparr>)))"

text \<open>
  \<open>slog.Logger\<close> asks \<open>Enabled\<close>, stamps the record with the current time and drops the
  error its handler returns.
\<close>

definition logger_log ::
  "(nat \<Rightarrow> goerror option) \<Rightarrow> multiHandler \<Rightarrow> time \<times> SlogRecord \<Rightarrow> logsink \<Rightarrow> logsink go" where
  "logger_log fileErr h tr s =
     (if handlerEnabled (sl_Level (snd tr))
      then go_bind (Handle fileErr (fst tr) (fst tr) h (snd tr) s) (\<lambda>(err, s'). Ret s')
      else Ret s)"

text \<open>
  A sink in good order: the ring is well formed and holds the newest entries of the file,
  its callback is installed, and every entry was handed to the callback.
\<close>

definition file_entries :: "logsink \<Rightarrow> LogEntry list" where
  "file_entries s = map (\<lambda>(t, h, r). log_entry t t r) (ls_file s)"

definition sink_inv :: "int \<Rightarrow> logsink \<Rightarrow> bool" where
  "sink_inv c s \<longleftrightarrow> ring_inv (ls_ring s) \<and> rb_cap (ls_ring s) = c \<and>
     ring_list (ls_ring s) = last_n (nat c) (file_entries s) \<and>
     rb_onPush (ls_ring s) \<and> rb_calls (ls_ring s) = file_entries s"

lemma Handle_Ret:
  assumes "ring_inv (ls_ring s)"
  shows "\<exists>err s'. Handle fileErr now t h r s = Ret (err, s') \<and>
    (case fileErr (ls_tries s) of
       Some e \<Rightarrow> err = Some e \<and> s' = s\<lparr>ls_tries := Suc (ls_tries s)\<rparr>
     | None \<Rightarrow> err = None \<and> ls_file s' = ls_file s @ [(t, h, r)] \<and>
         Push (log_entry now t r) (ls_ring s) = Ret (ls_ring s'))"
  using Push_Ret [OF assms, of "log_entry now t r"]
  by (auto simp: Handle_def Let_def split: option.splits)

lemma logger_log_inv:
  assumes "sink_inv c s"
  shows "\<exists>s'. logger_log fileErr h tr s = Ret s' \<and> sink_inv c s'"
proof (cases "handlerEnabled (sl_Level (snd tr))")
  case False
  then show ?thesis using assms by (simp add: logger_log_def)
next
  case True
  from assms have ring: "ring_inv (ls_ring s)" "rb_cap (ls_ring s) = c"
    "ring_list (ls_ring s) = last_n (nat c) (file_entries s)"
    "rb_onPush (ls_ring s)" "rb_calls (ls_ring s) = file_entries s"
    by (auto simp: sink_inv_def)
  obtain t r where tr: "tr = (t, r)" by force
  from Handle_Ret [OF ring(1), of fileErr t t h r] obtain err s' where
    s': "Handle fileErr t t h r s = Ret (err, s')" and
    case_s': "case fileErr (ls_tries s) of
       Some e \<Rightarrow> err = Some e \<and> s' = s\<lparr>ls_tries := Suc (ls_tries s)\<rparr>
     | None \<Rightarrow> err = None \<and> ls_file s' = ls_file s @ [(t, h, r)] \<and>
         Push (log_entry t t r) (ls_ring s) = Ret (ls_ring s')" by blast
  have "sink_inv c s'"
  proof (cases "fileErr (ls_tries s)")
    case (Some e)
    then show ?thesis using case_s' assms by (simp add: sink_inv_def file_entries_def)
  next
    case None
    with case_s' have fl: "ls_file s' = ls_file s @ [(t, h, r)]"
      and push: "Push (log_entry t t r) (ls_ring s) = Ret (ls_ring s')" by auto
    from Push_Ret [OF ring(1), of "log_entry t t r"] push have
      "ring_inv (ls_ring s')" "rb_cap (ls_ring s') = c"
      "rb_onPush (ls_ring s') = rb_onPush (ls_ring s)"
      "rb_calls (ls_ring s') = (if rb_onPush (ls_ring s)
         then rb_calls (ls_ring s) @ [log_entry t t r] else rb_calls (ls_ring s))"
      using ring(2) by auto
    then show ?thesis
      using Push_list [OF ring(1) push] ring(2-5) fl
      by (simp add: sink_inv_def file_entries_def last_n_snoc)
  qed
  then show ?thesis using True s' tr by (simp add: logger_log_def)
qed

lemma logger_run_inv:
  "sink_inv c s \<Longrightarrow> \<exists>s'. go_fold (logger_log fileErr h) trs s = Ret s' \<and> sink_inv c s'"
proof (induction trs arbitrary: s)
  case Nil
  then show ?case by simp
next
  case (Cons tr trs)
  from logger_log_inv [OF Cons.prems] obtain s1 where
    "logger_log fileErr h tr s = Ret s1" "sink_inv c s1" by blast
  with Cons.IH [of s1] show ?case by simp
qed

definition newSink :: "RingBuffer \<Rightarrow> logsink" where
  "newSink r = \<lparr>ls_tries = 0, ls_file = [], ls_ring = SetOnPush r\<rparr>"

text \<open>Whatever is logged and whichever file writes fail, logging never panics, the ring
  buffer shows exactly the newest entries of the log file (a record the file refused is in
  neither), and the live callback was called once for every entry, in order.\<close>

theorem ring_mirrors_file:
  assumes "0 < c" and "NewRingBuffer c = Ret r"
  shows "\<exists>s. go_fold (logger_log fileErr h) trs (newSink r) = Ret s \<and>
    Entries (ls_ring s) = Ret (last_n (nat c) (file_entries s)) \<and>
    rb_calls (ls_ring s) = file_entries s"
proof -
  from NewRingBuffer_inv [OF assms] have r: "ring_inv r" "ring_list r = []" "rb_cap r = c" by auto
  moreover have "rb_calls r = []" using assms by (auto simp: NewRingBuffer_def split: if_splits)
  ultimately have "sink_inv c (newSink r)"
    by (simp add: sink_inv_def newSink_def SetOnPush_def file_entries_def ring_inv_def
        ring_list_def ring_slot_def last_n_def)
  then obtain s where
    "go_fold (logger_log fileErr h) trs (newSink r) = Ret s" "sink_inv c s"
    using logger_run_inv by blast
  then show ?thesis by (auto simp: sink_inv_def Entries_ring_list)
qed

lemma ring_mirrors_file_witness:
  "\<exists>r s. NewRingBuffer 1 = Ret r \<and>
     go_fold (logger_log (\<lambda>n. if n = 1 then Some (Errorf ''disk full'' None) else None) newMultiHandler)
       [(5, \<lparr>sl_Level = 0, sl_Message = ''a'', sl_Attrs = [(''source'', ''python'')]\<rparr>),
        (6, \<lparr>sl_Level = 8, sl_Message = ''b'', sl_Attrs = []\<rparr>),
        (7, \<lparr>sl_Level = 4, sl_Message = ''c'', sl_Attrs = []\<rparr>)] (newSink r) = Ret s \<and>
     Entries (ls_ring s) = Ret (last_n (nat 1) (file_entries s)) \<and>
     rb_calls (ls_ring s) = file_entries s"
proof -
  obtain r where new: "NewRingBuffer 1 = Ret r" by (simp add: NewRingBuffer_def)
  have "0 < (1 :: int)" by simp
  from ring_mirrors_file [OF this new] new show ?thesis by blast
qed

text \<open>Attributes and groups bound to a logger with \<open>With\<close> and \<open>WithGroup\<close> never reach the
  ring buffer: a derived handler pushes the same entry as the handler it was derived from, so
  a \<open>source\<close> or \<open>runID\<close> bound that way shows only in the file.\<close>

theorem bound_attrs_not_in_ring:
  "go_bind (Handle fileErr now t (WithAttrs attrs (WithGroup g h)) r s) (\<lambda>(err, s'). Ret (err, ls_ring s')) =
   go_bind (Handle fileErr now t h r s) (\<lambda>(err, s'). Ret (err, ls_ring s'))"
  by (cases "Push (log_entry now t r) (ls_ring s)")
    (auto simp: Handle_def Let_def split: option.splits)

end
