(* ===== verification/Notify.thy ===== *)
theory Notify
  imports Prelude
begin

section \<open>Notify: the event reservoir\<close>

text \<open>
  Models \<^verbatim>\<open>internal/notify/notify.go\<close>: the event every component reports, the slog
  record it becomes, the (severity x persistence) routing to a Wails surface, and the banner
  list. The reservoir's outside world is recorded in its state: the records handed to the
  logger, the Wails events emitted, and how many values were drawn from the uuid and clock
  sources, which are the parameter \<open>env\<close>. \<open>Severity\<close> and \<open>Persistence\<close> are Go integers with
  named constants, so the \<open>default\<close> branches for other values are part of the model.
  \<open>bannersMu\<close> makes each banner operation one atomic step.
\<close>

subsection \<open>Severity, persistence, source\<close>

type_synonym Severity = int
type_synonym Persistence = int

abbreviation (input) SeverityInfo :: Severity where "SeverityInfo \<equiv> 0"
abbreviation (input) SeverityWarn :: Severity where "SeverityWarn \<equiv> 1"
abbreviation (input) SeverityError :: Severity where "SeverityError \<equiv> 2"
abbreviation (input) SeverityCritical :: Severity where "SeverityCritical \<equiv> 3"

definition Severity_String :: "Severity \<Rightarrow> string" where
  "Severity_String s =
     (if s = SeverityInfo then ''info''
      else if s = SeverityWarn then ''warn''
      else if s = SeverityError then ''error''
      else if s = SeverityCritical then ''critical''
      else ''unknown'')"

abbreviation (input) PersistenceOneShot :: Persistence where "PersistenceOneShot \<equiv> 0"
abbreviation (input) PersistenceOngoing :: Persistence where "PersistenceOngoing \<equiv> 1"
abbreviation (input) PersistenceInFlight :: Persistence where "PersistenceInFlight \<equiv> 2"
abbreviation (input) PersistenceCatastrophic :: Persistence where "PersistenceCatastrophic \<equiv> 3"

definition Persistence_String :: "Persistence \<Rightarrow> string" where
  "Persistence_String p =
     (if p = PersistenceOneShot then ''one-shot''
      else if p = PersistenceOngoing then ''ongoing''
      else if p = PersistenceInFlight then ''in-flight''
      else if p = PersistenceCatastrophic then ''catastrophic''
      else ''unknown'')"

abbreviation (input) SourceBackend :: string where "SourceBackend \<equiv> ''backend''"
abbreviation (input) SourcePython :: string where "SourcePython \<equiv> ''python''"
abbreviation (input) SourceFrontend :: string where "SourceFrontend \<equiv> ''frontend''"

abbreviation (input) EventToast :: string where "EventToast \<equiv> ''notify:toast''"
abbreviation (input) EventBanner :: string where "EventBanner \<equiv> ''notify:banner''"
abbreviation (input) EventBannerDismiss :: string where "EventBannerDismiss \<equiv> ''notify:banner:dismiss''"
abbreviation (input) EventCritical :: string where "EventCritical \<equiv> ''notify:critical''"
abbreviation (input) EventBannersList :: string where "EventBannersList \<equiv> ''notify:banners:list''"
abbreviation (input) EventRunErrorInFlight :: string where "EventRunErrorInFlight \<equiv> ''run:error''"

subsection \<open>State\<close>

record Event =
  ev_ID :: string
  ev_Severity :: Severity
  ev_Persistence :: Persistence
  ev_Source :: string
  ev_Key :: string
  ev_Title :: string
  ev_Message :: string
  ev_RunID :: run_id
  ev_ScriptID :: script_id
  ev_Err :: "goerror option"
  ev_Traceback :: string
  ev_Timestamp :: time

text \<open>The zero value, from which the code's composite literals set some fields.\<close>

definition Event0 :: Event where
  "Event0 = \<lparr>ev_ID = [], ev_Severity = 0, ev_Persistence = 0, ev_Source = [], ev_Key = [],
     ev_Title = [], ev_Message = [], ev_RunID = [], ev_ScriptID = [], ev_Err = None,
     ev_Traceback = [], ev_Timestamp = 0\<rparr>"

text \<open>
  Values of a Wails payload; \<open>JTime t\<close> is the RFC 3339 text of \<open>t\<close>.
\<close>

datatype jval =
    JStr string
  | JInt int
  | JTime time
  | JList "(string \<times> jval) list list"

type_synonym payload = "(string \<times> jval) list"
type_synonym emission = "string \<times> payload"

text \<open>
  \<open>rv_app\<close> says whether \<open>SetApp\<close> stored an app; \<open>rv_log\<close> and \<open>rv_emits\<close> are what was handed
  to the logger and to Wails, oldest first; \<open>rv_draws\<close> counts the values drawn from \<open>env\<close>.
\<close>

record reservoir =
  rv_app :: bool
  rv_banners :: "Event list"
  rv_log :: "SlogRecord list"
  rv_emits :: "emission list"
  rv_draws :: nat

text \<open>
  The outside: the \<open>n\<close>-th uuid and the \<open>n\<close>-th reading of the clock (\<open>rsv_newUUID\<close>,
  \<open>rsv_now\<close>).
\<close>

record env =
  rsv_newUUID :: "nat \<Rightarrow> string"
  rsv_now :: "nat \<Rightarrow> time"

definition newReservoir :: reservoir where
  "newReservoir = \<lparr>rv_app = False, rv_banners = [], rv_log = [], rv_emits = [], rv_draws = 0\<rparr>"

definition SetApp :: "reservoir \<Rightarrow> reservoir" where
  "SetApp r = r\<lparr>rv_app := True\<rparr>"

subsection \<open>Logging and routing one event\<close>

definition opt_attr :: "string \<Rightarrow> string \<Rightarrow> (string \<times> string) list" where
  "opt_attr k v = (if v = [] then [] else [(k, v)])"

definition event_attrs :: "Event \<Rightarrow> (string \<times> string) list" where
  "event_attrs ev =
     [(''source'', ev_Source ev), (''severity'', Severity_String (ev_Severity ev)),
      (''persistence'', Persistence_String (ev_Persistence ev)), (''id'', ev_ID ev)]
     @ opt_attr ''key'' (ev_Key ev)
     @ opt_attr ''runID'' (ev_RunID ev)
     @ opt_attr ''scriptID'' (ev_ScriptID ev)
     @ (case ev_Err ev of None \<Rightarrow> [] | Some e \<Rightarrow> [(''error'', error_text e)])
     @ opt_attr ''traceback'' (ev_Traceback ev)"

definition event_message :: "Event \<Rightarrow> string" where
  "event_message ev =
     (case ev_Err ev of
        Some e \<Rightarrow> if ev_Message ev = [] then error_text e else ev_Message ev
      | None \<Rightarrow> ev_Message ev)"

definition event_level :: "Event \<Rightarrow> int" where
  "event_level ev =
     (if ev_Severity ev = SeverityInfo then LevelInfo
      else if ev_Severity ev = SeverityWarn then LevelWarn
      else LevelError)"

definition logSlog :: "Event \<Rightarrow> reservoir \<Rightarrow> reservoir" where
  "logSlog ev r = r\<lparr>rv_log := rv_log r @
     [\<lparr>sl_Level = event_level ev, sl_Message = event_message ev, sl_Attrs = event_attrs ev\<rparr>]\<rparr>"

definition event_payload :: "Event \<Rightarrow> payload" where
  "event_payload ev =
     [(''id'', JStr (ev_ID ev)), (''severity'', JStr (Severity_String (ev_Severity ev))),
      (''persistence'', JStr (Persistence_String (ev_Persistence ev))),
      (''source'', JStr (ev_Source ev)), (''key'', JStr (ev_Key ev)),
      (''title'', JStr (ev_Title ev)), (''message'', JStr (ev_Message ev)),
      (''runID'', JStr (ev_RunID ev)), (''scriptID'', JStr (ev_ScriptID ev)),
      (''traceback'', JStr (ev_Traceback ev)), (''timestamp'', JTime (ev_Timestamp ev))]"

definition run_error_payload :: "Event \<Rightarrow> payload" where
  "run_error_payload ev =
     [(''runID'', JStr (ev_RunID ev)), (''scriptID'', JStr (ev_ScriptID ev)),
      (''message'', JStr (ev_Message ev)), (''traceback'', JStr (ev_Traceback ev)),
      (''severity'', JStr (Severity_String (ev_Severity ev)))]"

text \<open>The surface an event goes to once an app is wired; \<open>None\<close> is log-only.\<close>

definition route :: "Event \<Rightarrow> emission option" where
  "route ev =
     (if ev_Severity ev = SeverityCritical then Some (EventCritical, event_payload ev)
      else if ev_Persistence ev = PersistenceCatastrophic then Some (EventCritical, event_payload ev)
      else if ev_Persistence ev = PersistenceOngoing then Some (EventBanner, event_payload ev)
      else if ev_Persistence ev = PersistenceInFlight then
        (if ev_Severity ev \<ge> SeverityError \<and> ev_RunID ev \<noteq> []
         then Some (EventRunErrorInFlight, run_error_payload ev)
         else Some (EventToast, event_payload ev))
      else if ev_Persistence ev = PersistenceOneShot then
        (if ev_Severity ev = SeverityInfo then None else Some (EventToast, event_payload ev))
      else None)"

definition wailsEmit :: "emission \<Rightarrow> reservoir \<Rightarrow> reservoir" where
  "wailsEmit e r = (if rv_app r then r\<lparr>rv_emits := rv_emits r @ [e]\<rparr> else r)"

definition routeWails :: "Event \<Rightarrow> reservoir \<Rightarrow> reservoir" where
  "routeWails ev r = (case route ev of None \<Rightarrow> r | Some e \<Rightarrow> wailsEmit e r)"

subsection \<open>Banners\<close>

definition upsertBanner :: "Event \<Rightarrow> reservoir \<Rightarrow> reservoir" where
  "upsertBanner ev r = r\<lparr>rv_banners :=
     (if ev_Key ev \<noteq> [] then put_first (\<lambda>b. ev_Key b = ev_Key ev) ev (rv_banners r)
      else rv_banners r @ [ev])\<rparr>"

text \<open>An id and a timestamp are drawn only where the caller left them at their zero value.\<close>

definition fillID :: "env \<Rightarrow> Event \<Rightarrow> reservoir \<Rightarrow> Event \<times> reservoir" where
  "fillID en ev r =
     (if ev_ID ev = [] then (ev\<lparr>ev_ID := rsv_newUUID en (rv_draws r)\<rparr>, r\<lparr>rv_draws := Suc (rv_draws r)\<rparr>)
      else (ev, r))"

definition fillTimestamp :: "env \<Rightarrow> Event \<Rightarrow> reservoir \<Rightarrow> Event \<times> reservoir" where
  "fillTimestamp en ev r =
     (if ev_Timestamp ev = 0 then (ev\<lparr>ev_Timestamp := rsv_now en (rv_draws r)\<rparr>, r\<lparr>rv_draws := Suc (rv_draws r)\<rparr>)
      else (ev, r))"

definition fillEvent :: "env \<Rightarrow> Event \<Rightarrow> reservoir \<Rightarrow> Event \<times> reservoir" where
  "fillEvent en ev r = (case fillID en ev r of (ev1, r1) \<Rightarrow> fillTimestamp en ev1 r1)"

definition Report :: "env \<Rightarrow> Event \<Rightarrow> reservoir \<Rightarrow> reservoir" where
  "Report en ev r =
     (case fillEvent en ev r of (ev1, r1) \<Rightarrow>
        let r2 = logSlog ev1 r1;
            r3 = (if ev_Persistence ev1 = PersistenceOngoing then upsertBanner ev1 r2 else r2)
        in routeWails ev1 r3)"

definition DismissBanner :: "string \<Rightarrow> reservoir \<Rightarrow> reservoir" where
  "DismissBanner key r =
     (if key = [] then r
      else wailsEmit (EventBannerDismiss, [(''key'', JStr key)])
             (r\<lparr>rv_banners := fst (cut_first (\<lambda>b. ev_Key b = key) (rv_banners r))\<rparr>))"

text \<open>
  \<open>ReplaceBannersByPrefix\<close>: the replacements are completed in loop-local copies, which go to
  the banner list; the slice logged afterwards is the caller's own.
\<close>

fun fillEvents :: "env \<Rightarrow> Event list \<Rightarrow> reservoir \<Rightarrow> Event list \<times> reservoir" where
  "fillEvents en [] r = ([], r)"
| "fillEvents en (ev # evs) r =
     (case fillEvent en ev r of (ev1, r1) \<Rightarrow>
      case fillEvents en evs r1 of (evs1, r2) \<Rightarrow> (ev1 # evs1, r2))"

definition ReplaceBannersByPrefix :: "env \<Rightarrow> string \<Rightarrow> Event list \<Rightarrow> reservoir \<Rightarrow> reservoir" where
  "ReplaceBannersByPrefix en keyPrefix replacements r =
     (case fillEvents en replacements r of (filled, r1) \<Rightarrow>
        let kept = filter (\<lambda>b. \<not> hasPrefix (ev_Key b) keyPrefix) (rv_banners r1) @ filled;
            r2 = r1\<lparr>rv_banners := kept\<rparr>;
            r3 = fold logSlog replacements r2
        in wailsEmit (EventBannersList, [(''banners'', JList (map event_payload kept))]) r3)"

definition ListBanners :: "reservoir \<Rightarrow> Event list" where
  "ListBanners r = rv_banners r"

subsection \<open>What one report does\<close>

text \<open>The log view of an event: its slog record less the id, which is drawn.\<close>

definition record_view :: "SlogRecord \<Rightarrow> SlogRecord" where
  "record_view rec = rec\<lparr>sl_Attrs := filter (\<lambda>(k, v). k \<noteq> ''id'') (sl_Attrs rec)\<rparr>"

definition event_view :: "Event \<Rightarrow> SlogRecord" where
  "event_view ev = record_view
     \<lparr>sl_Level = event_level ev, sl_Message = event_message ev, sl_Attrs = event_attrs ev\<rparr>"

text \<open>What a banner says: the event less the id and the time.\<close>

definition banner_content :: "Event \<Rightarrow> Event" where
  "banner_content ev = ev\<lparr>ev_ID := [], ev_Timestamp := 0\<rparr>"

lemma fillEvent_cases:
  obtains i t n where "fillEvent en ev r = (ev\<lparr>ev_ID := i, ev_Timestamp := t\<rparr>, r\<lparr>rv_draws := n\<rparr>)"
proof -
  have "fillEvent en ev r =
     (ev\<lparr>ev_ID := (if ev_ID ev = [] then rsv_newUUID en (rv_draws r) else ev_ID ev),
         ev_Timestamp := (if ev_Timestamp ev = 0
           then rsv_now en (rv_draws r + (if ev_ID ev = [] then 1 else 0)) else ev_Timestamp ev)\<rparr>,
      r\<lparr>rv_draws := rv_draws r + (if ev_ID ev = [] then 1 else 0) + (if ev_Timestamp ev = 0 then 1 else 0)\<rparr>)"
    by (simp add: fillEvent_def fillID_def fillTimestamp_def)
  with that show ?thesis by blast
qed

lemma event_view_fill [simp]: "event_view (ev\<lparr>ev_ID := i, ev_Timestamp := t\<rparr>) = event_view ev"
  by (simp add: event_view_def record_view_def event_level_def event_message_def event_attrs_def
      split: option.split)

lemma banner_content_fill [simp]: "banner_content (ev\<lparr>ev_ID := i, ev_Timestamp := t\<rparr>) = banner_content ev"
  by (simp add: banner_content_def)

lemma wailsEmit_frame [frame_simps]:
  "rv_banners (wailsEmit e r) = rv_banners r" "rv_log (wailsEmit e r) = rv_log r"
  "rv_app (wailsEmit e r) = rv_app r" "rv_draws (wailsEmit e r) = rv_draws r"
  by (simp_all add: wailsEmit_def)

lemma routeWails_frame [frame_simps]:
  "rv_banners (routeWails ev r) = rv_banners r" "rv_log (routeWails ev r) = rv_log r"
  "rv_app (routeWails ev r) = rv_app r" "rv_draws (routeWails ev r) = rv_draws r"
  by (auto simp: routeWails_def frame_simps split: option.splits)

lemma logSlog_frame [frame_simps]:
  "rv_banners (logSlog ev r) = rv_banners r" "rv_emits (logSlog ev r) = rv_emits r"
  "rv_app (logSlog ev r) = rv_app r" "rv_draws (logSlog ev r) = rv_draws r"
  by (simp_all add: logSlog_def)

lemma upsertBanner_frame [frame_simps]:
  "rv_log (upsertBanner ev r) = rv_log r" "rv_emits (upsertBanner ev r) = rv_emits r"
  "rv_app (upsertBanner ev r) = rv_app r" "rv_draws (upsertBanner ev r) = rv_draws r"
  by (simp_all add: upsertBanner_def)

text \<open>The filled event of a report, and the report's effect in terms of it.\<close>

definition filled :: "env \<Rightarrow> Event \<Rightarrow> reservoir \<Rightarrow> Event" where
  "filled en ev r = fst (fillEvent en ev r)"

lemma filled_same [simp]:
  "ev_Severity (filled en ev r) = ev_Severity ev" "ev_Persistence (filled en ev r) = ev_Persistence ev"
  "ev_Key (filled en ev r) = ev_Key ev" "ev_RunID (filled en ev r) = ev_RunID ev"
  "event_view (filled en ev r) = event_view ev" "banner_content (filled en ev r) = banner_content ev"
  by (cases en ev r rule: fillEvent_cases; simp add: filled_def)+

lemma Report_fields:
  "rv_app (Report en ev r) = rv_app r"
  "map record_view (rv_log (Report en ev r)) = map record_view (rv_log r) @ [event_view ev]"
  "rv_banners (Report en ev r) =
     (if ev_Persistence ev = PersistenceOngoing
      then rv_banners (upsertBanner (filled en ev r) r) else rv_banners r)"
  "rv_emits (Report en ev r) = rv_emits r @
     (case route (filled en ev r) of Some e \<Rightarrow> (if rv_app r then [e] else []) | None \<Rightarrow> [])"
proof -
  obtain i t n where f: "fillEvent en ev r = (ev\<lparr>ev_ID := i, ev_Timestamp := t\<rparr>, r\<lparr>rv_draws := n\<rparr>)"
    by (rule fillEvent_cases)
  show "rv_app (Report en ev r) = rv_app r"
    by (simp add: Report_def f Let_def frame_simps)
  have "rv_log (Report en ev r) = rv_log (logSlog (ev\<lparr>ev_ID := i, ev_Timestamp := t\<rparr>) r)"
    by (simp add: Report_def f Let_def frame_simps logSlog_def)
  then show "map record_view (rv_log (Report en ev r)) = map record_view (rv_log r) @ [event_view ev]"
    using event_view_fill [where ev = ev and i = i and t = t] by (simp add: logSlog_def event_view_def)
  show "rv_banners (Report en ev r) =
     (if ev_Persistence ev = PersistenceOngoing
      then rv_banners (upsertBanner (filled en ev r) r) else rv_banners r)"
    by (simp add: Report_def f Let_def frame_simps filled_def upsertBanner_def)
  show "rv_emits (Report en ev r) = rv_emits r @
     (case route (filled en ev r) of Some e \<Rightarrow> (if rv_app r then [e] else []) | None \<Rightarrow> [])"
    by (auto simp: Report_def f Let_def filled_def routeWails_def wailsEmit_def frame_simps split: option.splits)
qed

subsection \<open>The contract of an event sink\<close>

text \<open>
  What every component that reports relies on: a report is recorded, in order, whatever
  else the sink does with it.
\<close>

locale event_sink =
  fixes report :: "Event \<Rightarrow> 'r \<Rightarrow> 'r"
    and seen :: "'r \<Rightarrow> 'v list"
    and view :: "Event \<Rightarrow> 'v"
  assumes seen_report: "seen (report ev r) = seen r @ [view ev]"
begin

lemma seen_reports: "seen (fold report evs r) = seen r @ map view evs"
  by (induction evs arbitrary: r) (auto simp: seen_report)

end

abbreviation log_view :: "reservoir \<Rightarrow> SlogRecord list" where
  "log_view r \<equiv> map record_view (rv_log r)"

interpretation rsv: event_sink "Report en" log_view event_view for en
  by unfold_locales (rule Report_fields(2))

subsection \<open>Keyed banners\<close>

text \<open>
  The abstract view of the banner list: a map from the non-empty keys to what is shown.
  Operations on it are reports and dismissals; the specification of their effect on one
  key is \<open>shown_after\<close>.
\<close>

datatype banner_op = BReport Event | BDismiss string

fun shown_after :: "string \<Rightarrow> banner_op list \<Rightarrow> Event option \<Rightarrow> Event option" where
  "shown_after k [] x = x"
| "shown_after k (BReport ev # os) x =
     shown_after k os
       (if ev_Persistence ev = PersistenceOngoing \<and> ev_Key ev = k then Some (banner_content ev) else x)"
| "shown_after k (BDismiss k' # os) x = shown_after k os (if k' = k then None else x)"

fun board_op :: "(Event \<Rightarrow> 'r \<Rightarrow> 'r) \<Rightarrow> (string \<Rightarrow> 'r \<Rightarrow> 'r) \<Rightarrow> banner_op \<Rightarrow> 'r \<Rightarrow> 'r" where
  "board_op report dismiss (BReport ev) r = report ev r"
| "board_op report dismiss (BDismiss k) r = dismiss k r"

locale banner_board = event_sink report seen view
  for report :: "Event \<Rightarrow> 'r \<Rightarrow> 'r" and seen :: "'r \<Rightarrow> 'v list" and view :: "Event \<Rightarrow> 'v" +
  fixes dismiss :: "string \<Rightarrow> 'r \<Rightarrow> 'r"
    and shown :: "string \<Rightarrow> 'r \<Rightarrow> Event option"
    and wf :: "'r \<Rightarrow> bool"
  assumes wf_report: "wf r \<Longrightarrow> wf (report ev r)"
    and wf_dismiss: "wf r \<Longrightarrow> wf (dismiss k r)"
    and raise: "wf r \<Longrightarrow> k \<noteq> [] \<Longrightarrow> shown k (report ev r) =
      (if ev_Persistence ev = PersistenceOngoing \<and> ev_Key ev = k then Some (banner_content ev)
       else shown k r)"
    and clear: "wf r \<Longrightarrow> k \<noteq> [] \<Longrightarrow> shown k (dismiss k' r) = (if k' = k then None else shown k r)"
    and seen_dismiss: "seen (dismiss k r) = seen r"
begin

lemma shown_ops:
  "wf r \<Longrightarrow> k \<noteq> [] \<Longrightarrow>
    wf (fold (board_op report dismiss) bops r) \<and>
    shown k (fold (board_op report dismiss) bops r) = shown_after k bops (shown k r)"
proof (induction bops arbitrary: r)
  case Nil
  then show ?case by simp
next
  case (Cons b bops)
  then show ?case by (cases b) (simp_all add: wf_report wf_dismiss raise clear)
qed

lemma seen_ops:
  "seen (fold (board_op report dismiss) bops r) = seen r @ [view ev. BReport ev \<leftarrow> bops]"
proof (induction bops arbitrary: r)
  case Nil
  then show ?case by simp
next
  case (Cons b bops)
  then show ?case by (cases b) (simp_all add: seen_report seen_dismiss)
qed

end

text \<open>The reservoir's banners with a given key, and no key twice.\<close>

definition keyed :: "string \<Rightarrow> Event list \<Rightarrow> Event list" where
  "keyed k bs = filter (\<lambda>b. ev_Key b = k) bs"

definition banners_wf :: "reservoir \<Rightarrow> bool" where
  "banners_wf r \<longleftrightarrow> distinct (filter (\<lambda>k. k \<noteq> []) (map ev_Key (rv_banners r)))"

definition banner_shown :: "string \<Rightarrow> reservoir \<Rightarrow> Event option" where
  "banner_shown k r = map_option banner_content (find (\<lambda>b. ev_Key b = k) (rv_banners r))"

lemma find_put_first:
  "ev_Key ev = k \<Longrightarrow> find (\<lambda>b. ev_Key b = k) (put_first (\<lambda>b. ev_Key b = k) ev bs) = Some ev"
  by (induction bs) auto

lemma find_put_first_other:
  "ev_Key ev = k' \<Longrightarrow> k \<noteq> k' \<Longrightarrow>
     find (\<lambda>b. ev_Key b = k) (put_first (\<lambda>b. ev_Key b = k') ev bs) = find (\<lambda>b. ev_Key b = k) bs"
  by (induction bs) auto

lemma keys_put_first:
  "ev_Key ev = k \<Longrightarrow> map ev_Key (put_first (\<lambda>b. ev_Key b = k) ev bs) =
     (if k \<in> ev_Key ` set bs then map ev_Key bs else map ev_Key bs @ [k])"
  by (induction bs) auto

lemma find_cut_first_other:
  "k \<noteq> k' \<Longrightarrow> find (\<lambda>b. ev_Key b = k) (fst (cut_first (\<lambda>b. ev_Key b = k') bs)) =
     find (\<lambda>b. ev_Key b = k) bs"
  by (induction bs) (auto split: prod.splits)

lemma keys_cut_first:
  "map ev_Key (fst (cut_first (\<lambda>b. ev_Key b = k) bs)) = remove1 k (map ev_Key bs)"
  by (induction bs) (auto split: prod.splits)

lemma find_none_key: "k \<notin> ev_Key ` set bs \<Longrightarrow> find (\<lambda>b. ev_Key b = k) bs = None"
  by (induction bs) auto

lemma find_append:
  "find p (xs @ ys) = (case find p xs of None \<Rightarrow> find p ys | Some x \<Rightarrow> Some x)"
  by (induction xs) auto

lemma find_none_after_cut:
  assumes "distinct (filter (\<lambda>k. k \<noteq> []) (map ev_Key bs))" and "k \<noteq> []"
  shows "find (\<lambda>b. ev_Key b = k) (fst (cut_first (\<lambda>b. ev_Key b = k) bs)) = None"
proof -
  have "filter (\<lambda>k. k \<noteq> []) (remove1 k (map ev_Key bs)) = remove1 k (filter (\<lambda>k. k \<noteq> []) (map ev_Key bs))"
    by (simp add: filter_remove1)
  then have "k \<notin> set (filter (\<lambda>k. k \<noteq> []) (remove1 k (map ev_Key bs)))"
    using assms(1) by simp
  then have "k \<notin> set (map ev_Key (fst (cut_first (\<lambda>b. ev_Key b = k) bs)))"
    using assms(2) unfolding keys_cut_first by simp
  then show ?thesis by (intro find_none_key) simp
qed

interpretation board: banner_board "Report en" log_view event_view DismissBanner banner_shown banners_wf for en
proof
  fix r :: reservoir and ev k k'
  assume wf: "banners_wf r"
  show "banners_wf (Report en ev r)"
    using wf by (auto simp: banners_wf_def Report_fields upsertBanner_def keys_put_first)
  show "banners_wf (DismissBanner k r)"
    using wf by (auto simp: banners_wf_def DismissBanner_def frame_simps keys_cut_first
        filter_remove1 distinct_remove1)
  assume k: "k \<noteq> []"
  show "banner_shown k (Report en ev r) =
      (if ev_Persistence ev = PersistenceOngoing \<and> ev_Key ev = k then Some (banner_content ev)
       else banner_shown k r)"
    using k by (auto simp: banner_shown_def Report_fields upsertBanner_def find_put_first
        find_put_first_other find_append split: option.splits)
  show "banner_shown k (DismissBanner k' r) = (if k' = k then None else banner_shown k r)"
    using k wf find_none_after_cut [of "rv_banners r" k]
    by (auto simp: banner_shown_def DismissBanner_def frame_simps find_cut_first_other banners_wf_def)
next
  show "log_view (DismissBanner k r) = log_view r" for k r
    by (simp add: DismissBanner_def frame_simps)
qed

subsection \<open>Properties\<close>

text \<open>Every report, whatever its severity and persistence and whether or not an app is
  wired, adds exactly one record to the log; it emits on at most one Wails surface, and only
  once an app is wired; it touches the banner list only for an ongoing event.\<close>

theorem report_effects:
  "log_view (Report en ev r) = log_view r @ [event_view ev] \<and>
   rv_emits (Report en ev r) = rv_emits r @
     (if rv_app r then (case route (filled en ev r) of None \<Rightarrow> [] | Some e \<Rightarrow> [e]) else []) \<and>
   (rv_banners (Report en ev r) = rv_banners r \<or> ev_Persistence ev = PersistenceOngoing)"
  by (auto simp: Report_fields split: option.splits)

text \<open>The routing table: a critical or catastrophic event always takes the full-screen pane;
  the per-run pane gets only errors that name a run; among the declared persistences only an
  informational one-shot is log-only.\<close>

theorem routing_table:
  "(ev_Severity ev = SeverityCritical \<or> ev_Persistence ev = PersistenceCatastrophic \<longrightarrow>
      route ev = Some (EventCritical, event_payload ev)) \<and>
   (\<forall>p. route ev = Some (EventRunErrorInFlight, p) \<longrightarrow>
      SeverityError \<le> ev_Severity ev \<and> ev_RunID ev \<noteq> [] \<and> ev_Persistence ev = PersistenceInFlight) \<and>
   (ev_Persistence ev \<in> {0..3} \<longrightarrow>
      (route ev = None \<longleftrightarrow> ev_Severity ev = SeverityInfo \<and> ev_Persistence ev = PersistenceOneShot))"
  by (auto simp: route_def)

definition crash_event :: Event where
  "crash_event = Event0\<lparr>ev_Severity := SeverityCritical, ev_Message := ''boom''\<rparr>"

lemma routing_table_witness:
  "route crash_event = Some (EventCritical, event_payload crash_event)"
proof -
  have "ev_Severity crash_event = 3" by (simp add: crash_event_def)
  with routing_table [of crash_event] show ?thesis by blast
qed

text \<open>C24: through any sequence of reports and dismissals the banner list behaves as a map from
  non-empty keys to banners: reporting an ongoing event with a key replaces what the key
  showed, dismissing a key clears it, and nothing else touches it.\<close>

theorem banners_refine_map:
  assumes "banners_wf r" and "k \<noteq> []"
  shows "banner_shown k (fold (board_op (Report en) DismissBanner) bops r) =
      shown_after k bops (banner_shown k r) \<and>
    length (keyed k (rv_banners (fold (board_op (Report en) DismissBanner) bops r))) \<le> 1"
proof -
  let ?bs = "rv_banners (fold (board_op (Report en) DismissBanner) bops r)"
  note ops = board.shown_ops [OF assms, where en = en and bops = bops]
  then have "distinct (filter (\<lambda>k. k \<noteq> []) (map ev_Key ?bs))"
    by (simp add: banners_wf_def)
  then have "distinct (filter (\<lambda>x. x = k) (filter (\<lambda>k. k \<noteq> []) (map ev_Key ?bs)))"
    by (rule distinct_filter)
  moreover have "(\<lambda>b :: Event. ev_Key b \<noteq> [] \<and> ev_Key b = k) = (\<lambda>b. ev_Key b = k)"
    using assms(2) by auto
  then have "filter (\<lambda>x. x = k) (filter (\<lambda>k. k \<noteq> []) (map ev_Key ?bs)) = map ev_Key (keyed k ?bs)"
    by (simp add: keyed_def filter_map comp_def)
  moreover have "set (map ev_Key (keyed k ?bs)) \<subseteq> {k}" by (auto simp: keyed_def)
  ultimately have "length (map ev_Key (keyed k ?bs)) \<le> 1" by (metis distinct_single)
  with ops show ?thesis by simp
qed

definition dead_server :: "string \<Rightarrow> Event" where
  "dead_server why = Event0\<lparr>ev_Severity := SeverityError, ev_Persistence := PersistenceOngoing,
     ev_Key := ''grpc:server:dead'', ev_Message := why\<rparr>"

definition test_env :: env where
  "test_env = \<lparr>rsv_newUUID = (\<lambda>n. ''id-'' @ dec_nat n), rsv_now = (\<lambda>n. 1000 + n)\<rparr>"

lemma banners_refine_map_witness:
  "banner_shown ''grpc:server:dead''
     (fold (board_op (Report test_env) DismissBanner)
       [BReport (dead_server ''a''), BReport crash_event, BReport (dead_server ''b'')] newReservoir)
   = Some (banner_content (dead_server ''b'')) \<and>
   banner_shown ''grpc:server:dead''
     (fold (board_op (Report test_env) DismissBanner)
       [BReport (dead_server ''a''), BDismiss ''grpc:server:dead''] newReservoir) = None"
proof -
  have "banners_wf newReservoir" and "''grpc:server:dead'' \<noteq> []"
    by (simp_all add: banners_wf_def newReservoir_def)
  note refine = banners_refine_map [OF this, of test_env, THEN conjunct1]
  show ?thesis
    by (simp only: refine) (simp add: dead_server_def crash_event_def Event0_def)
qed

lemma fillEvents_same:
  "map banner_content (fst (fillEvents en evs r)) = map banner_content evs \<and>
   map ev_Key (fst (fillEvents en evs r)) = map ev_Key evs \<and>
   rv_banners (snd (fillEvents en evs r)) = rv_banners r \<and>
   rv_log (snd (fillEvents en evs r)) = rv_log r \<and>
   rv_emits (snd (fillEvents en evs r)) = rv_emits r \<and>
   rv_app (snd (fillEvents en evs r)) = rv_app r"
proof (induction evs arbitrary: r)
  case Nil
  then show ?case by simp
next
  case (Cons ev evs)
  obtain i t n where f: "fillEvent en ev r = (ev\<lparr>ev_ID := i, ev_Timestamp := t\<rparr>, r\<lparr>rv_draws := n\<rparr>)"
    by (rule fillEvent_cases)
  from Cons.IH [of "r\<lparr>rv_draws := n\<rparr>"] show ?case
    by (auto simp: f split: prod.splits)
qed

lemma fold_logSlog_frame [frame_simps]:
  "rv_banners (fold logSlog evs r) = rv_banners r" "rv_emits (fold logSlog evs r) = rv_emits r"
  "rv_app (fold logSlog evs r) = rv_app r"
  by (induction evs arbitrary: r) (auto simp: frame_simps)

lemma ReplaceBannersByPrefix_fields:
  "rv_banners (ReplaceBannersByPrefix en p evs r) =
     filter (\<lambda>b. \<not> hasPrefix (ev_Key b) p) (rv_banners r) @ fst (fillEvents en evs r)"
  "rv_emits (ReplaceBannersByPrefix en p evs r) = rv_emits r @
     (if rv_app r then [(EventBannersList, [(''banners'',
        JList (map event_payload (rv_banners (ReplaceBannersByPrefix en p evs r))))])] else [])"
  "rv_app (ReplaceBannersByPrefix en p evs r) = rv_app r"
  using fillEvents_same [of en evs r]
  by (auto simp: ReplaceBannersByPrefix_def Let_def frame_simps wailsEmit_def split: prod.splits)

text \<open>Replacing the banners under a prefix is an atomic swap: the banners outside the prefix
  stay as they were and in place, those under it are exactly the replacements, in order, no key
  appears twice, and a wired frontend is sent the resulting list in one event.\<close>

theorem replace_banners_swap:
  assumes "banners_wf r" and "\<forall>ev \<in> set evs. hasPrefix (ev_Key ev) p" and "p \<noteq> []"
    and "distinct (map ev_Key evs)"
  shows "let r' = ReplaceBannersByPrefix en p evs r in
     filter (\<lambda>b. \<not> hasPrefix (ev_Key b) p) (rv_banners r') =
       filter (\<lambda>b. \<not> hasPrefix (ev_Key b) p) (rv_banners r) \<and>
     map banner_content (filter (\<lambda>b. hasPrefix (ev_Key b) p) (rv_banners r')) = map banner_content evs \<and>
     banners_wf r' \<and>
     (rv_app r \<longrightarrow> last (rv_emits r') =
        (EventBannersList, [(''banners'', JList (map event_payload (ListBanners r')))]))"
proof -
  let ?f = "fst (fillEvents en evs r)" and ?r = "ReplaceBannersByPrefix en p evs r"
  from fillEvents_same [of en evs r] have keys: "map ev_Key ?f = map ev_Key evs"
    and content: "map banner_content ?f = map banner_content evs" by auto
  have under: "\<forall>b \<in> set ?f. hasPrefix (ev_Key b) p"
    using assms(2) keys by (metis (no_types, lifting) image_iff list.set_map)
  have nonempty: "\<forall>k \<in> set (map ev_Key evs). k \<noteq> []"
    using assms(2,3) by (auto simp: hasPrefix_def)
  have bs: "rv_banners ?r = filter (\<lambda>b. \<not> hasPrefix (ev_Key b) p) (rv_banners r) @ ?f"
    by (rule ReplaceBannersByPrefix_fields)
  have old_eq: "filter (\<lambda>k. k \<noteq> []) (map ev_Key (filter (\<lambda>b. \<not> hasPrefix (ev_Key b) p) (rv_banners r))) =
      map ev_Key (filter (\<lambda>b. \<not> hasPrefix (ev_Key b) p) (filter (\<lambda>b. ev_Key b \<noteq> []) (rv_banners r)))"
    by (simp add: filter_map comp_def conj_commute)
  have "distinct (map ev_Key (filter (\<lambda>b. ev_Key b \<noteq> []) (rv_banners r)))"
    using assms(1) by (simp add: banners_wf_def filter_map comp_def)
  then have old: "distinct (filter (\<lambda>k. k \<noteq> [])
      (map ev_Key (filter (\<lambda>b. \<not> hasPrefix (ev_Key b) p) (rv_banners r))))"
    unfolding old_eq by (rule distinct_map_filter)
  have new: "filter (\<lambda>k. k \<noteq> []) (map ev_Key ?f) = map ev_Key evs"
    using nonempty by (simp add: keys)
  have "banners_wf ?r"
    unfolding banners_wf_def bs map_append filter_append distinct_append new
    using old assms(2,4) by auto
  then show ?thesis
    using under content by (simp add: Let_def bs ReplaceBannersByPrefix_fields ListBanners_def)
qed

lemma replace_banners_swap_witness:
  "\<exists>r evs. rv_app r \<and>
     length (rv_banners r) = 2 \<and>
     map ev_Key (ListBanners (ReplaceBannersByPrefix test_env ''load:'' evs r)) = [''grpc:server:dead'', ''load:b''] \<and>
     banners_wf (ReplaceBannersByPrefix test_env ''load:'' evs r)"
proof -
  define r where "r = newReservoir\<lparr>rv_app := True,
    rv_banners := [Event0\<lparr>ev_Key := ''load:a''\<rparr>, dead_server ''x'']\<rparr>"
  define evs where "evs = [Event0\<lparr>ev_Key := ''load:b''\<rparr>]"
  have wf: "banners_wf r" by (simp add: r_def banners_wf_def dead_server_def Event0_def newReservoir_def)
  have pre: "\<forall>ev \<in> set evs. hasPrefix (ev_Key ev) ''load:''" "''load:'' \<noteq> []" "distinct (map ev_Key evs)"
    by (simp_all add: evs_def hasPrefix_def Event0_def)
  have "banners_wf (ReplaceBannersByPrefix test_env ''load:'' evs r)"
    using replace_banners_swap [OF wf pre, of test_env] by (simp add: Let_def)
  moreover have "map ev_Key (ListBanners (ReplaceBannersByPrefix test_env ''load:'' evs r)) =
      [''grpc:server:dead'', ''load:b'']"
    by (simp add: ListBanners_def ReplaceBannersByPrefix_fields evs_def r_def newReservoir_def
        dead_server_def Event0_def hasPrefix_def fillEvent_def fillID_def fillTimestamp_def)
  moreover have "rv_app r" "length (rv_banners r) = 2" by (simp_all add: r_def newReservoir_def)
  ultimately show ?thesis by (intro exI [of _ r] exI [of _ evs] conjI)
qed

text \<open>A replacement banner whose id the reservoir assigns is logged without it: the banner
  shown carries the drawn uuid, while the slog record written for it has an empty \<open>id\<close>
  attribute, so the log line and the banner cannot be correlated.\<close>

theorem replace_logs_empty_id:
  "let r' = ReplaceBannersByPrefix en p [ev\<lparr>ev_ID := []\<rparr>] r in
     ev_ID (last (rv_banners r')) = rsv_newUUID en (rv_draws r) \<and>
     length (rv_log r') = Suc (length (rv_log r)) \<and>
     (''id'', []) \<in> set (sl_Attrs (last (rv_log r')))"
  by (auto simp: ReplaceBannersByPrefix_def Let_def fillEvent_def fillID_def fillTimestamp_def
      frame_simps logSlog_def event_attrs_def)

end
