(* ===== verification/Cache.thy ===== *)
theory Cache
  imports Prelude
begin

section \<open>Cache: the registry of shared-memory blocks\<close>

text \<open>
  Models \<^verbatim>\<open>internal/runner/cache.go\<close> with the two platform versions of \<open>unlinkShm\<close>
  (\<^verbatim>\<open>shm_unix.go\<close>, \<^verbatim>\<open>shm_windows.go\<close>). The Go map of blocks is a partial map; its
  iteration order, which Go leaves open, is an argument of \<open>CleanupRun\<close>, and every theorem
  holds for all orders. \<open>devfiles\<close> is the set of paths that exist on disk, which
  \<open>unlinkShm\<close> removes from and the Python processes add to. Every method holds the
  manager's mutex throughout, so each is one atomic step.

  The abstract specification is the relation "run \<open>r\<close> holds key \<open>k\<close>"; the locale
  \<open>ref_registry\<close> states what the gRPC server and the run manager rely on.
\<close>

subsection \<open>State\<close>

record CacheBlock =
  cb_Key :: string
  cb_ShmName :: string
  cb_Size :: int
  cb_OwnerRun :: run_id
  cb_Refs :: "run_id list"

text \<open>\<open>cm_windows\<close> is the build's platform tag, which selects \<open>unlinkShm\<close>.\<close>

record CacheManager =
  cm_blocks :: "string \<rightharpoonup> CacheBlock"
  cm_windows :: bool
  devfiles :: "string set"

definition NewCacheManager :: "bool \<Rightarrow> string set \<Rightarrow> CacheManager" where
  "NewCacheManager windows fs = \<lparr>cm_blocks = Map.empty, cm_windows = windows, devfiles = fs\<rparr>"

subsection \<open>Operations\<close>

definition shm_path :: "string \<Rightarrow> string" where
  "shm_path name = ''/dev/shm/'' @ name"

definition unlinkShm_unix :: "string \<Rightarrow> string set \<Rightarrow> string set" where
  "unlinkShm_unix name fs = (if name = [] then fs else fs - {shm_path name})"

definition unlinkShm_windows :: "string \<Rightarrow> string set \<Rightarrow> string set" where
  "unlinkShm_windows name fs = fs"

definition unlinkShm :: "string \<Rightarrow> CacheManager \<Rightarrow> CacheManager" where
  "unlinkShm name cm = cm\<lparr>devfiles :=
     (if cm_windows cm then unlinkShm_windows name (devfiles cm) else unlinkShm_unix name (devfiles cm))\<rparr>"

definition Register :: "string \<Rightarrow> string \<Rightarrow> int \<Rightarrow> run_id \<Rightarrow> CacheManager \<Rightarrow> bool \<times> CacheManager" where
  "Register key shmName sz ownerRunID cm =
     (case cm_blocks cm key of
        Some _ \<Rightarrow> (False, cm)
      | None \<Rightarrow> (True, cm\<lparr>cm_blocks := (cm_blocks cm)(key \<mapsto>
          \<lparr>cb_Key = key, cb_ShmName = shmName, cb_Size = sz, cb_OwnerRun = ownerRunID,
           cb_Refs = [ownerRunID]\<rparr>)\<rparr>))"

definition LookupAndRef :: "string \<Rightarrow> run_id \<Rightarrow> CacheManager \<Rightarrow> (string \<times> int \<times> bool) \<times> CacheManager" where
  "LookupAndRef key runID cm =
     (case cm_blocks cm key of
        None \<Rightarrow> (([], 0, False), cm)
      | Some block \<Rightarrow>
          if runID \<in> set (cb_Refs block)
          then ((cb_ShmName block, cb_Size block, True), cm)
          else ((cb_ShmName block, cb_Size block, True),
                cm\<lparr>cm_blocks := (cm_blocks cm)(key \<mapsto> block\<lparr>cb_Refs := cb_Refs block @ [runID]\<rparr>)\<rparr>))"

text \<open>
  The step \<open>Release\<close> and the loop body of \<open>CleanupRun\<close> share: drop the first reference of
  the run, then remove and unlink the block if none is left.
\<close>

definition drop_ref :: "string \<Rightarrow> CacheBlock \<Rightarrow> run_id \<Rightarrow> CacheManager \<Rightarrow> bool \<times> CacheManager" where
  "drop_ref key block runID cm =
     (case cut_first (\<lambda>ref. ref = runID) (cb_Refs block) of (refs, found) \<Rightarrow>
        (found,
         if refs = []
         then (unlinkShm (cb_ShmName block) cm)\<lparr>cm_blocks := (cm_blocks cm)(key := None)\<rparr>
         else cm\<lparr>cm_blocks := (cm_blocks cm)(key \<mapsto> block\<lparr>cb_Refs := refs\<rparr>)\<rparr>))"

definition Release :: "string \<Rightarrow> run_id \<Rightarrow> CacheManager \<Rightarrow> bool \<times> CacheManager" where
  "Release key runID cm =
     (case cm_blocks cm key of
        None \<Rightarrow> (False, cm)
      | Some block \<Rightarrow> drop_ref key block runID cm)"

definition cleanup_key :: "run_id \<Rightarrow> string \<Rightarrow> CacheManager \<Rightarrow> CacheManager" where
  "cleanup_key runID key cm =
     (case cm_blocks cm key of
        None \<Rightarrow> cm
      | Some block \<Rightarrow> snd (drop_ref key block runID cm))"

text \<open>\<open>order\<close> is the order in which the \<open>range\<close> loop visits the keys of the map.\<close>

definition CleanupRun :: "string list \<Rightarrow> run_id \<Rightarrow> CacheManager \<Rightarrow> CacheManager" where
  "CleanupRun order runID cm = fold (cleanup_key runID) order cm"

subsection \<open>Well-formed registries\<close>

definition block_ok :: "string \<Rightarrow> CacheBlock \<Rightarrow> bool" where
  "block_ok k b \<longleftrightarrow> cb_Key b = k \<and> cb_Refs b \<noteq> [] \<and> distinct (cb_Refs b)"

definition cache_inv :: "CacheManager \<Rightarrow> bool" where
  "cache_inv cm \<longleftrightarrow> (\<forall>k b. cm_blocks cm k = Some b \<longrightarrow> block_ok k b)"

lemma cache_invD: "cache_inv cm \<Longrightarrow> cm_blocks cm k = Some b \<Longrightarrow> block_ok k b"
  by (simp add: cache_inv_def)

lemma unlinkShm_simps [simp]:
  "cm_blocks (unlinkShm n cm) = cm_blocks cm" "cm_windows (unlinkShm n cm) = cm_windows cm"
  by (simp_all add: unlinkShm_def)

lemma NewCacheManager_inv [inv_intros]: "cache_inv (NewCacheManager w fs)"
  by (simp add: cache_inv_def NewCacheManager_def)

lemma Register_inv [inv_intros]: "cache_inv cm \<Longrightarrow> cache_inv (snd (Register k n sz r cm))"
  by (auto simp: Register_def cache_inv_def block_ok_def split: option.splits)

lemma LookupAndRef_inv [inv_intros]: "cache_inv cm \<Longrightarrow> cache_inv (snd (LookupAndRef k r cm))"
  by (auto simp: LookupAndRef_def cache_inv_def block_ok_def split: option.splits)

lemma drop_ref_eq:
  "drop_ref k b r cm = (r \<in> set (cb_Refs b),
     if remove1 r (cb_Refs b) = []
     then (unlinkShm (cb_ShmName b) cm)\<lparr>cm_blocks := (cm_blocks cm)(k := None)\<rparr>
     else cm\<lparr>cm_blocks := (cm_blocks cm)(k \<mapsto> b\<lparr>cb_Refs := remove1 r (cb_Refs b)\<rparr>)\<rparr>)"
  by (simp add: drop_ref_def cut_first_eq)

lemma drop_ref_inv: "cache_inv cm \<Longrightarrow> block_ok k b \<Longrightarrow> cache_inv (snd (drop_ref k b r cm))"
  by (auto simp: drop_ref_eq cache_inv_def block_ok_def)

lemma Release_inv [inv_intros]: "cache_inv cm \<Longrightarrow> cache_inv (snd (Release k r cm))"
  by (auto simp: Release_def intro: drop_ref_inv dest: cache_invD split: option.splits)

lemma cleanup_key_inv: "cache_inv cm \<Longrightarrow> cache_inv (cleanup_key r k cm)"
  by (auto simp: cleanup_key_def intro: drop_ref_inv dest: cache_invD split: option.splits)

lemma CleanupRun_inv [inv_intros]: "cache_inv cm \<Longrightarrow> cache_inv (CleanupRun order r cm)"
  unfolding CleanupRun_def by (induction order arbitrary: cm) (auto simp: cleanup_key_inv)

subsection \<open>What a cleanup leaves\<close>

text \<open>The block under one key after the run's reference is gone.\<close>

definition without_ref :: "run_id \<Rightarrow> CacheBlock option \<Rightarrow> CacheBlock option" where
  "without_ref r x = (case x of
     None \<Rightarrow> None
   | Some b \<Rightarrow> if remove1 r (cb_Refs b) = [] then None else Some (b\<lparr>cb_Refs := remove1 r (cb_Refs b)\<rparr>))"

text \<open>The keys whose last reference is the run's, and the paths unlinked with them.\<close>

definition last_ref :: "run_id \<Rightarrow> CacheBlock \<Rightarrow> bool" where
  "last_ref r b \<longleftrightarrow> remove1 r (cb_Refs b) = []"

definition dropped_path :: "run_id \<Rightarrow> CacheBlock option \<Rightarrow> string set" where
  "dropped_path r x = (case x of
     None \<Rightarrow> {}
   | Some b \<Rightarrow> if last_ref r b \<and> cb_ShmName b \<noteq> [] then {shm_path (cb_ShmName b)} else {})"

definition dropped_paths :: "run_id \<Rightarrow> string set \<Rightarrow> CacheManager \<Rightarrow> string set" where
  "dropped_paths r ks cm = (if cm_windows cm then {} else (\<Union>k\<in>ks. dropped_path r (cm_blocks cm k)))"

lemma cleanup_key_blocks:
  "cm_blocks (cleanup_key r k cm) = (cm_blocks cm)(k := without_ref r (cm_blocks cm k))"
  by (auto simp: cleanup_key_def without_ref_def drop_ref_eq fun_eq_iff split: option.splits)

lemma cleanup_key_windows [simp]: "cm_windows (cleanup_key r k cm) = cm_windows cm"
  by (auto simp: cleanup_key_def drop_ref_eq split: option.splits)

lemma cleanup_key_files:
  "devfiles (cleanup_key r k cm) = devfiles cm - dropped_paths r {k} cm"
  by (auto simp: cleanup_key_def drop_ref_eq unlinkShm_def unlinkShm_unix_def unlinkShm_windows_def
      dropped_paths_def dropped_path_def last_ref_def split: option.splits)

lemma CleanupRun_blocks:
  "distinct order \<Longrightarrow> cm_blocks (CleanupRun order r cm) k =
     (if k \<in> set order then without_ref r (cm_blocks cm k) else cm_blocks cm k)"
  unfolding CleanupRun_def
  by (induction order arbitrary: cm) (auto simp: cleanup_key_blocks)

lemma CleanupRun_windows [simp]: "cm_windows (CleanupRun order r cm) = cm_windows cm"
  unfolding CleanupRun_def by (induction order arbitrary: cm) auto

lemma dropped_paths_Un: "dropped_paths r (A \<union> B) cm = dropped_paths r A cm \<union> dropped_paths r B cm"
  unfolding dropped_paths_def by auto

lemma dropped_paths_cong:
  "cm_windows cm = cm_windows cm' \<Longrightarrow> (\<And>k. k \<in> ks \<Longrightarrow> cm_blocks cm k = cm_blocks cm' k) \<Longrightarrow>
    dropped_paths r ks cm = dropped_paths r ks cm'"
  by (simp add: dropped_paths_def)

lemma CleanupRun_files:
  "distinct order \<Longrightarrow> devfiles (CleanupRun order r cm) = devfiles cm - dropped_paths r (set order) cm"
proof (induction order arbitrary: cm)
  case Nil
  then show ?case by (simp add: CleanupRun_def dropped_paths_def)
next
  case (Cons k order)
  have step: "CleanupRun (k # order) r cm = CleanupRun order r (cleanup_key r k cm)"
    by (simp add: CleanupRun_def)
  have "dropped_paths r (set order) (cleanup_key r k cm) = dropped_paths r (set order) cm"
    using Cons.prems by (intro dropped_paths_cong) (auto simp: cleanup_key_blocks)
  then show ?case
    using Cons dropped_paths_Un [of r "{k}" "set order" cm]
    unfolding step by (auto simp: cleanup_key_files)
qed

subsection \<open>The abstract registry: who holds what\<close>

text \<open>The specification: for every key the set of runs that hold it; a key nobody holds is free.\<close>

type_synonym holders = "string \<Rightarrow> run_id set"

datatype cache_op =
    OpRegister string string int run_id
  | OpLookup string run_id
  | OpRelease string run_id
  | OpCleanup run_id

fun op_run :: "cache_op \<Rightarrow> run_id" where
  "op_run (OpRegister k n sz r) = r"
| "op_run (OpLookup k r) = r"
| "op_run (OpRelease k r) = r"
| "op_run (OpCleanup r) = r"

fun spec_op :: "cache_op \<Rightarrow> holders \<Rightarrow> bool \<times> holders" where
  "spec_op (OpRegister k n sz r) H = (if H k = {} then (True, H(k := {r})) else (False, H))"
| "spec_op (OpLookup k r) H = (if H k = {} then (False, H) else (True, H(k := insert r (H k))))"
| "spec_op (OpRelease k r) H = (r \<in> H k, H(k := H k - {r}))"
| "spec_op (OpCleanup r) H = (True, (\<lambda>k. H k - {r}))"

fun spec_run :: "cache_op list \<Rightarrow> holders \<Rightarrow> bool list \<times> holders" where
  "spec_run [] H = ([], H)"
| "spec_run (p # ps) H =
     (case spec_op p H of (b, H1) \<Rightarrow> case spec_run ps H1 of (bs, H2) \<Rightarrow> (b # bs, H2))"

text \<open>Only a run's own registrations and lookups make it a holder.\<close>

lemma spec_op_frame: "op_run p \<noteq> r \<Longrightarrow> r \<in> snd (spec_op p H) k \<Longrightarrow> r \<in> H k"
  by (cases p) (simp_all split: if_splits)

lemma snd_spec_run_Cons: "snd (spec_run (p # ps) H) = snd (spec_run ps (snd (spec_op p H)))"
  by (simp split: prod.splits)

lemma spec_run_frame: "r \<notin> op_run ` set ps \<Longrightarrow> r \<in> snd (spec_run ps H) k \<Longrightarrow> r \<in> H k"
proof (induction ps arbitrary: H)
  case Nil
  then show ?case by simp
next
  case (Cons p ps)
  then have "r \<in> snd (spec_op p H) k" and "op_run p \<noteq> r"
    unfolding snd_spec_run_Cons by auto
  then show ?case by (metis spec_op_frame)
qed

text \<open>
  One operation of the manager, with the answer its caller sees; \<open>ord\<close> picks the iteration
  order of a cleanup.
\<close>

fun cache_do :: "((string \<rightharpoonup> CacheBlock) \<Rightarrow> string list) \<Rightarrow> cache_op \<Rightarrow> CacheManager \<Rightarrow> bool \<times> CacheManager" where
  "cache_do ord (OpRegister k n sz r) cm = Register k n sz r cm"
| "cache_do ord (OpLookup k r) cm = (snd (snd (fst (LookupAndRef k r cm))), snd (LookupAndRef k r cm))"
| "cache_do ord (OpRelease k r) cm = Release k r cm"
| "cache_do ord (OpCleanup r) cm = (True, CleanupRun (ord (cm_blocks cm)) r cm)"

fun ops_run :: "(cache_op \<Rightarrow> 's \<Rightarrow> bool \<times> 's) \<Rightarrow> cache_op list \<Rightarrow> 's \<Rightarrow> bool list \<times> 's" where
  "ops_run do [] s = ([], s)"
| "ops_run do (p # ps) s =
     (case do p s of (b, s1) \<Rightarrow> case ops_run do ps s1 of (bs, s2) \<Rightarrow> (b # bs, s2))"

text \<open>
  The contract the gRPC handlers and \<open>waitForExit\<close> use: whatever the representation, the
  operations act on \<open>holders_of\<close> as the specification does.
\<close>

locale ref_registry =
  fixes do :: "cache_op \<Rightarrow> 's \<Rightarrow> bool \<times> 's"
    and holders_of :: "'s \<Rightarrow> holders"
    and ok :: "'s \<Rightarrow> bool"
  assumes do_ok: "ok s \<Longrightarrow> ok (snd (do p s))"
    and do_spec: "ok s \<Longrightarrow> (fst (do p s), holders_of (snd (do p s))) = spec_op p (holders_of s)"
begin

lemma ops_refine:
  "ok s \<Longrightarrow> ok (snd (ops_run do ps s)) \<and>
    (fst (ops_run do ps s), holders_of (snd (ops_run do ps s))) = spec_run ps (holders_of s)"
proof (induction ps arbitrary: s)
  case Nil
  then show ?case by simp
next
  case (Cons p ps)
  obtain b s1 where p: "do p s = (b, s1)" by force
  with do_ok [OF Cons.prems, of p] do_spec [OF Cons.prems, of p]
  have "ok s1" and spec: "spec_op p (holders_of s) = (b, holders_of s1)" by simp_all
  with Cons.IH [of s1] show ?case by (simp add: p spec split: prod.splits) (metis fst_conv snd_conv)
qed

lemma cleaned_stays_clean:
  assumes "ok s" and "r \<notin> op_run ` set ps"
  shows "r \<notin> holders_of (snd (ops_run do (OpCleanup r # ps) s)) k"
proof
  assume "r \<in> holders_of (snd (ops_run do (OpCleanup r # ps) s)) k"
  moreover have "holders_of (snd (ops_run do (OpCleanup r # ps) s)) =
      snd (spec_run (OpCleanup r # ps) (holders_of s))"
    using ops_refine [OF assms(1), of "OpCleanup r # ps"] by (metis snd_conv)
  ultimately have "r \<in> snd (spec_run ps (\<lambda>k. holders_of s k - {r})) k"
    by (simp only: snd_spec_run_Cons spec_op.simps snd_conv)
  from spec_run_frame [OF assms(2) this] show False by simp
qed

end

definition cache_holders :: "CacheManager \<Rightarrow> holders" where
  "cache_holders cm k = (case cm_blocks cm k of None \<Rightarrow> {} | Some b \<Rightarrow> set (cb_Refs b))"

lemma cache_holders_empty: "cache_inv cm \<Longrightarrow> cache_holders cm k = {} \<longleftrightarrow> cm_blocks cm k = None"
  by (auto simp: cache_holders_def block_ok_def dest: cache_invD split: option.splits)

lemma without_ref_holders:
  assumes "cache_inv cm"
  shows "(case without_ref r (cm_blocks cm k) of None \<Rightarrow> {} | Some b \<Rightarrow> set (cb_Refs b)) =
    cache_holders cm k - {r}"
proof (cases "cm_blocks cm k")
  case None
  then show ?thesis by (simp add: without_ref_def cache_holders_def)
next
  case (Some b)
  with assms have "distinct (cb_Refs b)" by (auto simp: block_ok_def dest: cache_invD)
  then have eq: "set (remove1 r (cb_Refs b)) = set (cb_Refs b) - {r}" by (rule set_remove1_eq)
  have "(case without_ref r (Some b) of None \<Rightarrow> {} | Some b \<Rightarrow> set (cb_Refs b)) = set (remove1 r (cb_Refs b))"
    by (cases "remove1 r (cb_Refs b)") (simp_all add: without_ref_def)
  then show ?thesis unfolding eq Some by (simp add: cache_holders_def Some)
qed

lemma Release_blocks:
  "cm_blocks (snd (Release k r cm)) = (cm_blocks cm)(k := without_ref r (cm_blocks cm k))"
  by (auto simp: Release_def without_ref_def drop_ref_eq fun_eq_iff split: option.splits)

lemma Release_holders:
  assumes "cache_inv cm"
  shows "cache_holders (snd (Release k r cm)) = (cache_holders cm)(k := cache_holders cm k - {r})"
proof
  fix k'
  show "cache_holders (snd (Release k r cm)) k' = ((cache_holders cm)(k := cache_holders cm k - {r})) k'"
    using without_ref_holders [OF assms, of r k]
    by (cases "k' = k") (simp_all add: cache_holders_def Release_blocks)
qed

lemma Release_found: "fst (Release k r cm) = (r \<in> cache_holders cm k)"
  by (simp add: Release_def drop_ref_eq cache_holders_def split: option.splits)

lemma CleanupRun_holders:
  assumes "cache_inv cm" and "range_order (cm_blocks cm) order"
  shows "cache_holders (CleanupRun order r cm) = (\<lambda>k. cache_holders cm k - {r})"
proof
  fix k
  from assms(2) have "distinct order" "k \<notin> set order \<Longrightarrow> cm_blocks cm k = None"
    by (auto simp: range_order_def domIff)
  then show "cache_holders (CleanupRun order r cm) k = cache_holders cm k - {r}"
    using without_ref_holders [OF assms(1), of r k]
    by (auto simp: cache_holders_def CleanupRun_blocks)
qed

subsection \<open>The manager implements the contract\<close>

text \<open>A map that Go can hold is finite, which every operation keeps.\<close>

definition cache_ok :: "CacheManager \<Rightarrow> bool" where
  "cache_ok cm \<longleftrightarrow> cache_inv cm \<and> finite (dom (cm_blocks cm))"

lemma Register_dom: "dom (cm_blocks (snd (Register k n sz r cm))) = insert k (dom (cm_blocks cm))"
  by (auto simp: Register_def split: option.splits)

lemma LookupAndRef_dom: "dom (cm_blocks (snd (LookupAndRef k r cm))) = dom (cm_blocks cm)"
  by (auto simp: LookupAndRef_def split: option.splits)

lemma Release_dom: "dom (cm_blocks (snd (Release k r cm))) \<subseteq> dom (cm_blocks cm)"
  by (auto simp: Release_blocks without_ref_def split: if_splits option.splits)

lemma cleanup_key_dom: "dom (cm_blocks (cleanup_key r k cm)) \<subseteq> dom (cm_blocks cm)"
  by (auto simp: cleanup_key_blocks without_ref_def split: if_splits option.splits)

lemma CleanupRun_dom: "dom (cm_blocks (CleanupRun order r cm)) \<subseteq> dom (cm_blocks cm)"
  unfolding CleanupRun_def
proof (induction order arbitrary: cm)
  case (Cons k order)
  then show ?case using cleanup_key_dom [of r k cm] by fastforce
qed simp

lemma cache_do_ok: "cache_ok cm \<Longrightarrow> cache_ok (snd (cache_do ord p cm))"
proof (cases p)
  case (OpLookup k r)
  then show "cache_ok cm \<Longrightarrow> cache_ok (snd (cache_do ord p cm))"
    using LookupAndRef_inv [of cm k r] LookupAndRef_dom [of k r cm]
    by (auto simp: cache_ok_def split: prod.splits)
qed (auto simp: cache_ok_def inv_intros Register_dom
       intro: finite_subset [OF Release_dom] finite_subset [OF CleanupRun_dom])

locale cache_range = map_range ord for ord :: "(string \<rightharpoonup> CacheBlock) \<Rightarrow> string list"

sublocale cache_range \<subseteq> reg: ref_registry "cache_do ord" cache_holders cache_ok
proof
  fix cm :: CacheManager and p
  assume ok: "cache_ok cm"
  then have inv: "cache_inv cm" and range: "range_order (cm_blocks cm) (ord (cm_blocks cm))"
    by (auto simp: cache_ok_def ord_range)
  show "cache_ok (snd (cache_do ord p cm))" using ok by (rule cache_do_ok)
  show "(fst (cache_do ord p cm), cache_holders (snd (cache_do ord p cm))) = spec_op p (cache_holders cm)"
  proof (cases p)
    case (OpRegister k n sz r)
    then show ?thesis using cache_holders_empty [OF inv, of k]
      by (auto simp: Register_def cache_holders_def fun_eq_iff split: option.splits)
  next
    case (OpLookup k r)
    then show ?thesis using cache_holders_empty [OF inv, of k]
      by (auto simp: LookupAndRef_def cache_holders_def fun_eq_iff split: option.splits)
  next
    case (OpRelease k r)
    then show ?thesis by (simp add: Release_holders [OF inv] Release_found)
  next
    case (OpCleanup r)
    then show ?thesis by (simp add: CleanupRun_holders [OF inv range])
  qed
qed

lemma NewCacheManager_ok: "cache_ok (NewCacheManager w fs)"
  using NewCacheManager_inv [of w fs] by (simp add: cache_ok_def NewCacheManager_def)

lemma NewCacheManager_holders: "cache_holders (NewCacheManager w fs) = (\<lambda>k. {})"
  by (simp add: cache_holders_def NewCacheManager_def fun_eq_iff)

context cache_range
begin

lemma ops_from_new:
  "cache_ok (snd (ops_run (cache_do ord) ps (NewCacheManager w fs))) \<and>
   (fst (ops_run (cache_do ord) ps (NewCacheManager w fs)),
    cache_holders (snd (ops_run (cache_do ord) ps (NewCacheManager w fs)))) = spec_run ps (\<lambda>k. {})"
  using reg.ops_refine [OF NewCacheManager_ok, of ps w fs] by (simp add: NewCacheManager_holders)

lemma cleaned_holds_nothing:
  "cache_ok cm \<Longrightarrow> r \<notin> op_run ` set ps \<Longrightarrow>
    r \<notin> cache_holders (snd (ops_run (cache_do ord) (OpCleanup r # ps) cm)) k"
  by (rule reg.cleaned_stays_clean)

end

interpretation sorted_cache: cache_range sorted_keys
  by unfold_locales

subsection \<open>Which files an operation unlinks\<close>

text \<open>The paths of the blocks that were registered and no longer are.\<close>

definition lost_path :: "CacheBlock option \<Rightarrow> CacheBlock option \<Rightarrow> string set" where
  "lost_path x x' = (case x of
     None \<Rightarrow> {}
   | Some b \<Rightarrow> if x' = None \<and> cb_ShmName b \<noteq> [] then {shm_path (cb_ShmName b)} else {})"

definition gone_paths :: "CacheManager \<Rightarrow> CacheManager \<Rightarrow> string set" where
  "gone_paths cm cm' = (\<Union>k. lost_path (cm_blocks cm k) (cm_blocks cm' k))"

lemma lost_path_same [simp]: "lost_path x x = {}" "lost_path x (Some b) = {}" "lost_path None x' = {}"
  by (auto simp: lost_path_def split: option.splits)

lemma lost_path_without_ref: "lost_path x (without_ref r x) = dropped_path r x"
  by (auto simp: lost_path_def dropped_path_def without_ref_def last_ref_def split: option.splits)

lemma Register_files [simp]: "devfiles (snd (Register k n sz r cm)) = devfiles cm"
  by (simp add: Register_def split: option.splits)

lemma LookupAndRef_files [simp]: "devfiles (snd (LookupAndRef k r cm)) = devfiles cm"
  by (simp add: LookupAndRef_def split: option.splits)

lemma Release_is_cleanup_key: "snd (Release k r cm) = cleanup_key r k cm"
  by (simp add: Release_def cleanup_key_def split: option.splits)

lemma CleanupRun_gone:
  assumes "distinct order" and "\<not> cm_windows cm"
  shows "devfiles (CleanupRun order r cm) = devfiles cm - gone_paths cm (CleanupRun order r cm)"
proof -
  have "lost_path (cm_blocks cm k) (cm_blocks (CleanupRun order r cm) k) =
      (if k \<in> set order then dropped_path r (cm_blocks cm k) else {})" for k
    by (simp add: CleanupRun_blocks [OF assms(1)] lost_path_without_ref)
  then have "gone_paths cm (CleanupRun order r cm) = dropped_paths r (set order) cm"
    using assms(2) by (auto simp: gone_paths_def dropped_paths_def)
  then show ?thesis by (simp add: CleanupRun_files [OF assms(1)])
qed

lemma Release_gone:
  assumes "\<not> cm_windows cm"
  shows "devfiles (snd (Release k r cm)) = devfiles cm - gone_paths cm (snd (Release k r cm))"
  using CleanupRun_gone [of "[k]" cm r] assms
  by (simp add: Release_is_cleanup_key CleanupRun_def)

lemma cache_do_files:
  assumes "range_order (cm_blocks cm) (ord (cm_blocks cm))" and "\<not> cm_windows cm"
  shows "devfiles (snd (cache_do ord p cm)) = devfiles cm - gone_paths cm (snd (cache_do ord p cm))"
proof (cases p)
  case (OpRegister k n sz r)
  have "gone_paths cm (snd (Register k n sz r cm)) = {}"
    by (auto simp: gone_paths_def Register_def split: option.splits if_splits)
  then show ?thesis using OpRegister by simp
next
  case (OpLookup k r)
  have "gone_paths cm (snd (LookupAndRef k r cm)) = {}"
    by (auto simp: gone_paths_def LookupAndRef_def split: option.splits if_splits)
  then show ?thesis using OpLookup by simp
next
  case (OpRelease k r)
  then show ?thesis using Release_gone [OF assms(2), of k r] by simp
next
  case (OpCleanup r)
  then show ?thesis using CleanupRun_gone [of _ cm r] assms by (simp add: range_order_def)
qed

text \<open>A block keeps its segment name while it is registered.\<close>

lemma cache_do_name:
  assumes "range_order (cm_blocks cm) (ord (cm_blocks cm))"
    and "cm_blocks cm k = Some b" and "cm_blocks (snd (cache_do ord p cm)) k = Some b'"
  shows "cb_ShmName b' = cb_ShmName b"
proof (cases p)
  case (OpRegister k n sz r)
  then show ?thesis using assms by (auto simp: Register_def split: option.splits if_splits)
next
  case (OpLookup k r)
  then show ?thesis using assms by (auto simp: LookupAndRef_def split: option.splits if_splits)
next
  case (OpRelease k r)
  then show ?thesis using assms
    by (auto simp: Release_blocks without_ref_def split: option.splits if_splits)
next
  case (OpCleanup r)
  then show ?thesis using assms
    by (auto simp: CleanupRun_blocks range_order_def without_ref_def split: option.splits if_splits)
qed

subsection \<open>Properties\<close>

text \<open>C16: from an empty manager, any sequence of registrations, lookups, releases and run
  cleanups, whatever order the cleanups visit the blocks in, gives every caller the answer of
  the specification and leaves exactly the holders the specification computes: a key is taken
  while some run holds it, a second registration of it is refused and disturbs nobody, a run
  counts once however often it looks the key up, and the block goes with its last holder.\<close>

theorem cache_refines_holders:
  assumes "\<And>m. finite (dom m) \<Longrightarrow> range_order m (ord m)"
  shows "case ops_run (cache_do ord) ps (NewCacheManager w fs) of (answers, cm) \<Rightarrow>
    cache_ok cm \<and> (answers, cache_holders cm) = spec_run ps (\<lambda>k. {})"
proof -
  from assms have "cache_range ord" by (intro cache_range.intro map_range.intro)
  from cache_range.ops_from_new [OF this] show ?thesis
    by (simp add: prod.case_eq_if)
qed

lemma sorted_keys_range: "finite (dom m) \<Longrightarrow> range_order m (sorted_keys m)"
  by (rule sorted_range.ord_range)

lemma cache_refines_holders_witness:
  "case ops_run (cache_do sorted_keys)
      [OpRegister ''k'' ''psm_1'' 64 ''a'', OpRegister ''k'' ''psm_2'' 8 ''b'', OpLookup ''k'' ''b'',
       OpCleanup ''a'', OpRelease ''k'' ''b''] (NewCacheManager False {}) of (answers, cm) \<Rightarrow>
    answers = [True, False, True, True, True] \<and> cache_holders cm = (\<lambda>k. {})"
  using cache_refines_holders [of sorted_keys
      "[OpRegister ''k'' ''psm_1'' 64 ''a'', OpRegister ''k'' ''psm_2'' 8 ''b'', OpLookup ''k'' ''b'',
        OpCleanup ''a'', OpRelease ''k'' ''b'']" False "{}", OF sorted_keys_range]
  by (auto simp: prod.case_eq_if fun_eq_iff simp del: ops_run.simps cache_do.simps)

text \<open>Once a run was cleaned up no block has it as a holder, and this stays so whatever the
  other runs do afterwards: a terminated run never keeps a block alive.\<close>

theorem cleaned_run_holds_nothing:
  assumes "\<And>m. finite (dom m) \<Longrightarrow> range_order m (ord m)"
    and "cache_ok cm" and "r \<notin> op_run ` set ps"
  shows "r \<notin> cache_holders (snd (ops_run (cache_do ord) (OpCleanup r # ps) cm)) k"
proof -
  from assms(1) have "cache_range ord" by (intro cache_range.intro map_range.intro)
  then show ?thesis by (rule cache_range.cleaned_holds_nothing [OF _ assms(2,3)])
qed

text \<open>One block, held by runs \<open>a\<close> and \<open>b\<close>, and a second one held by \<open>a\<close> alone.\<close>

definition two_blocks :: CacheManager where
  "two_blocks = \<lparr>cm_blocks = [''k'' \<mapsto> \<lparr>cb_Key = ''k'', cb_ShmName = ''psm_1'', cb_Size = 64,
       cb_OwnerRun = ''a'', cb_Refs = [''a'', ''b'']\<rparr>,
     ''l'' \<mapsto> \<lparr>cb_Key = ''l'', cb_ShmName = ''psm_2'', cb_Size = 8, cb_OwnerRun = ''a'', cb_Refs = [''a'']\<rparr>],
     cm_windows = False, devfiles = {shm_path ''psm_1'', shm_path ''psm_2''}\<rparr>"

lemma two_blocks_ok: "cache_ok two_blocks"
  by (simp add: two_blocks_def cache_ok_def cache_inv_def block_ok_def)

lemma cleaned_run_holds_nothing_witness:
  "''a'' \<notin> cache_holders (snd (ops_run (cache_do sorted_keys) [OpCleanup ''a'', OpRelease ''k'' ''b''] two_blocks)) ''k''"
  by (rule cleaned_run_holds_nothing [OF sorted_keys_range two_blocks_ok]) simp_all

text \<open>On a build with POSIX shared memory an operation unlinks exactly the segments of the
  blocks it removes: a segment goes with its block, and as long as no two blocks name the same
  segment, a block that stays registered keeps its name and its file.\<close>

theorem unlink_exactly_removed:
  assumes "\<And>m. finite (dom m) \<Longrightarrow> range_order m (ord m)"
    and "cache_ok cm" and "\<not> cm_windows cm"
    and "\<And>k k' b b'. cm_blocks cm k = Some b \<Longrightarrow> cm_blocks cm k' = Some b' \<Longrightarrow>
      cb_ShmName b = cb_ShmName b' \<Longrightarrow> k = k'"
    and "cm_blocks cm k = Some b"
  shows "case cm_blocks (snd (cache_do ord p cm)) k of
      None \<Rightarrow> cb_ShmName b \<noteq> [] \<longrightarrow> shm_path (cb_ShmName b) \<notin> devfiles (snd (cache_do ord p cm))
    | Some b' \<Rightarrow> cb_ShmName b' = cb_ShmName b \<and>
        (shm_path (cb_ShmName b) \<in> devfiles (snd (cache_do ord p cm)) \<longleftrightarrow> shm_path (cb_ShmName b) \<in> devfiles cm)"
proof -
  let ?cm = "snd (cache_do ord p cm)"
  have range: "range_order (cm_blocks cm) (ord (cm_blocks cm))"
    using assms(1,2) by (simp add: cache_ok_def)
  note files = cache_do_files [where cm = cm and ord = ord and p = p, OF range assms(3)]
  show ?thesis
  proof (cases "cm_blocks ?cm k")
    case None
    then have "lost_path (cm_blocks cm k) (cm_blocks ?cm k) \<subseteq> gone_paths cm ?cm"
      unfolding gone_paths_def by (intro UN_upper UNIV_I)
    then show ?thesis using files None assms(5) by (auto simp: lost_path_def)
  next
    case (Some b')
    have "shm_path (cb_ShmName b) \<notin> lost_path (cm_blocks cm k') (cm_blocks ?cm k')" for k'
    proof
      assume "shm_path (cb_ShmName b) \<in> lost_path (cm_blocks cm k') (cm_blocks ?cm k')"
      then obtain b2 where "cm_blocks cm k' = Some b2" "cm_blocks ?cm k' = None"
        "cb_ShmName b = cb_ShmName b2"
        by (auto simp: lost_path_def shm_path_def split: option.splits if_splits)
      with assms(4) [OF assms(5) this(1,3)] Some show False by simp
    qed
    then show ?thesis using files Some cache_do_name [where cm = cm and ord = ord and p = p, OF range assms(5) Some]
      by (simp add: gone_paths_def)
  qed
qed

lemma unlink_exactly_removed_witness:
  "case cm_blocks (snd (cache_do sorted_keys (OpCleanup ''a'') two_blocks)) ''k'' of
      None \<Rightarrow> ''psm_1'' \<noteq> [] \<longrightarrow> shm_path ''psm_1'' \<notin> devfiles (snd (cache_do sorted_keys (OpCleanup ''a'') two_blocks))
    | Some b' \<Rightarrow> cb_ShmName b' = ''psm_1'' \<and>
        (shm_path ''psm_1'' \<in> devfiles (snd (cache_do sorted_keys (OpCleanup ''a'') two_blocks)) \<longleftrightarrow>
         shm_path ''psm_1'' \<in> devfiles two_blocks)"
proof -
  have windows: "\<not> cm_windows two_blocks" by (simp add: two_blocks_def)
  have names: "k = k'" if "cm_blocks two_blocks k = Some b" "cm_blocks two_blocks k' = Some b'"
      "cb_ShmName b = cb_ShmName b'" for k k' b b'
    using that by (auto simp: two_blocks_def split: if_splits)
  have block: "cm_blocks two_blocks ''k'' = Some \<lparr>cb_Key = ''k'', cb_ShmName = ''psm_1'', cb_Size = 64,
      cb_OwnerRun = ''a'', cb_Refs = [''a'', ''b'']\<rparr>"
    by (simp add: two_blocks_def)
  show ?thesis
    using unlink_exactly_removed [OF sorted_keys_range two_blocks_ok windows _ block, where p = "OpCleanup ''a''"] names
    by (simp only: CacheBlock.select_convs)
qed

lemma without_ref_idem:
  assumes "\<And>b. x = Some b \<Longrightarrow> distinct (cb_Refs b)"
  shows "without_ref r (without_ref r x) = without_ref r x"
proof (cases x)
  case (Some b)
  with assms have "r \<notin> set (remove1 r (cb_Refs b))" by simp
  then have "remove1 r (remove1 r (cb_Refs b)) = remove1 r (cb_Refs b)" by (rule remove1_idem)
  then show ?thesis using Some by (simp add: without_ref_def)
qed (simp add: without_ref_def)

text \<open>The cleanup of a run does not depend on the order in which the blocks are visited, and
  cleaning the same run up again changes nothing, neither blocks nor files.\<close>

theorem cleanup_deterministic_idempotent:
  assumes "cache_inv cm" and "range_order (cm_blocks cm) o1" and "range_order (cm_blocks cm) o2"
    and "range_order (cm_blocks (CleanupRun o1 r cm)) o3"
  shows "CleanupRun o1 r cm = CleanupRun o2 r cm \<and>
    CleanupRun o3 r (CleanupRun o1 r cm) = CleanupRun o1 r cm"
proof
  let ?c = "CleanupRun o1 r cm"
  have d: "distinct o1" "distinct o2" "distinct o3" "set o1 = set o2"
    using assms(2-4) by (auto simp: range_order_def)
  then have "cm_blocks ?c = cm_blocks (CleanupRun o2 r cm)"
    by (simp add: fun_eq_iff CleanupRun_blocks)
  moreover have "devfiles ?c = devfiles (CleanupRun o2 r cm)" using d by (simp add: CleanupRun_files)
  ultimately show "?c = CleanupRun o2 r cm" by simp
  have gone: "without_ref r (cm_blocks ?c k) = cm_blocks ?c k" for k
  proof (cases "k \<in> set o1")
    case True
    have "distinct (cb_Refs b)" if "cm_blocks cm k = Some b" for b
      using cache_invD [OF assms(1) that] by (simp add: block_ok_def)
    from without_ref_idem [where r = r, OF this] show ?thesis
      using True by (simp add: CleanupRun_blocks [OF d(1)])
  next
    case False
    then have "cm_blocks cm k = None" using assms(2) by (auto simp: range_order_def)
    then show ?thesis using False d(1) by (simp add: CleanupRun_blocks without_ref_def)
  qed
  then have "cm_blocks (CleanupRun o3 r ?c) = cm_blocks ?c"
    using d(3) by (simp add: fun_eq_iff CleanupRun_blocks [OF d(3)])
  moreover have "dropped_paths r (set o3) ?c = {}"
    using gone unfolding dropped_paths_def lost_path_without_ref [symmetric] by simp
  then have "devfiles (CleanupRun o3 r ?c) = devfiles ?c" using d(3) by (simp add: CleanupRun_files)
  ultimately show "CleanupRun o3 r ?c = ?c" by simp
qed

lemma cleanup_deterministic_idempotent_witness:
  "CleanupRun [''k'', ''l''] ''a'' two_blocks = CleanupRun [''l'', ''k''] ''a'' two_blocks \<and>
   CleanupRun [''k''] ''a'' (CleanupRun [''k'', ''l''] ''a'' two_blocks) = CleanupRun [''k'', ''l''] ''a'' two_blocks"
proof (rule cleanup_deterministic_idempotent)
  show "cache_inv two_blocks" using two_blocks_ok by (simp add: cache_ok_def)
  show "range_order (cm_blocks two_blocks) [''k'', ''l'']" "range_order (cm_blocks two_blocks) [''l'', ''k'']"
    by (auto simp: range_order_def two_blocks_def)
  show "range_order (cm_blocks (CleanupRun [''k'', ''l''] ''a'' two_blocks)) [''k'']"
    by (auto simp: range_order_def CleanupRun_blocks two_blocks_def without_ref_def dom_def split: if_splits)
qed

end
