(* ===== verification/RunChannel.thy ===== *)
theory RunChannel
  imports Prelude
begin

section \<open>RunChannel: the lifecycle of one run's message channel\<close>

text \<open>
  Models the message types and the \<open>RunChannel\<close> of \<^verbatim>\<open>internal/runner/grpc_server.go\<close>
  and \<open>RunStatus\<close> of \<^verbatim>\<open>internal/runner/manager.go\<close>: the monotone phase, the channels
  closed on the way, the guarded send, and what Python reported. \<open>transitionTo\<close> is given
  both as the atomic step it is meant to be and as the load/compare-and-swap loop it is, and
  the two are shown to agree under any interference. \<open>RunStatus\<close> is an open string type in Go
  and stays one here.
\<close>

subsection \<open>Statuses, messages, phases\<close>

type_synonym RunStatus = string

abbreviation (input) StatusRunning :: RunStatus where "StatusRunning \<equiv> ''running''"
abbreviation (input) StatusCompleted :: RunStatus where "StatusCompleted \<equiv> ''completed''"
abbreviation (input) StatusFailed :: RunStatus where "StatusFailed \<equiv> ''failed''"
abbreviation (input) StatusCancelled :: RunStatus where "StatusCancelled \<equiv> ''cancelled''"

definition IsTerminal :: "RunStatus \<Rightarrow> bool" where
  "IsTerminal s = (s = StatusCompleted \<or> s = StatusFailed \<or> s = StatusCancelled)"

datatype Message =
    OutputMsg string
  | ProgressMsg int int string
  | StatusMsg RunStatus
  | ErrorMsg string string int

text \<open>
  \<open>phase\<close> is private and only ever holds the three constants (its zero value is
  \<open>PhaseRegistered\<close>), so it is an enumeration; Go compares phases by number.
\<close>

datatype RunPhase = PhaseRegistered | PhaseConnected | PhaseDone

fun phase_num :: "RunPhase \<Rightarrow> nat" where
  "phase_num PhaseRegistered = 0"
| "phase_num PhaseConnected = 1"
| "phase_num PhaseDone = 2"

fun RunPhase_String :: "RunPhase \<Rightarrow> string" where
  "RunPhase_String PhaseRegistered = ''registered''"
| "RunPhase_String PhaseConnected = ''connected''"
| "RunPhase_String PhaseDone = ''done''"

instantiation RunPhase :: linorder
begin

definition less_eq_RunPhase :: "RunPhase \<Rightarrow> RunPhase \<Rightarrow> bool" where
  "less_eq_RunPhase a b \<longleftrightarrow> phase_num a \<le> phase_num b"

definition less_RunPhase :: "RunPhase \<Rightarrow> RunPhase \<Rightarrow> bool" where
  "less_RunPhase a b \<longleftrightarrow> phase_num a < phase_num b"

lemma phase_num_inj: "phase_num a = phase_num b \<Longrightarrow> a = b"
  by (cases a; cases b) simp_all

instance
  by standard (auto simp: less_eq_RunPhase_def less_RunPhase_def phase_num_inj)

end

lemma phase_order [simp]:
  "PhaseRegistered \<le> p" "p \<le> PhaseDone" "PhaseDone \<le> p \<longleftrightarrow> p = PhaseDone"
  "p \<le> PhaseRegistered \<longleftrightarrow> p = PhaseRegistered" "p < PhaseDone \<longleftrightarrow> p \<noteq> PhaseDone"
  by (cases p; simp add: less_eq_RunPhase_def less_RunPhase_def)+

definition legalPhaseTransition :: "RunPhase \<Rightarrow> RunPhase \<Rightarrow> bool" where
  "legalPhaseTransition from to =
     (if to = PhaseDone then from \<noteq> PhaseDone
      else from = PhaseRegistered \<and> to = PhaseConnected)"

lemma legal_increases: "legalPhaseTransition p q \<Longrightarrow> p < q"
  by (cases p; cases q) (auto simp: legalPhaseTransition_def less_RunPhase_def)

subsection \<open>State\<close>

text \<open>
  \<open>rc_stream\<close> is the identity of the gRPC stream, \<open>None\<close> for Go's nil; the three signal
  channels carry no values and are only ever closed.
\<close>

record RunChannel =
  rc_Messages :: "Message chan"
  rc_stream :: "nat option"
  rc_cancel :: "unit chan"
  rc_connected :: "unit chan"
  rc_streamDone :: "unit chan"
  rc_phase :: RunPhase
  rc_pythonStatus :: "RunStatus option"
  rc_gotError :: bool
  rc_errorMessage :: "string option"

abbreviation (input) messageBufferSize :: nat where "messageBufferSize \<equiv> 100"

definition newRunChannel :: RunChannel where
  "newRunChannel = \<lparr>rc_Messages = make_chan messageBufferSize, rc_stream = None,
     rc_cancel = make_chan 0, rc_connected = make_chan 0, rc_streamDone = make_chan 0,
     rc_phase = PhaseRegistered, rc_pythonStatus = None, rc_gotError = False,
     rc_errorMessage = None\<rparr>"

subsection \<open>Operations\<close>

text \<open>The side effects of a won compare-and-swap: the phase moves, then a channel is closed.\<close>

definition enter_phase :: "RunPhase \<Rightarrow> RunChannel \<Rightarrow> RunChannel go" where
  "enter_phase target ch =
     (let ch = ch\<lparr>rc_phase := target\<rparr> in
      case target of
        PhaseConnected \<Rightarrow> go_bind (chan_close (rc_connected ch)) (\<lambda>c. Ret (ch\<lparr>rc_connected := c\<rparr>))
      | PhaseDone \<Rightarrow> go_bind (chan_close (rc_Messages ch)) (\<lambda>c. Ret (ch\<lparr>rc_Messages := c\<rparr>))
      | PhaseRegistered \<Rightarrow> Ret ch)"

definition transitionTo :: "RunPhase \<Rightarrow> RunChannel \<Rightarrow> (bool \<times> RunChannel) go" where
  "transitionTo target ch =
     (if \<not> legalPhaseTransition (rc_phase ch) target then Ret (False, ch)
      else go_bind (enter_phase target ch) (\<lambda>ch'. Ret (True, ch')))"

text \<open>
  The loop as written: load the phase, check it, compare-and-swap. Between the load and the
  swap another goroutine may complete transitions of its own: \<open>es\<close> lists, for each round,
  the ones that do. The swap fails, and the loop goes round, when the phase has changed.
\<close>

fun interfere :: "RunPhase list \<Rightarrow> RunChannel \<Rightarrow> RunChannel go" where
  "interfere [] ch = Ret ch"
| "interfere (p # ps) ch = go_bind (transitionTo p ch) (\<lambda>(_, ch'). interfere ps ch')"

fun transition_loop :: "RunPhase \<Rightarrow> RunPhase list list \<Rightarrow> RunChannel \<Rightarrow> (bool \<times> RunChannel) go" where
  "transition_loop target [] ch = transitionTo target ch"
| "transition_loop target (e # es) ch =
     (let cur = rc_phase ch in
      if \<not> legalPhaseTransition cur target then Ret (False, ch)
      else go_bind (interfere e ch) (\<lambda>ch1.
             if rc_phase ch1 = cur
             then go_bind (enter_phase target ch1) (\<lambda>ch'. Ret (True, ch'))
             else transition_loop target es ch1))"

definition trySend :: "Message \<Rightarrow> RunChannel \<Rightarrow> (bool \<times> RunChannel) go" where
  "trySend msg ch =
     (if rc_phase ch \<ge> PhaseDone then Ret (False, ch)
      else go_bind (chan_send msg (rc_Messages ch)) (\<lambda>c. Ret (True, ch\<lparr>rc_Messages := c\<rparr>)))"

text \<open>\<open>pythonStatus.CompareAndSwap(nil, &s)\<close>: the first terminal status wins.\<close>

definition reportStatus :: "RunStatus \<Rightarrow> RunChannel \<Rightarrow> RunChannel" where
  "reportStatus s ch = (if rc_pythonStatus ch = None then ch\<lparr>rc_pythonStatus := Some s\<rparr> else ch)"

definition reportError :: "string \<Rightarrow> RunChannel \<Rightarrow> RunChannel" where
  "reportError msg ch = ch\<lparr>rc_gotError := True, rc_errorMessage := Some msg\<rparr>"

definition closeStreamDone :: "RunChannel \<Rightarrow> RunChannel go" where
  "closeStreamDone ch =
     go_bind (chan_close (rc_streamDone ch)) (\<lambda>c. Ret (ch\<lparr>rc_streamDone := c\<rparr>))"

subsection \<open>The steps goroutines take on a channel\<close>

text \<open>
  The gRPC handler connects, sends, records what Python reported and finally closes
  \<open>streamDone\<close>; the manager sends the final status and ends the channel; the consumer
  receives. Any interleaving of these is a run of \<open>rc_step\<close>.
\<close>

inductive rc_step :: "RunChannel \<Rightarrow> RunChannel \<Rightarrow> bool" where
  rc_connect: "transitionTo PhaseConnected (ch\<lparr>rc_stream := Some sid\<rparr>) = Ret (b, ch') \<Longrightarrow> rc_step ch ch'"
| rc_done: "transitionTo PhaseDone ch = Ret (b, ch') \<Longrightarrow> rc_step ch ch'"
| rc_send: "trySend m ch = Ret (b, ch') \<Longrightarrow> rc_step ch ch'"
| rc_recv: "chan_recv (rc_Messages ch) = Ret (m, c) \<Longrightarrow> rc_step ch (ch\<lparr>rc_Messages := c\<rparr>)"
| rc_status: "s = StatusCompleted \<or> s = StatusFailed \<Longrightarrow> rc_step ch (reportStatus s ch)"
| rc_error: "rc_step ch (reportError msg ch)"
| rc_end: "closeStreamDone ch = Ret ch' \<Longrightarrow> rc_step ch ch'"

inductive_cases rc_stepE: "rc_step ch ch'"

text \<open>The closed channels follow the phase: the part of the invariant \<open>transitionTo\<close> rests on.\<close>

definition rc_core :: "RunChannel \<Rightarrow> bool" where
  "rc_core ch \<longleftrightarrow>
     (ch_closed (rc_Messages ch) \<longleftrightarrow> rc_phase ch = PhaseDone) \<and>
     (rc_phase ch = PhaseRegistered \<longrightarrow> \<not> ch_closed (rc_connected ch)) \<and>
     (rc_phase ch = PhaseConnected \<longrightarrow> ch_closed (rc_connected ch))"

definition rc_inv :: "RunChannel \<Rightarrow> bool" where
  "rc_inv ch \<longleftrightarrow>
     rc_core ch \<and>
     ch_cap (rc_Messages ch) = messageBufferSize \<and>
     length (ch_buf (rc_Messages ch)) \<le> messageBufferSize \<and>
     (ch_closed (rc_connected ch) \<longrightarrow> rc_stream ch \<noteq> None) \<and>
     (rc_gotError ch \<longleftrightarrow> rc_errorMessage ch \<noteq> None) \<and>
     (\<forall>s. rc_pythonStatus ch = Some s \<longrightarrow> s = StatusCompleted \<or> s = StatusFailed)"

lemma newRunChannel_inv [inv_intros]: "rc_inv newRunChannel"
  by (simp add: rc_inv_def rc_core_def newRunChannel_def)

lemma rc_inv_core: "rc_inv ch \<Longrightarrow> rc_core ch"
  by (simp add: rc_inv_def)

lemma transitionTo_Ret:
  "rc_core ch \<Longrightarrow> transitionTo p ch =
     Ret (legalPhaseTransition (rc_phase ch) p,
       if legalPhaseTransition (rc_phase ch) p
       then (case p of
           PhaseConnected \<Rightarrow> ch\<lparr>rc_phase := p, rc_connected := (rc_connected ch)\<lparr>ch_closed := True\<rparr>\<rparr>
         | PhaseDone \<Rightarrow> ch\<lparr>rc_phase := p, rc_Messages := (rc_Messages ch)\<lparr>ch_closed := True\<rparr>\<rparr>
         | PhaseRegistered \<Rightarrow> ch)
       else ch)"
  by (cases p) (auto simp: transitionTo_def enter_phase_def rc_core_def legalPhaseTransition_def
      chan_close_def Let_def)

lemma trySend_Ret:
  "rc_inv ch \<Longrightarrow> trySend m ch =
     (if rc_phase ch = PhaseDone then Ret (False, ch)
      else if length (ch_buf (rc_Messages ch)) < messageBufferSize
      then Ret (True, ch\<lparr>rc_Messages := (rc_Messages ch)\<lparr>ch_buf := ch_buf (rc_Messages ch) @ [m]\<rparr>\<rparr>)
      else Block)"
  by (auto simp: trySend_def rc_inv_def rc_core_def chan_send_def)

lemma transitionTo_core:
  "rc_core ch \<Longrightarrow> transitionTo p ch = Ret (b, ch') \<Longrightarrow> rc_core ch'"
  by (cases p) (auto simp: transitionTo_Ret rc_core_def legalPhaseTransition_def split: if_splits)

lemma transitionTo_frame:
  "transitionTo p ch = Ret (b, ch') \<Longrightarrow>
     ch_buf (rc_Messages ch') = ch_buf (rc_Messages ch) \<and> ch_cap (rc_Messages ch') = ch_cap (rc_Messages ch) \<and>
     (ch_closed (rc_connected ch') \<longrightarrow> ch_closed (rc_connected ch) \<or> p = PhaseConnected) \<and> rc_pythonStatus ch' = rc_pythonStatus ch \<and>
     rc_gotError ch' = rc_gotError ch \<and> rc_errorMessage ch' = rc_errorMessage ch \<and>
     rc_stream ch' = rc_stream ch \<and> rc_streamDone ch' = rc_streamDone ch"
  by (cases p) (auto simp: transitionTo_def enter_phase_def go_bind_eq_Ret chan_close_Ret Let_def
      split: if_splits)

lemma transitionTo_inv [inv_intros]:
  assumes "rc_inv ch" "p = PhaseConnected \<longrightarrow> rc_stream ch \<noteq> None" "transitionTo p ch = Ret (b, ch')"
  shows "rc_inv ch'"
  using assms(1,2) transitionTo_core [OF rc_inv_core assms(3)] transitionTo_frame [OF assms(3)]
  unfolding rc_inv_def by auto

lemma trySend_inv [inv_intros]:
  assumes inv: "rc_inv ch" and t: "trySend m ch = Ret (b, ch')"
  shows "rc_inv ch'"
proof (cases "ch' = ch")
  case False
  with inv t have "ch' = ch\<lparr>rc_Messages := (rc_Messages ch)\<lparr>ch_buf := ch_buf (rc_Messages ch) @ [m]\<rparr>\<rparr>"
    and "length (ch_buf (rc_Messages ch)) < messageBufferSize"
    by (simp_all add: trySend_Ret split: if_splits)
  with inv show ?thesis by (simp add: rc_inv_def rc_core_def)
qed (use inv in simp)

lemma set_stream_inv [inv_intros]: "rc_inv ch \<Longrightarrow> rc_inv (ch\<lparr>rc_stream := Some sid\<rparr>)"
  by (simp add: rc_inv_def rc_core_def)

lemma reportStatus_inv [inv_intros]:
  "rc_inv ch \<Longrightarrow> s = StatusCompleted \<or> s = StatusFailed \<Longrightarrow> rc_inv (reportStatus s ch)"
  by (simp add: rc_inv_def rc_core_def reportStatus_def)

lemma reportError_inv [inv_intros]: "rc_inv ch \<Longrightarrow> rc_inv (reportError msg ch)"
  by (simp add: rc_inv_def rc_core_def reportError_def)

lemma recv_inv [inv_intros]:
  "rc_inv ch \<Longrightarrow> chan_recv (rc_Messages ch) = Ret (m, c) \<Longrightarrow> rc_inv (ch\<lparr>rc_Messages := c\<rparr>)"
  by (auto simp: rc_inv_def rc_core_def chan_recv_def split: list.splits if_splits)

lemma closeStreamDone_inv [inv_intros]:
  assumes inv: "rc_inv ch" and c: "closeStreamDone ch = Ret ch'"
  shows "rc_inv ch'"
proof -
  from c obtain d where "ch' = ch\<lparr>rc_streamDone := d\<rparr>"
    unfolding closeStreamDone_def go_bind_eq_Ret by blast
  with inv show ?thesis by (simp add: rc_inv_def rc_core_def)
qed

lemma rc_step_inv: "rc_inv ch \<Longrightarrow> rc_step ch ch' \<Longrightarrow> rc_inv ch'"
proof (erule rc_stepE)
  fix sid b assume "rc_inv ch" and t: "transitionTo PhaseConnected (ch\<lparr>rc_stream := Some sid\<rparr>) = Ret (b, ch')"
  then have "rc_inv (ch\<lparr>rc_stream := Some sid\<rparr>)" by (intro set_stream_inv)
  then show "rc_inv ch'" by (rule transitionTo_inv [OF _ _ t]) simp
next
  fix b assume "rc_inv ch" and t: "transitionTo PhaseDone ch = Ret (b, ch')"
  then show "rc_inv ch'" by (intro transitionTo_inv [OF _ _ t]) simp_all
next
  fix m c assume "rc_inv ch" "ch' = ch\<lparr>rc_Messages := c\<rparr>" "chan_recv (rc_Messages ch) = Ret (m, c)"
  then show "rc_inv ch'" using recv_inv by blast
qed (blast intro: trySend_inv reportStatus_inv reportError_inv closeStreamDone_inv)+

interpretation rc: inv_system "\<lambda>ch. ch = newRunChannel" rc_step rc_inv
  by unfold_locales (auto intro: newRunChannel_inv rc_step_inv)

abbreviation "rc_reachable \<equiv> reach (\<lambda>ch. ch = newRunChannel) rc_step"

subsection \<open>What one step keeps\<close>

lemma transitionTo_phase:
  "rc_core ch \<Longrightarrow> transitionTo p ch = Ret (b, ch') \<Longrightarrow>
     rc_phase ch' = (if b then p else rc_phase ch) \<and> b = legalPhaseTransition (rc_phase ch) p"
  by (cases p) (auto simp: transitionTo_Ret legalPhaseTransition_def split: if_splits)

text \<open>The promise of a channel over time, as a relation between an earlier and a later state.\<close>

definition rc_later :: "RunChannel \<Rightarrow> RunChannel \<Rightarrow> bool" where
  "rc_later ch ch' \<longleftrightarrow>
     rc_phase ch \<le> rc_phase ch' \<and>
     (rc_phase ch = PhaseDone \<longrightarrow> suffix (ch_buf (rc_Messages ch')) (ch_buf (rc_Messages ch))) \<and>
     (\<forall>s. rc_pythonStatus ch = Some s \<longrightarrow> rc_pythonStatus ch' = Some s) \<and>
     (rc_gotError ch \<longrightarrow> rc_gotError ch') \<and>
     (ch_closed (rc_streamDone ch) \<longrightarrow> ch_closed (rc_streamDone ch'))"

lemma rc_later_refl: "rc_later ch ch"
  by (simp add: rc_later_def)

lemma rc_later_trans: "rc_later a b \<Longrightarrow> rc_later b c \<Longrightarrow> rc_later a c"
  by (auto simp: rc_later_def intro: order_trans suffix_order.order_trans)

lemma transitionTo_later:
  assumes "rc_core ch" "transitionTo p ch = Ret (b, ch')"
  shows "rc_later ch ch'"
  using transitionTo_phase [OF assms] transitionTo_frame [OF assms(2)] legal_increases
  by (auto simp: rc_later_def dest: less_imp_le split: if_splits)

lemma rc_step_later: "rc_inv ch \<Longrightarrow> rc_step ch ch' \<Longrightarrow> rc_later ch ch'"
proof (erule rc_stepE)
  fix sid b assume "rc_inv ch" "transitionTo PhaseConnected (ch\<lparr>rc_stream := Some sid\<rparr>) = Ret (b, ch')"
  then have "rc_later (ch\<lparr>rc_stream := Some sid\<rparr>) ch'"
    by (intro transitionTo_later) (auto simp: rc_inv_def rc_core_def)
  then show "rc_later ch ch'" by (simp add: rc_later_def)
next
  fix b assume "rc_inv ch" "transitionTo PhaseDone ch = Ret (b, ch')"
  then show "rc_later ch ch'" by (auto intro: transitionTo_later rc_inv_core)
qed (auto simp: rc_later_def trySend_def reportStatus_def reportError_def closeStreamDone_def
    chan_recv_def chan_close_Ret go_bind_eq_Ret suffix_def split: if_splits list.splits)

lemma rc_steps_later: "rc_step\<^sup>*\<^sup>* ch ch' \<Longrightarrow> rc_inv ch \<Longrightarrow> rc_later ch ch'"
proof (induction rule: rtranclp_induct)
  case (step y z)
  then show ?case
    using rc.steps_inv [OF step.hyps(1)] rc_step_later rc_later_trans by blast
qed (rule rc_later_refl)

subsection \<open>The compare-and-swap loop\<close>

lemma interfere_Ret: "rc_core ch \<Longrightarrow> \<exists>ch'. interfere ps ch = Ret ch' \<and> rc_core ch' \<and> rc_phase ch \<le> rc_phase ch'"
proof (induction ps arbitrary: ch)
  case (Cons p ps)
  obtain b ch1 where t: "transitionTo p ch = Ret (b, ch1)"
    using transitionTo_Ret [OF Cons.prems] by auto
  with Cons show ?case
    using transitionTo_core [OF Cons.prems t] transitionTo_later [OF Cons.prems t]
    by (fastforce simp: rc_later_def intro: order_trans)
qed auto

lemma interfere_append: "interfere (ps @ qs) ch = go_bind (interfere ps ch) (interfere qs)"
  by (induction ps arbitrary: ch) (auto simp: go_bind_assoc intro!: go_bind_cong)

lemma transition_loop_cases:
  assumes "rc_core ch"
  shows "\<exists>k. transition_loop target es ch =
           go_bind (interfere (take k (concat es)) ch) (transitionTo target)"
  using assms
proof (induction es arbitrary: ch)
  case Nil
  then show ?case by simp
next
  case (Cons e es)
  obtain ch1 where e: "interfere e ch = Ret ch1" "rc_core ch1"
    using interfere_Ret [OF Cons.prems] by blast
  show ?case
  proof (cases "legalPhaseTransition (rc_phase ch) target")
    case illegal: False
    then show ?thesis by (intro exI [of _ 0]) (simp add: transitionTo_def)
  next
    case legal: True
    show ?thesis
    proof (cases "rc_phase ch1 = rc_phase ch")
      case won: True
      with legal e show ?thesis
        by (intro exI [of _ "length e"]) (simp add: transitionTo_def)
    next
      case lost: False
      obtain k where "transition_loop target es ch1 =
          go_bind (interfere (take k (concat es)) ch1) (transitionTo target)"
        using Cons.IH [OF e(2)] by blast
      with lost legal e show ?thesis
        by (intro exI [of _ "length e + k"]) (simp add: interfere_append go_bind_assoc)
    qed
  qed
qed

text \<open>Every lost race raises the phase, and there are only three.\<close>

lemma transition_loop_done: "rc_phase ch = PhaseDone \<Longrightarrow> transition_loop target es ch = Ret (False, ch)"
  by (cases es) (auto simp: transitionTo_def legalPhaseTransition_def)

lemma phase_above: "p \<le> q \<Longrightarrow> q \<noteq> p \<Longrightarrow> p = PhaseConnected \<Longrightarrow> q = PhaseDone"
  by (cases q) (auto simp: less_eq_RunPhase_def)

lemma transition_loop_connected:
  assumes "rc_core ch" "rc_phase ch = PhaseConnected"
  shows "transition_loop target es ch = transition_loop target (take 1 es) ch"
proof (cases es)
  case (Cons e es')
  obtain ch1 where e: "interfere e ch = Ret ch1" "rc_phase ch \<le> rc_phase ch1"
    using interfere_Ret [OF assms(1)] by blast
  then show ?thesis
    using Cons assms(2) phase_above [OF e(2)] transition_loop_done [of ch1 target es']
      transition_loop_done [of ch1 target "[]"]
    by (cases "rc_phase ch1 = rc_phase ch") (simp_all add: Let_def)
qed simp

lemma transition_loop_rounds:
  assumes "rc_core ch"
  shows "transition_loop target es ch = transition_loop target (take 2 es) ch"
proof (cases es)
  case (Cons e es')
  obtain ch1 where e: "interfere e ch = Ret ch1" "rc_core ch1" "rc_phase ch \<le> rc_phase ch1"
    using interfere_Ret [OF assms] by blast
  have "transition_loop target es' ch1 = transition_loop target (take 1 es') ch1"
    if "rc_phase ch1 \<noteq> rc_phase ch"
  proof (cases "rc_phase ch1")
    case PhaseRegistered
    with e(3) that show ?thesis by simp
  next
    case PhaseConnected
    then show ?thesis by (rule transition_loop_connected [OF e(2)])
  next
    case PhaseDone
    then show ?thesis by (simp only: transition_loop_done)
  qed
  then show ?thesis
    using Cons e(1) by (simp add: Let_def numeral_2_eq_2)
qed simp

subsection \<open>Properties\<close>

text \<open>On every channel a run can reach, under any interleaving of its goroutines, neither
  a phase transition nor a guarded send ever panics: a transition returns whether it was
  legal and leaves a refused one's channel untouched; \<open>trySend\<close> returns false exactly when the
  channel is done (and then sends nothing), appends the message behind all earlier ones
  while fewer than 100 wait, and blocks (holding \<open>phaseMu\<close>) when the buffer is full.\<close>

theorem channel_never_panics:
  assumes "rc_reachable ch"
  shows "(\<exists>ch'. transitionTo p ch = Ret (legalPhaseTransition (rc_phase ch) p, ch') \<and>
            rc_phase ch' = (if legalPhaseTransition (rc_phase ch) p then p else rc_phase ch) \<and>
            (ch' \<noteq> ch \<or> \<not> legalPhaseTransition (rc_phase ch) p) \<and>
            (ch' = ch \<or> legalPhaseTransition (rc_phase ch) p)) \<and>
         (if rc_phase ch = PhaseDone then trySend m ch = Ret (False, ch)
          else if length (ch_buf (rc_Messages ch)) < messageBufferSize
          then \<exists>ch'. trySend m ch = Ret (True, ch') \<and> rc_phase ch' = rc_phase ch \<and>
                 ch_buf (rc_Messages ch') = ch_buf (rc_Messages ch) @ [m]
          else trySend m ch = Block)"
proof -
  have inv: "rc_inv ch" using assms by (rule rc.reach_inv)
  then have core: "rc_core ch" by (rule rc_inv_core)
  obtain ch' where t: "transitionTo p ch = Ret (legalPhaseTransition (rc_phase ch) p, ch')"
    using transitionTo_Ret [OF core] by blast
  have "rc_phase ch' \<noteq> rc_phase ch" if "legalPhaseTransition (rc_phase ch) p"
    using that legal_increases transitionTo_phase [OF core t] by fastforce
  moreover have "ch' = ch" if "\<not> legalPhaseTransition (rc_phase ch) p"
    using that t by (simp add: transitionTo_def)
  ultimately show ?thesis
    using t transitionTo_phase [OF core t] trySend_Ret [OF inv] by auto
qed

text \<open>Along any further execution a channel only moves forward: the phase never goes
  back; once done, nothing is ever added to the messages (the consumer drains a suffix of
  what was there); the first terminal status Python reported stays the reported one; and
  neither \<open>gotError\<close> nor \<open>streamDone\<close> is ever taken back.\<close>

theorem channel_moves_forward:
  assumes "rc_reachable ch" "rc_step\<^sup>*\<^sup>* ch ch'"
  shows "rc_phase ch \<le> rc_phase ch' \<and>
         (rc_phase ch = PhaseDone \<longrightarrow>
            rc_phase ch' = PhaseDone \<and> suffix (ch_buf (rc_Messages ch')) (ch_buf (rc_Messages ch))) \<and>
         (\<forall>s. rc_pythonStatus ch = Some s \<longrightarrow> rc_pythonStatus ch' = Some s) \<and>
         (rc_gotError ch \<longrightarrow> rc_gotError ch') \<and>
         (ch_closed (rc_streamDone ch) \<longrightarrow> ch_closed (rc_streamDone ch'))"
  using rc_steps_later [OF assms(2) rc.reach_inv [OF assms(1)]] by (auto simp: rc_later_def)

text \<open>C29: The load/compare-and-swap loop of \<open>transitionTo\<close> is linearizable: whatever
  transitions other goroutines complete between its load and its swap, round after round,
  its result and its effect are those of the atomic transition taken after some of them; and
  it goes round at most three times, since every lost race raises the phase.\<close>

theorem transition_loop_linearizable:
  assumes "rc_reachable ch"
  shows "(\<exists>k. transition_loop target es ch =
            go_bind (interfere (take k (concat es)) ch) (transitionTo target)) \<and>
         (\<exists>r. transition_loop target es ch = Ret r) \<and>
         transition_loop target es ch = transition_loop target (take 2 es) ch"
proof -
  have core: "rc_core ch" using assms by (intro rc_inv_core rc.reach_inv)
  obtain k where k: "transition_loop target es ch =
      go_bind (interfere (take k (concat es)) ch) (transitionTo target)"
    using transition_loop_cases [OF core] by blast
  obtain ch' where "interfere (take k (concat es)) ch = Ret ch'" "rc_core ch'"
    using interfere_Ret [OF core] by blast
  with k have "\<exists>r. transition_loop target es ch = Ret r"
    by (simp add: transitionTo_Ret)
  with k transition_loop_rounds [OF core] show ?thesis by blast
qed

subsection \<open>Witnesses\<close>

lemma new_reachable: "rc_reachable newRunChannel"
  by (simp add: reach_init)

lemma done_step:
  "rc_step newRunChannel (newRunChannel\<lparr>rc_phase := PhaseDone,
     rc_Messages := (make_chan messageBufferSize)\<lparr>ch_closed := True\<rparr>\<rparr>)"
  by (rule rc_done [where b = True])
    (simp add: newRunChannel_def transitionTo_def enter_phase_def legalPhaseTransition_def chan_close_def Let_def)

lemma channel_never_panics_witness:
  "trySend (OutputMsg ''hi'') newRunChannel \<noteq> Block \<and>
   (\<exists>ch'. transitionTo PhaseDone newRunChannel = Ret (True, ch') \<and> rc_phase ch' = PhaseDone)"
  using channel_never_panics [OF new_reachable, of PhaseDone "OutputMsg ''hi''"]
  by (auto simp: newRunChannel_def legalPhaseTransition_def)

lemma channel_moves_forward_witness:
  "rc_phase newRunChannel \<le> rc_phase (newRunChannel\<lparr>rc_phase := PhaseDone,
     rc_Messages := (make_chan messageBufferSize)\<lparr>ch_closed := True\<rparr>\<rparr>)"
  using channel_moves_forward [OF new_reachable r_into_rtranclp [of rc_step, OF done_step]] by blast

lemma transition_loop_linearizable_witness:
  "\<exists>b ch. transition_loop PhaseDone [[PhaseConnected], [PhaseDone], []] newRunChannel = Ret (b, ch)"
proof -
  obtain r where "transition_loop PhaseDone [[PhaseConnected], [PhaseDone], []] newRunChannel = Ret r"
    using transition_loop_linearizable [OF new_reachable] by blast
  then show ?thesis by (cases r) blast
qed

end
