(* ===== verification/Db.thy ===== *)
theory Db
  imports Prelude
begin

section \<open>Db: opening and migrating the SQLite database\<close>

text \<open>
  Models \<^verbatim>\<open>internal/db/db.go\<close>. SQLite and Go's \<^verbatim>\<open>database/sql\<close> pool are outside the
  repository: the parameter \<open>sqldriver\<close> is what the code calls of them, over an abstract
  database state \<open>'d\<close>. A row is its column values as bytes, \<open>None\<close> for NULL; the two scans
  are the conversions \<open>rows.Scan\<close> makes into the destinations the program passes (into \<open>n\<close>
  nullable strings; into a run record). \<open>rw_Err\<close> is what \<open>rows.Err\<close> answers after the loop.
\<close>

datatype sqlarg = SqlText string | SqlTime time | SqlInt int

record ExecResult =
  er_RowsAffected :: "goerror + int"
  er_LastInsertId :: "goerror + int"

type_synonym sqlrow = "string option list"

record Rows =
  rw_Columns :: "goerror + string list"
  rw_Rows :: "sqlrow list"
  rw_Err :: "goerror option"

record 'd sqldriver =
  sd_open :: "string \<Rightarrow> goerror + 'd"
  sd_exec :: "string \<Rightarrow> sqlarg list \<Rightarrow> 'd \<Rightarrow> (goerror + ExecResult) \<times> 'd"
  sd_query :: "string \<Rightarrow> sqlarg list \<Rightarrow> 'd \<Rightarrow> (goerror + Rows) \<times> 'd"
  sd_ping :: "'d \<Rightarrow> goerror option"
  sd_close :: "'d \<Rightarrow> 'd"
  sd_scanTexts :: "nat \<Rightarrow> sqlrow \<Rightarrow> goerror + string option list"
  sd_scanTimes :: "sqlrow \<Rightarrow> goerror + (string \<times> string \<times> string \<times> time \<times> time)"

text \<open>
  \<open>Open\<close> hands the database it opened back also when it fails after opening, to record that
  it was closed: \<open>(result, what became of the handle)\<close>.
\<close>

definition pragmas :: "string list" where
  "pragmas = [''PRAGMA journal_mode=WAL'', ''PRAGMA foreign_keys=ON'', ''PRAGMA busy_timeout=5000'']"

fun run_pragmas :: "'d sqldriver \<Rightarrow> (string \<Rightarrow> string) \<Rightarrow> string list \<Rightarrow> 'd \<Rightarrow> goerror option \<times> 'd" where
  "run_pragmas sd quote [] db = (None, db)"
| "run_pragmas sd quote (p # ps) db =
     (case sd_exec sd p [] db of
        (Inl e, db') \<Rightarrow> (Some (Errorf (''exec '' @ quote p @ '': '' @ error_text e) (Some e)), sd_close sd db')
      | (Inr _, db') \<Rightarrow> run_pragmas sd quote ps db')"

definition Open :: "'d sqldriver \<Rightarrow> (string \<Rightarrow> string) \<Rightarrow> string \<Rightarrow> (goerror + unit) \<times> 'd option" where
  "Open sd quote dsn =
     (case sd_open sd dsn of
        Inl e \<Rightarrow> (Inl (Errorf (''open sqlite: '' @ error_text e) (Some e)), None)
      | Inr db \<Rightarrow>
          (case run_pragmas sd quote pragmas db of
             (Some e, db') \<Rightarrow> (Inl e, Some db')
           | (None, db') \<Rightarrow>
               (case sd_ping sd db' of
                  Some e \<Rightarrow> (Inl (Errorf (''ping sqlite: '' @ error_text e) (Some e)), Some (sd_close sd db'))
                | None \<Rightarrow> (Inr (), Some db'))))"

fun run_migrations :: "'d sqldriver \<Rightarrow> string list \<Rightarrow> 'd \<Rightarrow> goerror option \<times> 'd" where
  "run_migrations sd [] db = (None, db)"
| "run_migrations sd (m # ms) db =
     (case sd_exec sd m [] db of
        (Inl e, db') \<Rightarrow> (Some (Errorf (''migrate: '' @ error_text e) (Some e)), db')
      | (Inr _, db') \<Rightarrow> run_migrations sd ms db')"

text \<open>\<open>indent\<close> writes the lines of a Go raw string: a newline and two tabs before each column.\<close>

definition column_lines :: "string list \<Rightarrow> string" where
  "column_lines cols = join_with '','' (map (\<lambda>c. newline @ [CHR 0x09, CHR 0x09, CHR 0x09] @ c) cols)
     @ newline @ [CHR 0x09, CHR 0x09] @ '')''"

definition migrations :: "string list" where
  "migrations =
     [''CREATE TABLE IF NOT EXISTS runs ('' @ column_lines
        [''id TEXT PRIMARY KEY'', ''script_id TEXT NOT NULL'',
         ''status TEXT NOT NULL DEFAULT '' @ [CHR 0x27] @ ''pending'' @ [CHR 0x27],
         ''params TEXT'', ''started_at DATETIME'', ''finished_at DATETIME'',
         ''exit_code INTEGER'', ''error_message TEXT''],
      ''CREATE TABLE IF NOT EXISTS kv ('' @ column_lines
        [''key TEXT PRIMARY KEY'', ''value TEXT NOT NULL'',
         ''updated_at DATETIME DEFAULT CURRENT_TIMESTAMP'']]"

definition Migrate :: "'d sqldriver \<Rightarrow> 'd \<Rightarrow> goerror option \<times> 'd" where
  "Migrate sd db = run_migrations sd migrations db"

text \<open>
  \<open>DefaultDSN\<close>, given what \<open>os.UserConfigDir\<close> and \<open>os.MkdirAll\<close> answer; \<open>sep\<close> is the
  platform's path separator, the directory the system names being clean already.
\<close>

definition path_join :: "string \<Rightarrow> string \<Rightarrow> string \<Rightarrow> string" where
  "path_join sep a b = a @ sep @ b"

definition DefaultDSN :: "string \<Rightarrow> (goerror + string) \<Rightarrow> (string \<Rightarrow> goerror option) \<Rightarrow> goerror + string" where
  "DefaultDSN sep configDir mkdir =
     (case configDir of
        Inl e \<Rightarrow> Inl (Errorf (''user config dir: '' @ error_text e) (Some e))
      | Inr d \<Rightarrow>
          let dir = path_join sep d ''go-python-runner'' in
          (case mkdir dir of
             Some e \<Rightarrow> Inl (Errorf (''mkdir '' @ dir @ '': '' @ error_text e) (Some e))
           | None \<Rightarrow> Inr (path_join sep dir ''data.db'')))"

subsection \<open>Properties\<close>

lemma run_pragmas_err:
  assumes "run_pragmas sd quote ps db = (Some e, db')"
  shows "\<exists>d w txt. db' = sd_close sd d \<and> e = Errorf txt (Some w)"
  using assms
proof (induction ps arbitrary: db)
  case (Cons p ps)
  obtain res d where x: "sd_exec sd p [] db = (res, d)" by (cases "sd_exec sd p [] db")
  show ?case
  proof (cases res)
    case (Inl w)
    with x Cons.prems have "db' = sd_close sd d \<and>
        e = Errorf (''exec '' @ quote p @ '': '' @ error_text w) (Some w)" by auto
    then show ?thesis by blast
  qed (use x Cons in simp)
qed simp

lemma run_pragmas_ok: "run_pragmas sd quote ps db = (None, db') \<Longrightarrow>
   db' = fold (\<lambda>p d. snd (sd_exec sd p [] d)) ps db"
  by (induction ps arbitrary: db) (auto split: sum.splits prod.splits)

text \<open>Opening never leaks a database handle: whatever fails after the file was opened (a
  pragma or the ping), the handle ends closed and the returned error wraps the driver's;
  the caller gets a handle only after the three pragmas have run on it, in their order, and
  the ping was answered.\<close>

theorem open_never_leaks:
  "case Open sd quote dsn of
     (Inl e, h) \<Rightarrow> (\<exists>txt w. e = Errorf txt (Some w) \<and> error_is e w) \<and>
        (case sd_open sd dsn of Inl w \<Rightarrow> h = None | Inr db0 \<Rightarrow> \<exists>db. h = Some (sd_close sd db))
   | (Inr _, h) \<Rightarrow> \<exists>db0 db. sd_open sd dsn = Inr db0 \<and> h = Some db \<and>
        db = fold (\<lambda>p d. snd (sd_exec sd p [] d)) pragmas db0 \<and> sd_ping sd db = None"
proof (cases "sd_open sd dsn")
  case (Inl e)
  then show ?thesis by (simp add: Open_def)
next
  case (Inr db0)
  obtain res db where r: "run_pragmas sd quote pragmas db0 = (res, db)"
    by (cases "run_pragmas sd quote pragmas db0")
  show ?thesis
  proof (cases res)
    case None
    with r have "run_pragmas sd quote pragmas db0 = (None, db)" by simp
    then have "db = fold (\<lambda>p d. snd (sd_exec sd p [] d)) pragmas db0" by (rule run_pragmas_ok)
    with None r Inr show ?thesis by (auto simp: Open_def split: option.split)
  next
    case (Some e)
    with r have "run_pragmas sd quote pragmas db0 = (Some e, db)" by simp
    then obtain d w tx where "db = sd_close sd d" "e = Errorf tx (Some w)"
      using run_pragmas_err by metis
    with Some r Inr show ?thesis by (auto simp: Open_def)
  qed
qed

end
