(* ===== verification/Grpc.thy ===== *)
theory Grpc
  imports Notify Cache RunChannel Db
begin

section \<open>Grpc: the server the Python scripts talk to\<close>

text \<open>
  Models \<open>GRPCServer\<close> of \<^verbatim>\<open>internal/runner/grpc_server.go\<close> and the dialog interface of
  \<^verbatim>\<open>dialog.go\<close>: registering runs, the bidirectional stream of \<open>Execute\<close>, one handler per
  client message, and the accessors the run manager uses. Run channels are shared by pointer
  in Go, so the server keeps them in a heap (\<open>sv_chans\<close>) that the run table points into;
  a handler keeps its pointer after the run is unregistered. The record is extensible: the
  manager of the next theory adds its own fields to it. The transport, the dialog library,
  SQLite and the clock are the parameter \<open>outside\<close>.
\<close>

subsection \<open>Messages on the wire\<close>

text \<open>\<^verbatim>\<open>dialog.go\<close> and the requests of \<^verbatim>\<open>runner.proto\<close>, as the handlers read them.\<close>

record FileFilterDef =
  ff_DisplayName :: string
  ff_Pattern :: string

text \<open>Proto enums are open: any \<open>int32\<close> may arrive.\<close>

abbreviation (input) DIALOG_KIND_SAVE :: int where "DIALOG_KIND_SAVE \<equiv> 2"

datatype ClientMessage =
    ClientMessage_Output string
  | ClientMessage_Progress int int string
  | ClientMessage_Status string
  | ClientMessage_Error string string int
  | ClientMessage_CacheCreate string int string
  | ClientMessage_CacheLookup string
  | ClientMessage_CacheRelease string
  | ClientMessage_FileDialog int string "FileFilterDef list" string string
  | ClientMessage_DbExecute string "string list"
  | ClientMessage_DbQuery string "string list"
  | ClientMessage_Unset

datatype CacheCreateError = CACHE_CREATE_OK | CACHE_CREATE_DUPLICATE_KEY | CACHE_CREATE_INTERNAL

datatype FileDialogOutcome =
    Outcome_Cancelled
  | Outcome_Error string
  | Outcome_Selected "string list"

datatype ServerMessage =
    ServerMessage_Start "(string \<times> string) list"
  | ServerMessage_Cancel
  | ServerMessage_CacheCreateResponse string CacheCreateError string
  | ServerMessage_FileDialogResponse FileDialogOutcome
  | ServerMessage_DbExecuteResponse int int string
  | ServerMessage_DbQueryResponse "string list" "string list list" string
  | ServerMessage_CacheLookupResponse string bool string int

datatype DialogCall =
    OpenFile string string "FileFilterDef list"
  | SaveFile string string string "FileFilterDef list"

subsection \<open>The outside and the state\<close>

text \<open>
  \<open>ox_send s n\<close> is what \<open>stream.Send\<close> answers on stream \<open>s\<close> at the \<open>n\<close>-th send of the server;
  \<open>ox_dialog n c\<close> what the dialog handler answers at the \<open>n\<close>-th dialog; \<open>ox_quote\<close> is \<open>%q\<close>.
\<close>

record 'd outside =
  ox_env :: env
  ox_sql :: "'d sqldriver"
  ox_quote :: "string \<Rightarrow> string"
  ox_send :: "nat \<Rightarrow> nat \<Rightarrow> goerror option"
  ox_dialog :: "nat \<Rightarrow> DialogCall \<Rightarrow> string \<times> goerror option"

text \<open>
  \<open>sv_wire\<close> is what the streams accepted, in order, \<open>sv_sends\<close> counts the attempts, \<open>sv_asks\<close>
  lists the dialogs opened; \<open>sv_dialog\<close> says whether \<open>SetDialogHandler\<close> stored a handler.
\<close>

record 'd server =
  sv_runs :: "run_id \<rightharpoonup> nat"
  sv_chans :: "RunChannel list"
  sv_cache :: CacheManager
  sv_db :: "'d option"
  sv_rsv :: reservoir
  sv_dialog :: bool
  sv_wire :: "(nat \<times> ServerMessage) list"
  sv_sends :: nat
  sv_asks :: "DialogCall list"

definition NewGRPCServer :: "CacheManager \<Rightarrow> 'd option \<Rightarrow> reservoir \<Rightarrow> 'd server" where
  "NewGRPCServer cache store reservoir =
     \<lparr>sv_runs = Map.empty, sv_chans = [], sv_cache = cache, sv_db = store, sv_rsv = reservoir,
      sv_dialog = False, sv_wire = [], sv_sends = 0, sv_asks = []\<rparr>"

definition SetDialogHandler :: "('d, 'z) server_scheme \<Rightarrow> ('d, 'z) server_scheme" where
  "SetDialogHandler sv = sv\<lparr>sv_dialog := True\<rparr>"

definition report :: "'d outside \<Rightarrow> Event \<Rightarrow> ('d, 'z) server_scheme \<Rightarrow> ('d, 'z) server_scheme" where
  "report out ev sv = sv\<lparr>sv_rsv := Report (ox_env out) ev (sv_rsv sv)\<rparr>"

text \<open>\<open>backend_event sev pers title msg err runID\<close>: the literals of this file.\<close>

definition backend_event :: "Severity \<Rightarrow> Persistence \<Rightarrow> string \<Rightarrow> string \<Rightarrow> goerror option \<Rightarrow> run_id \<Rightarrow> Event" where
  "backend_event sev pers title msg err runID =
     Event0\<lparr>ev_Severity := sev, ev_Persistence := pers, ev_Source := SourceBackend,
       ev_Title := title, ev_Message := msg, ev_Err := err, ev_RunID := runID\<rparr>"

text \<open>The goroutine around \<open>Serve\<close>: a serve error is reported and buffered for \<open>ServeErr\<close>.\<close>

definition serve_goroutine ::
    "'d outside \<Rightarrow> goerror option \<Rightarrow> ('d, 'z) server_scheme \<Rightarrow> goerror list \<times> ('d, 'z) server_scheme" where
  "serve_goroutine out res sv =
     (case res of
        None \<Rightarrow> ([], sv)
      | Some err \<Rightarrow> ([err],
          report out (backend_event SeverityError PersistenceOneShot ''gRPC server error''
            (error_text err) (Some err) []) sv))"

subsection \<open>Channels by pointer\<close>

definition chan_at :: "nat \<Rightarrow> ('d, 'z) server_scheme \<Rightarrow> RunChannel" where
  "chan_at a sv = sv_chans sv ! a"

definition set_chan :: "nat \<Rightarrow> RunChannel \<Rightarrow> ('d, 'z) server_scheme \<Rightarrow> ('d, 'z) server_scheme" where
  "set_chan a ch sv = sv\<lparr>sv_chans := (sv_chans sv)[a := ch]\<rparr>"

definition chan_op ::
    "nat \<Rightarrow> (RunChannel \<Rightarrow> ('r \<times> RunChannel) go) \<Rightarrow> ('d, 'z) server_scheme \<Rightarrow> ('r \<times> ('d, 'z) server_scheme) go" where
  "chan_op a f sv = go_bind (f (chan_at a sv)) (\<lambda>(r, ch). Ret (r, set_chan a ch sv))"

definition RegisterRun :: "run_id \<Rightarrow> ('d, 'z) server_scheme \<Rightarrow> nat \<times> ('d, 'z) server_scheme" where
  "RegisterRun runID sv =
     (length (sv_chans sv),
      sv\<lparr>sv_chans := sv_chans sv @ [newRunChannel],
         sv_runs := (sv_runs sv)(runID \<mapsto> length (sv_chans sv))\<rparr>)"

definition UnregisterRun :: "run_id \<Rightarrow> ('d, 'z) server_scheme \<Rightarrow> ('d, 'z) server_scheme go" where
  "UnregisterRun runID sv =
     (case sv_runs sv runID of
        None \<Rightarrow> Ret sv
      | Some a \<Rightarrow> go_bind (chan_op a (transitionTo PhaseDone) sv)
          (\<lambda>(_, sv'). Ret (sv'\<lparr>sv_runs := (sv_runs sv')(runID := None)\<rparr>)))"

text \<open>
  \<open>WaitConnected\<close> and \<open>WaitStreamDone\<close> as what the waiter sees in a state: whether the
  channel it selects on is closed. \<open>WaitStreamDone\<close> goes on at once, or when the stream is
  done, or after its timeout (\<open>elapsed\<close>).
\<close>

definition WaitConnected :: "run_id \<Rightarrow> ('d, 'z) server_scheme \<Rightarrow> bool" where
  "WaitConnected runID sv =
     (case sv_runs sv runID of None \<Rightarrow> True | Some a \<Rightarrow> ch_closed (rc_connected (chan_at a sv)))"

definition WaitStreamDone :: "run_id \<Rightarrow> bool \<Rightarrow> ('d, 'z) server_scheme \<Rightarrow> unit go" where
  "WaitStreamDone runID elapsed sv =
     (case sv_runs sv runID of
        None \<Rightarrow> Ret ()
      | Some a \<Rightarrow>
          let ch = chan_at a sv in
          if \<not> ch_closed (rc_connected ch) then Ret ()
          else if ch_closed (rc_streamDone ch) \<or> elapsed then Ret ()
          else Block)"

definition stream_Send ::
    "'d outside \<Rightarrow> nat \<Rightarrow> ServerMessage \<Rightarrow> ('d, 'z) server_scheme \<Rightarrow> goerror option \<times> ('d, 'z) server_scheme" where
  "stream_Send out s msg sv =
     (case ox_send out s (sv_sends sv) of
        Some e \<Rightarrow> (Some e, sv\<lparr>sv_sends := Suc (sv_sends sv)\<rparr>)
      | None \<Rightarrow> (None, sv\<lparr>sv_sends := Suc (sv_sends sv), sv_wire := sv_wire sv @ [(s, msg)]\<rparr>))"

definition send_imperative ::
    "'d outside \<Rightarrow> run_id \<Rightarrow> ServerMessage \<Rightarrow> ('d, 'z) server_scheme \<Rightarrow> goerror option \<times> ('d, 'z) server_scheme" where
  "send_imperative out runID msg sv =
     (case sv_runs sv runID of
        None \<Rightarrow> (Some (Errorf (''run '' @ runID @ '' not registered'') None), sv)
      | Some a \<Rightarrow>
          (case rc_stream (chan_at a sv) of
             None \<Rightarrow> (Some (Errorf (''run '' @ runID @ '' not connected yet'') None), sv)
           | Some s \<Rightarrow> stream_Send out s msg sv))"

definition SendStart ::
    "'d outside \<Rightarrow> run_id \<Rightarrow> (string \<times> string) list \<Rightarrow> ('d, 'z) server_scheme \<Rightarrow> goerror option \<times> ('d, 'z) server_scheme" where
  "SendStart out runID params sv = send_imperative out runID (ServerMessage_Start params) sv"

definition SendCancel ::
    "'d outside \<Rightarrow> run_id \<Rightarrow> ('d, 'z) server_scheme \<Rightarrow> goerror option \<times> ('d, 'z) server_scheme" where
  "SendCancel out runID sv = send_imperative out runID ServerMessage_Cancel sv"

text \<open>\<open>streamSend\<close> does not check for nil: a nil stream is a nil dereference.\<close>

definition streamSend ::
    "'d outside \<Rightarrow> nat \<Rightarrow> ServerMessage \<Rightarrow> ('d, 'z) server_scheme \<Rightarrow> (goerror option \<times> ('d, 'z) server_scheme) go" where
  "streamSend out a msg sv =
     (case rc_stream (chan_at a sv) of
        None \<Rightarrow> Panic ''nil pointer dereference''
      | Some s \<Rightarrow> Ret (stream_Send out s msg sv))"

subsection \<open>Cache handlers\<close>

definition handleCacheCreate ::
    "'d outside \<Rightarrow> run_id \<Rightarrow> nat \<Rightarrow> string \<Rightarrow> int \<Rightarrow> string \<Rightarrow> ('d, 'z) server_scheme \<Rightarrow> (goerror option \<times> ('d, 'z) server_scheme) go" where
  "handleCacheCreate out runID a key sz shmName sv =
     (case Register key shmName sz runID (sv_cache sv) of
        (True, cm) \<Rightarrow>
          streamSend out a (ServerMessage_CacheCreateResponse key CACHE_CREATE_OK [])
            (report out (backend_event SeverityInfo PersistenceOneShot []
               (''cache block registered: key='' @ key @ '' shm='' @ shmName @ '' size='' @ dec_int sz)
               None runID) (sv\<lparr>sv_cache := cm\<rparr>))
      | (False, cm) \<Rightarrow>
          let rejection = ''cache key '' @ ox_quote out key @ '' already registered'';
              err = Errorf rejection None in
          streamSend out a (ServerMessage_CacheCreateResponse key CACHE_CREATE_DUPLICATE_KEY rejection)
            (report out (backend_event SeverityError PersistenceInFlight ''cache_set rejected''
               rejection (Some err) runID) (sv\<lparr>sv_cache := cm\<rparr>)))"

definition handleCacheLookup ::
    "'d outside \<Rightarrow> run_id \<Rightarrow> nat \<Rightarrow> string \<Rightarrow> ('d, 'z) server_scheme \<Rightarrow> (goerror option \<times> ('d, 'z) server_scheme) go" where
  "handleCacheLookup out runID a key sv =
     (case LookupAndRef key runID (sv_cache sv) of
        ((shmName, sz, found), cm) \<Rightarrow>
          streamSend out a (ServerMessage_CacheLookupResponse key found shmName sz) (sv\<lparr>sv_cache := cm\<rparr>))"

definition handleCacheRelease ::
    "'d outside \<Rightarrow> run_id \<Rightarrow> string \<Rightarrow> ('d, 'z) server_scheme \<Rightarrow> ('d, 'z) server_scheme" where
  "handleCacheRelease out runID key sv =
     (case Release key runID (sv_cache sv) of
        (released, cm) \<Rightarrow>
          if released
          then report out (backend_event SeverityInfo PersistenceOneShot []
                 (''cache block released: key='' @ key) None runID) (sv\<lparr>sv_cache := cm\<rparr>)
          else report out (backend_event SeverityWarn PersistenceOneShot []
                 (''cache release ignored: run was not referencing key='' @ key) None runID)
                 (sv\<lparr>sv_cache := cm\<rparr>))"

subsection \<open>File dialogs\<close>

definition cancelledDialog :: FileDialogOutcome where
  "cancelledDialog = Outcome_Cancelled"

definition ask_dialog ::
    "'d outside \<Rightarrow> DialogCall \<Rightarrow> ('d, 'z) server_scheme \<Rightarrow> (string \<times> goerror option) \<times> ('d, 'z) server_scheme" where
  "ask_dialog out c sv =
     (ox_dialog out (length (sv_asks sv)) c, sv\<lparr>sv_asks := sv_asks sv @ [c]\<rparr>)"

definition handleFileDialog ::
    "'d outside \<Rightarrow> run_id \<Rightarrow> nat \<Rightarrow> int \<Rightarrow> string \<Rightarrow> FileFilterDef list \<Rightarrow> string \<Rightarrow> string \<Rightarrow>
       ('d, 'z) server_scheme \<Rightarrow> (goerror option \<times> ('d, 'z) server_scheme) go" where
  "handleFileDialog out runID a kind title filters directory filename sv =
     (if \<not> sv_dialog sv
      then streamSend out a (ServerMessage_FileDialogResponse cancelledDialog) sv
      else
        let call = (if kind = DIALOG_KIND_SAVE then SaveFile title directory filename filters
                    else OpenFile title directory filters) in
        (case ask_dialog out call sv of
           ((path, err), sv1) \<Rightarrow>
             let (outcome, sv2) =
               (case err of
                  Some e \<Rightarrow>
                    if error_is e ErrDialogCancelled then (Outcome_Cancelled, sv1)
                    else (Outcome_Error (error_text e),
                          report out (backend_event SeverityError PersistenceOneShot ''File dialog failed''
                            (error_text e) (Some e) runID) sv1)
                | None \<Rightarrow>
                    if path = [] then (Outcome_Cancelled, sv1) else (Outcome_Selected [path], sv1))
             in streamSend out a (ServerMessage_FileDialogResponse outcome) sv2))"

subsection \<open>Database handlers\<close>

definition handleDbExecute ::
    "'d outside \<Rightarrow> run_id \<Rightarrow> nat \<Rightarrow> string \<Rightarrow> string list \<Rightarrow> ('d, 'z) server_scheme \<Rightarrow> (goerror option \<times> ('d, 'z) server_scheme) go" where
  "handleDbExecute out runID a sql params sv =
     (case sv_db sv of
        None \<Rightarrow> Panic ''nil pointer dereference''
      | Some db \<Rightarrow>
          (case sd_exec (ox_sql out) sql (map SqlText params) db of
             (Inl e, db') \<Rightarrow>
               streamSend out a (ServerMessage_DbExecuteResponse 0 0 (error_text e))
                 (report out (backend_event SeverityError PersistenceOneShot ''SQL execute failed''
                    (''db.Exec: '' @ error_text e) (Some e) runID) (sv\<lparr>sv_db := Some db'\<rparr>))
           | (Inr result, db') \<Rightarrow>
               streamSend out a (ServerMessage_DbExecuteResponse
                   (case er_RowsAffected result of Inr ra \<Rightarrow> ra | Inl _ \<Rightarrow> 0)
                   (case er_LastInsertId result of Inr li \<Rightarrow> li | Inl _ \<Rightarrow> 0) [])
                 (sv\<lparr>sv_db := Some db'\<rparr>)))"

text \<open>The row loop: the rows so far and \<open>resp.Error\<close>; a failed scan drops every row.\<close>

definition null_string :: "string option \<Rightarrow> string" where
  "null_string v = (case v of Some s \<Rightarrow> s | None \<Rightarrow> [])"

fun scan_rows :: "'d sqldriver \<Rightarrow> nat \<Rightarrow> sqlrow list \<Rightarrow> string list list \<Rightarrow> string list list \<times> string" where
  "scan_rows sd n [] acc = (acc, [])"
| "scan_rows sd n (row # rows) acc =
     (case sd_scanTexts sd n row of
        Inl e \<Rightarrow> ([], error_text e)
      | Inr values \<Rightarrow> scan_rows sd n rows (acc @ [map null_string values]))"

definition read_rows :: "'d sqldriver \<Rightarrow> Rows \<Rightarrow> string list \<Rightarrow> string \<Rightarrow> string list list \<times> string" where
  "read_rows sd rows cols err0 =
     (case (if err0 = [] then scan_rows sd (length cols) (rw_Rows rows) [] else ([], err0)) of
        (rs, err) \<Rightarrow>
          (rs, case rw_Err rows of Some e \<Rightarrow> if err = [] then error_text e else err | None \<Rightarrow> err))"

definition handleDbQuery ::
    "'d outside \<Rightarrow> run_id \<Rightarrow> nat \<Rightarrow> string \<Rightarrow> string list \<Rightarrow> ('d, 'z) server_scheme \<Rightarrow> (goerror option \<times> ('d, 'z) server_scheme) go" where
  "handleDbQuery out runID a sql params sv =
     (case sv_db sv of
        None \<Rightarrow> Panic ''nil pointer dereference''
      | Some db \<Rightarrow>
          (case sd_query (ox_sql out) sql (map SqlText params) db of
             (Inl e, db') \<Rightarrow>
               streamSend out a (ServerMessage_DbQueryResponse [] [] (error_text e))
                 (report out (backend_event SeverityError PersistenceOneShot ''SQL query failed''
                    (''db.Query: '' @ error_text e) (Some e) runID) (sv\<lparr>sv_db := Some db'\<rparr>))
           | (Inr rows, db') \<Rightarrow>
               (case rw_Columns rows of
                  Inl e \<Rightarrow>
                    (case read_rows (ox_sql out) rows [] (error_text e) of
                       (rs, err) \<Rightarrow>
                         streamSend out a (ServerMessage_DbQueryResponse [] rs err)
                           (report out (backend_event SeverityError PersistenceOneShot ''SQL query failed''
                              (''rows.Columns: '' @ error_text e) (Some e) runID) (sv\<lparr>sv_db := Some db'\<rparr>)))
                | Inr cols \<Rightarrow>
                    (case read_rows (ox_sql out) rows cols [] of
                       (rs, err) \<Rightarrow>
                         streamSend out a (ServerMessage_DbQueryResponse cols rs err)
                           (sv\<lparr>sv_db := Some db'\<rparr>)))))"

subsection \<open>One client message\<close>

definition no_error :: "('d, 'z) server_scheme \<Rightarrow> goerror option \<times> ('d, 'z) server_scheme" where
  "no_error sv = (None, sv)"

definition try_send_at :: "nat \<Rightarrow> Message \<Rightarrow> ('d, 'z) server_scheme \<Rightarrow> ('d, 'z) server_scheme go" where
  "try_send_at a msg sv = go_bind (chan_op a (trySend msg) sv) (\<lambda>(_, sv'). Ret sv')"

fun handleClientMessage ::
    "'d outside \<Rightarrow> run_id \<Rightarrow> nat \<Rightarrow> ClientMessage \<Rightarrow> ('d, 'z) server_scheme \<Rightarrow> (goerror option \<times> ('d, 'z) server_scheme) go" where
  "handleClientMessage out runID a (ClientMessage_Output t) sv =
     go_bind (try_send_at a (OutputMsg t) sv) (\<lambda>sv'. Ret (no_error sv'))"
| "handleClientMessage out runID a (ClientMessage_Progress cur tot label) sv =
     go_bind (try_send_at a (ProgressMsg cur tot label) sv) (\<lambda>sv'. Ret (no_error sv'))"
| "handleClientMessage out runID a (ClientMessage_Status state) sv =
     (if state = StatusCompleted \<or> state = StatusFailed
      then Ret (no_error (set_chan a (reportStatus state (chan_at a sv)) sv))
      else Ret (no_error sv))"
| "handleClientMessage out runID a (ClientMessage_Error msg tb sev) sv =
     go_bind (try_send_at a (ErrorMsg msg tb sev) (set_chan a (reportError msg (chan_at a sv)) sv))
       (\<lambda>sv'. Ret (no_error sv'))"
| "handleClientMessage out runID a (ClientMessage_CacheCreate key sz shmName) sv =
     handleCacheCreate out runID a key sz shmName sv"
| "handleClientMessage out runID a (ClientMessage_CacheLookup key) sv =
     handleCacheLookup out runID a key sv"
| "handleClientMessage out runID a (ClientMessage_CacheRelease key) sv =
     Ret (no_error (handleCacheRelease out runID key sv))"
| "handleClientMessage out runID a (ClientMessage_FileDialog kind title filters directory filename) sv =
     handleFileDialog out runID a kind title filters directory filename sv"
| "handleClientMessage out runID a (ClientMessage_DbExecute sql params) sv =
     handleDbExecute out runID a sql params sv"
| "handleClientMessage out runID a (ClientMessage_DbQuery sql params) sv =
     handleDbQuery out runID a sql params sv"
| "handleClientMessage out runID a ClientMessage_Unset sv = Ret (no_error sv)"

subsection \<open>Execute\<close>

text \<open>
  \<open>md\<close> is the incoming metadata: absent, or the values under \<open>run-id\<close>. The prologue finds
  the run's channel and connects it; \<open>serve\<close> is the receive loop over what the stream
  delivers until \<open>Recv\<close> fails with \<open>ended\<close>; \<open>streamDone\<close> is closed on the way out of either.
\<close>

definition execute_connect ::
    "nat \<Rightarrow> string list option \<Rightarrow> ('d, 'z) server_scheme \<Rightarrow> ((goerror + run_id \<times> nat) \<times> ('d, 'z) server_scheme) go" where
  "execute_connect s md sv =
     (case md of
        None \<Rightarrow> Ret (Inl (Errorf ''missing metadata'' None), sv)
      | Some [] \<Rightarrow> Ret (Inl (Errorf ''missing run-id in metadata'' None), sv)
      | Some (runID # _) \<Rightarrow>
          (case sv_runs sv runID of
             None \<Rightarrow> Ret (Inl (Errorf (''unknown run ID: '' @ runID) None), sv)
           | Some a \<Rightarrow>
               go_bind (chan_op a (\<lambda>ch. transitionTo PhaseConnected (ch\<lparr>rc_stream := Some s\<rparr>)) sv)
                 (\<lambda>(_, sv'). Ret (Inr (runID, a), sv'))))"

definition client_connected :: "'d outside \<Rightarrow> run_id \<Rightarrow> ('d, 'z) server_scheme \<Rightarrow> ('d, 'z) server_scheme" where
  "client_connected out runID =
     report out (backend_event SeverityInfo PersistenceOneShot [] ''Python client connected'' None runID)"

fun serve ::
    "'d outside \<Rightarrow> run_id \<Rightarrow> nat \<Rightarrow> ClientMessage list \<Rightarrow> goerror \<Rightarrow> ('d, 'z) server_scheme \<Rightarrow>
       (goerror option \<times> ('d, 'z) server_scheme) go" where
  "serve out runID a [] ended sv =
     Ret (None, report out (backend_event SeverityInfo PersistenceOneShot []
       (''stream ended: '' @ error_text ended) None runID) sv)"
| "serve out runID a (m # ms) ended sv =
     go_bind (handleClientMessage out runID a m sv) (\<lambda>(res, sv').
       case res of
         Some sendErr \<Rightarrow> Ret (Some sendErr, report out (backend_event SeverityError PersistenceOneShot
           ''Stream send failed'' (error_text sendErr) (Some sendErr) runID) sv')
       | None \<Rightarrow> serve out runID a ms ended sv')"

definition stream_done :: "nat \<Rightarrow> ('d, 'z) server_scheme \<Rightarrow> ('d, 'z) server_scheme go" where
  "stream_done a sv = go_bind (closeStreamDone (chan_at a sv)) (\<lambda>ch. Ret (set_chan a ch sv))"

definition Execute ::
    "'d outside \<Rightarrow> nat \<Rightarrow> string list option \<Rightarrow> ClientMessage list \<Rightarrow> goerror \<Rightarrow> ('d, 'z) server_scheme \<Rightarrow>
       (goerror option \<times> ('d, 'z) server_scheme) go" where
  "Execute out s md msgs ended sv =
     go_bind (execute_connect s md sv) (\<lambda>(res, sv1).
       case res of
         Inl e \<Rightarrow> Ret (Some e, sv1)
       | Inr (runID, a) \<Rightarrow>
           go_bind (serve out runID a msgs ended (client_connected out runID sv1)) (\<lambda>(ret, sv2).
             go_bind (stream_done a sv2) (\<lambda>sv3. Ret (ret, sv3))))"

subsection \<open>What the manager calls\<close>

definition TrySendError :: "run_id \<Rightarrow> string \<Rightarrow> ('d, 'z) server_scheme \<Rightarrow> ('d, 'z) server_scheme go" where
  "TrySendError runID message sv =
     (case sv_runs sv runID of None \<Rightarrow> Ret sv | Some a \<Rightarrow> try_send_at a (ErrorMsg message [] 0) sv)"

definition TrySendStatus :: "run_id \<Rightarrow> RunStatus \<Rightarrow> ('d, 'z) server_scheme \<Rightarrow> ('d, 'z) server_scheme go" where
  "TrySendStatus runID status sv =
     (case sv_runs sv runID of None \<Rightarrow> Ret sv | Some a \<Rightarrow> try_send_at a (StatusMsg status) sv)"

definition GotError :: "run_id \<Rightarrow> ('d, 'z) server_scheme \<Rightarrow> bool" where
  "GotError runID sv =
     (case sv_runs sv runID of None \<Rightarrow> False | Some a \<Rightarrow> rc_gotError (chan_at a sv))"

definition PythonReportedStatus :: "run_id \<Rightarrow> ('d, 'z) server_scheme \<Rightarrow> RunStatus" where
  "PythonReportedStatus runID sv =
     (case sv_runs sv runID of
        None \<Rightarrow> []
      | Some a \<Rightarrow> (case rc_pythonStatus (chan_at a sv) of Some s \<Rightarrow> s | None \<Rightarrow> []))"

definition GotFailedStatus :: "run_id \<Rightarrow> ('d, 'z) server_scheme \<Rightarrow> bool" where
  "GotFailedStatus runID sv = (PythonReportedStatus runID sv = StatusFailed)"

definition GotCompletedStatus :: "run_id \<Rightarrow> ('d, 'z) server_scheme \<Rightarrow> bool" where
  "GotCompletedStatus runID sv = (PythonReportedStatus runID sv = StatusCompleted)"

definition ErrorMessage :: "run_id \<Rightarrow> ('d, 'z) server_scheme \<Rightarrow> string" where
  "ErrorMessage runID sv =
     (case sv_runs sv runID of
        None \<Rightarrow> []
      | Some a \<Rightarrow> (case rc_errorMessage (chan_at a sv) of Some m \<Rightarrow> m | None \<Rightarrow> []))"

subsection \<open>The server's invariant\<close>

definition server_inv :: "('d, 'z) server_scheme \<Rightarrow> bool" where
  "server_inv sv \<longleftrightarrow>
     (\<forall>r a. sv_runs sv r = Some a \<longrightarrow> a < length (sv_chans sv) \<and> rc_phase (chan_at a sv) \<noteq> PhaseDone) \<and>
     inj_on (sv_runs sv) (dom (sv_runs sv)) \<and>
     (\<forall>a < length (sv_chans sv). rc_inv (chan_at a sv)) \<and>
     cache_ok (sv_cache sv)"

text \<open>Two server states that differ at most in cache, database, reservoir and dialogs asked.\<close>

definition same_core :: "('d, 'z) server_scheme \<Rightarrow> ('d, 'z) server_scheme \<Rightarrow> bool" where
  "same_core sv sv' \<longleftrightarrow>
     sv_runs sv' = sv_runs sv \<and> sv_chans sv' = sv_chans sv \<and> sv_wire sv' = sv_wire sv \<and>
     sv_sends sv' = sv_sends sv \<and> sv_dialog sv' = sv_dialog sv \<and> (sv_db sv' = None \<longleftrightarrow> sv_db sv = None)"

lemma same_core_refl [simp]: "same_core sv sv"
  by (simp add: same_core_def)

lemma same_core_report [simp]: "same_core sv (report out ev sv') = same_core sv sv'"
  by (simp add: same_core_def report_def)

lemma same_core_update [simp]:
  "same_core sv (sv\<lparr>sv_cache := cm\<rparr>)" "sv_db sv \<noteq> None \<Longrightarrow> same_core sv (sv\<lparr>sv_db := Some db\<rparr>)"
  "same_core sv (sv\<lparr>sv_asks := qs\<rparr>)"
  by (simp_all add: same_core_def)

lemma report_frame [simp]:
  "sv_runs (report out ev sv) = sv_runs sv" "sv_chans (report out ev sv) = sv_chans sv"
  "sv_cache (report out ev sv) = sv_cache sv" "sv_db (report out ev sv) = sv_db sv"
  "sv_wire (report out ev sv) = sv_wire sv" "sv_sends (report out ev sv) = sv_sends sv"
  "sv_dialog (report out ev sv) = sv_dialog sv" "sv_asks (report out ev sv) = sv_asks sv"
  "sv_rsv (report out ev sv) = Report (ox_env out) ev (sv_rsv sv)"
  "chan_at a (report out ev sv) = chan_at a sv"
  by (simp_all add: report_def chan_at_def)

lemma set_chan_frame [simp]:
  "sv_runs (set_chan a ch sv) = sv_runs sv" "sv_cache (set_chan a ch sv) = sv_cache sv"
  "sv_db (set_chan a ch sv) = sv_db sv" "sv_rsv (set_chan a ch sv) = sv_rsv sv"
  "sv_wire (set_chan a ch sv) = sv_wire sv" "sv_sends (set_chan a ch sv) = sv_sends sv"
  "sv_dialog (set_chan a ch sv) = sv_dialog sv" "sv_asks (set_chan a ch sv) = sv_asks sv"
  "length (sv_chans (set_chan a ch sv)) = length (sv_chans sv)"
  by (simp_all add: set_chan_def)

lemma chan_at_set_chan:
  "a < length (sv_chans sv) \<Longrightarrow> chan_at b (set_chan a ch sv) = (if b = a then ch else chan_at b sv)"
  by (simp add: chan_at_def set_chan_def)

lemma set_chan_inv [inv_intros]:
  assumes "server_inv sv" "a < length (sv_chans sv)" "rc_inv ch"
    and "rc_phase ch = PhaseDone \<Longrightarrow> a \<notin> ran (sv_runs sv)"
  shows "server_inv (set_chan a ch sv)"
  using assms unfolding server_inv_def by (auto simp: chan_at_set_chan ranI)

lemma server_invD:
  "server_inv sv \<Longrightarrow> a < length (sv_chans sv) \<Longrightarrow> rc_inv (chan_at a sv)"
  "server_inv sv \<Longrightarrow> sv_runs sv r = Some a \<Longrightarrow> a < length (sv_chans sv)"
  "server_inv sv \<Longrightarrow> sv_runs sv r = Some a \<Longrightarrow> rc_phase (chan_at a sv) \<noteq> PhaseDone"
  by (auto simp: server_inv_def)

lemma server_inv_cong:
  "server_inv sv \<Longrightarrow> sv_runs sv' = sv_runs sv \<Longrightarrow> sv_chans sv' = sv_chans sv \<Longrightarrow> cache_ok (sv_cache sv') \<Longrightarrow>
     server_inv sv'"
  by (simp add: server_inv_def chan_at_def)

lemma server_inv_cache: "server_inv sv \<Longrightarrow> cache_ok (sv_cache sv)"
  by (simp add: server_inv_def)

subsection \<open>What a request is answered\<close>

fun is_request :: "ClientMessage \<Rightarrow> bool" where
  "is_request (ClientMessage_CacheCreate key sz n) = True"
| "is_request (ClientMessage_CacheLookup key) = True"
| "is_request (ClientMessage_FileDialog k t fs d f) = True"
| "is_request (ClientMessage_DbExecute sql ps) = True"
| "is_request (ClientMessage_DbQuery sql ps) = True"
| "is_request m = False"

text \<open>The reply the protocol owes a request.\<close>

fun answers :: "ClientMessage \<Rightarrow> ServerMessage \<Rightarrow> bool" where
  "answers (ClientMessage_CacheCreate key sz n) (ServerMessage_CacheCreateResponse key' code detail) =
     (key' = key \<and> code \<noteq> CACHE_CREATE_INTERNAL \<and> (code = CACHE_CREATE_OK \<longleftrightarrow> detail = []))"
| "answers (ClientMessage_CacheLookup key) (ServerMessage_CacheLookupResponse key' found n sz) =
     (key' = key \<and> (\<not> found \<longrightarrow> n = [] \<and> sz = 0))"
| "answers (ClientMessage_FileDialog k t fs d f) (ServerMessage_FileDialogResponse res) =
     (\<forall>ps. res = Outcome_Selected ps \<longrightarrow> (\<exists>p. ps = [p] \<and> p \<noteq> []))"
| "answers (ClientMessage_DbExecute sql ps) (ServerMessage_DbExecuteResponse ra li e) =
     (e \<noteq> [] \<longrightarrow> ra = 0 \<and> li = 0)"
| "answers (ClientMessage_DbQuery sql ps) (ServerMessage_DbQueryResponse cols rs e) = True"
| "answers m r = False"

fun cache_ops_of :: "run_id \<Rightarrow> ClientMessage \<Rightarrow> cache_op list" where
  "cache_ops_of r (ClientMessage_CacheCreate key sz n) = [OpRegister key n sz r]"
| "cache_ops_of r (ClientMessage_CacheLookup key) = [OpLookup key r]"
| "cache_ops_of r (ClientMessage_CacheRelease key) = [OpRelease key r]"
| "cache_ops_of r m = []"

text \<open>The yes or no a cache reply carries.\<close>

fun reply_ack :: "ServerMessage \<Rightarrow> bool list" where
  "reply_ack (ServerMessage_CacheCreateResponse key code detail) = [code = CACHE_CREATE_OK]"
| "reply_ack (ServerMessage_CacheLookupResponse key found n sz) = [found]"
| "reply_ack r = []"

lemma streamSend_Some:
  "rc_stream (chan_at a sv) = Some s \<Longrightarrow> same_core sv sv2 \<Longrightarrow>
     streamSend out a reply sv2 = Ret (stream_Send out s reply sv2)"
  by (simp add: streamSend_def same_core_def chan_at_def)

text \<open>
  \<open>request_served out r s m sv x\<close>: the outcome \<open>x\<close> of handling \<open>m\<close> is one send on stream \<open>s\<close> of
  a reply that answers \<open>m\<close>, after steps that touch neither channels nor wire, and whose
  cache effect and acknowledgement are those of \<open>m\<close>'s cache operation.
\<close>

definition request_served ::
    "'d outside \<Rightarrow> run_id \<Rightarrow> nat \<Rightarrow> ClientMessage \<Rightarrow> ('d, 'z) server_scheme \<Rightarrow> (goerror option \<times> ('d, 'z) server_scheme) go \<Rightarrow> bool" where
  "request_served out r s m sv x \<longleftrightarrow>
     (\<exists>reply sv2. x = Ret (stream_Send out s reply sv2) \<and> same_core sv sv2 \<and> answers m reply \<and>
        (\<forall>ord. ops_run (cache_do ord) (cache_ops_of r m) (sv_cache sv) = (reply_ack reply, sv_cache sv2)))"

lemma request_servedI:
  assumes "x = streamSend out a reply sv2" "rc_stream (chan_at a sv) = Some s" "same_core sv sv2" "answers m reply"
    and "\<And>ord. ops_run (cache_do ord) (cache_ops_of r m) (sv_cache sv) = (reply_ack reply, sv_cache sv2)"
  shows "request_served out r s m sv x"
  using assms unfolding request_served_def by (metis streamSend_Some)

lemma handleCacheCreate_served:
  assumes s: "rc_stream (chan_at a sv) = Some s"
  shows "request_served out r s (ClientMessage_CacheCreate key sz n) sv (handleCacheCreate out r a key sz n sv)"
proof -
  obtain ok cm where reg: "Register key n sz r (sv_cache sv) = (ok, cm)" by force
  show ?thesis
    by (cases ok; rule request_servedI [OF _ s]) (auto simp: handleCacheCreate_def reg Let_def)
qed

lemma handleCacheLookup_served:
  assumes s: "rc_stream (chan_at a sv) = Some s"
  shows "request_served out r s (ClientMessage_CacheLookup key) sv (handleCacheLookup out r a key sv)"
proof -
  obtain n sz found cm where look: "LookupAndRef key r (sv_cache sv) = ((n, sz, found), cm)"
    by (metis prod_cases3 surj_pair)
  then have "\<not> found \<longrightarrow> n = [] \<and> sz = 0"
    by (auto simp: LookupAndRef_def split: option.splits if_splits)
  then show ?thesis
    by (intro request_servedI [OF _ s]) (auto simp: handleCacheLookup_def look)
qed

lemma handleFileDialog_served:
  assumes s: "rc_stream (chan_at a sv) = Some s"
  shows "request_served out r s (ClientMessage_FileDialog k t fs d f) sv (handleFileDialog out r a k t fs d f sv)"
proof (cases "sv_dialog sv")
  case False
  then show ?thesis
    by (intro request_servedI [OF _ s]) (auto simp: handleFileDialog_def cancelledDialog_def)
next
  case True
  define call where "call = (if k = DIALOG_KIND_SAVE then SaveFile t d f fs else OpenFile t d fs)"
  obtain path err where ask: "ox_dialog out (length (sv_asks sv)) call = (path, err)" by force
  note eq = handleFileDialog_def ask_dialog_def Let_def call_def [symmetric] ask
  show ?thesis
  proof (cases err)
    case None
    with True show ?thesis
      by (cases "path = []"; intro request_servedI [OF _ s]) (auto simp: eq)
  next
    case (Some e)
    with True show ?thesis
      by (cases "error_is e ErrDialogCancelled"; intro request_servedI [OF _ s]) (auto simp: eq)
  qed
qed

lemma handleDbExecute_served:
  assumes s: "rc_stream (chan_at a sv) = Some s" and db: "sv_db sv = Some db"
  shows "request_served out r s (ClientMessage_DbExecute sql ps) sv (handleDbExecute out r a sql ps sv)"
proof -
  obtain res db' where x: "sd_exec (ox_sql out) sql (map SqlText ps) db = (res, db')" by force
  show ?thesis
    by (cases res; rule request_servedI [OF _ s]) (auto simp: handleDbExecute_def db x)
qed

lemma handleDbQuery_served:
  assumes s: "rc_stream (chan_at a sv) = Some s" and db: "sv_db sv = Some db"
  shows "request_served out r s (ClientMessage_DbQuery sql ps) sv (handleDbQuery out r a sql ps sv)"
proof -
  obtain res db' where x: "sd_query (ox_sql out) sql (map SqlText ps) db = (res, db')" by force
  show ?thesis
  proof (cases res)
    case (Inl e)
    then show ?thesis by (intro request_servedI [OF _ s]) (auto simp: handleDbQuery_def db x)
  next
    case (Inr rows)
    then show ?thesis
      by (cases "rw_Columns rows"; intro request_servedI [OF _ s])
        (auto simp: handleDbQuery_def db x case_prod_beta)
  qed
qed

subsection \<open>One message: its effect on the run's channel\<close>

text \<open>What a client message puts into the channel, and what it makes the channel note.\<close>

fun forwarded :: "ClientMessage \<Rightarrow> Message list" where
  "forwarded (ClientMessage_Output t) = [OutputMsg t]"
| "forwarded (ClientMessage_Progress cur tot label) = [ProgressMsg cur tot label]"
| "forwarded (ClientMessage_Error msg tb sev) = [ErrorMsg msg tb sev]"
| "forwarded m = []"

fun noted :: "ClientMessage \<Rightarrow> RunChannel \<Rightarrow> RunChannel" where
  "noted (ClientMessage_Status s) ch =
     (if s = StatusCompleted \<or> s = StatusFailed then reportStatus s ch else ch)"
| "noted (ClientMessage_Error msg tb sev) ch = reportError msg ch"
| "noted m ch = ch"

definition deliver :: "Message list \<Rightarrow> RunChannel \<Rightarrow> RunChannel" where
  "deliver ms ch = (if rc_phase ch = PhaseDone then ch
     else ch\<lparr>rc_Messages := (rc_Messages ch)\<lparr>ch_buf := ch_buf (rc_Messages ch) @ ms\<rparr>\<rparr>)"

definition absorb :: "ClientMessage \<Rightarrow> RunChannel \<Rightarrow> RunChannel" where
  "absorb m ch = deliver (forwarded m) (noted m ch)"

definition room_for :: "RunChannel \<Rightarrow> nat \<Rightarrow> bool" where
  "room_for ch n \<longleftrightarrow> rc_phase ch = PhaseDone \<or> length (ch_buf (rc_Messages ch)) + n \<le> messageBufferSize"

lemma deliver_Nil [simp]: "deliver [] ch = ch"
  by (simp add: deliver_def)

lemma deliver_fields [simp]:
  "rc_phase (deliver ms ch) = rc_phase ch" "rc_stream (deliver ms ch) = rc_stream ch"
  "rc_pythonStatus (deliver ms ch) = rc_pythonStatus ch" "rc_gotError (deliver ms ch) = rc_gotError ch"
  "rc_errorMessage (deliver ms ch) = rc_errorMessage ch" "rc_streamDone (deliver ms ch) = rc_streamDone ch"
  "rc_connected (deliver ms ch) = rc_connected ch"
  "ch_buf (rc_Messages (deliver ms ch)) =
     ch_buf (rc_Messages ch) @ (if rc_phase ch = PhaseDone then [] else ms)"
  by (simp_all add: deliver_def)

lemma reportStatus_fields [simp]:
  "rc_phase (reportStatus s ch) = rc_phase ch" "rc_stream (reportStatus s ch) = rc_stream ch"
  "rc_Messages (reportStatus s ch) = rc_Messages ch" "rc_gotError (reportStatus s ch) = rc_gotError ch"
  "rc_errorMessage (reportStatus s ch) = rc_errorMessage ch" "rc_streamDone (reportStatus s ch) = rc_streamDone ch"
  "rc_connected (reportStatus s ch) = rc_connected ch"
  by (simp_all add: reportStatus_def)

lemma reportError_fields [simp]:
  "rc_phase (reportError m ch) = rc_phase ch" "rc_stream (reportError m ch) = rc_stream ch"
  "rc_Messages (reportError m ch) = rc_Messages ch" "rc_pythonStatus (reportError m ch) = rc_pythonStatus ch"
  "rc_streamDone (reportError m ch) = rc_streamDone ch" "rc_connected (reportError m ch) = rc_connected ch"
  by (simp_all add: reportError_def)

lemma noted_fields [simp]:
  "rc_phase (noted m ch) = rc_phase ch" "rc_stream (noted m ch) = rc_stream ch"
  "rc_Messages (noted m ch) = rc_Messages ch" "rc_streamDone (noted m ch) = rc_streamDone ch"
  "rc_connected (noted m ch) = rc_connected ch"
  by (cases m; simp)+

lemma absorb_fields [simp]:
  "rc_phase (absorb m ch) = rc_phase ch" "rc_stream (absorb m ch) = rc_stream ch"
  "rc_streamDone (absorb m ch) = rc_streamDone ch" "rc_connected (absorb m ch) = rc_connected ch"
  "ch_buf (rc_Messages (absorb m ch)) =
     ch_buf (rc_Messages ch) @ (if rc_phase ch = PhaseDone then [] else forwarded m)"
  by (simp_all add: absorb_def)

lemma noted_inv [inv_intros]: "rc_inv ch \<Longrightarrow> rc_inv (noted m ch)"
  by (cases m) (simp_all add: reportStatus_inv reportError_inv)

lemma length_forwarded: "length (forwarded m) \<le> 1"
  by (cases m) simp_all

lemma deliver_inv: "rc_inv ch \<Longrightarrow> room_for ch (length ms) \<Longrightarrow> rc_inv (deliver ms ch)"
  by (cases "rc_phase ch = PhaseDone") (simp_all add: rc_inv_def rc_core_def room_for_def deliver_def)

lemma room_for_0: "rc_inv ch \<Longrightarrow> room_for ch 0"
  by (simp add: rc_inv_def room_for_def)

lemma absorb_inv [inv_intros]: "rc_inv ch \<Longrightarrow> room_for ch (length (forwarded m)) \<Longrightarrow> rc_inv (absorb m ch)"
  unfolding absorb_def by (rule deliver_inv) (simp_all add: noted_inv room_for_def)

lemma trySend_deliver:
  "rc_inv ch \<Longrightarrow> trySend m ch = (if room_for ch 1 then Ret (rc_phase ch \<noteq> PhaseDone, deliver [m] ch) else Block)"
  by (simp add: trySend_Ret room_for_def deliver_def)

lemma try_send_at_deliver:
  "server_inv sv \<Longrightarrow> a < length (sv_chans sv) \<Longrightarrow> try_send_at a m sv =
     (if room_for (chan_at a sv) 1 then Ret (set_chan a (deliver [m] (chan_at a sv)) sv) else Block)"
  by (simp add: try_send_at_def chan_op_def trySend_deliver server_invD(1))

lemma set_chan_same [simp]: "set_chan a (chan_at a sv) sv = sv"
  by (simp add: set_chan_def chan_at_def)

lemma set_chan_twice [simp]: "set_chan a ch (set_chan a ch' sv) = set_chan a ch sv"
  by (simp add: set_chan_def)

lemma set_chan_swap_cache [simp]:
  "set_chan a ch (sv\<lparr>sv_cache := cm\<rparr>) = (set_chan a ch sv)\<lparr>sv_cache := cm\<rparr>"
  by (simp add: set_chan_def)

text \<open>Events: no reply, no error; only a full buffer holds the handler up.\<close>

lemma event_handled:
  assumes inv: "server_inv sv" and a: "a < length (sv_chans sv)" and ev: "\<not> is_request m"
  shows "if room_for (chan_at a sv) (length (forwarded m))
         then \<exists>sv2. handleClientMessage out r a m sv = Ret (None, set_chan a (absorb m (chan_at a sv)) sv2) \<and>
            same_core sv sv2 \<and> sv_cache sv2 = snd (ops_run (cache_do ord) (cache_ops_of r m) (sv_cache sv))
         else handleClientMessage out r a m sv = Block"
proof (cases m)
  case (ClientMessage_Output t)
  then show ?thesis
    by (auto simp: try_send_at_deliver [OF inv a] absorb_def no_error_def intro: exI [of _ sv])
next
  case (ClientMessage_Progress cur tot label)
  then show ?thesis
    by (auto simp: try_send_at_deliver [OF inv a] absorb_def no_error_def intro: exI [of _ sv])
next
  case (ClientMessage_Status s)
  then show ?thesis
    by (auto simp: absorb_def no_error_def room_for_0 server_invD(1) [OF inv a] intro!: exI [of _ sv])
next
  case (ClientMessage_Error msg tb sev)
  let ?sv = "set_chan a (reportError msg (chan_at a sv)) sv"
  have "server_inv ?sv"
  proof (rule set_chan_inv [OF inv a])
    show "rc_inv (reportError msg (chan_at a sv))" using server_invD(1) [OF inv a] by (rule reportError_inv)
    show "rc_phase (reportError msg (chan_at a sv)) = PhaseDone \<Longrightarrow> a \<notin> ran (sv_runs sv)"
      using server_invD(3) [OF inv] by (auto simp: ran_def)
  qed
  then have "try_send_at a (ErrorMsg msg tb sev) ?sv =
      (if room_for (chan_at a sv) 1 then Ret (set_chan a (absorb m (chan_at a sv)) sv) else Block)"
    using a by (simp add: try_send_at_deliver chan_at_set_chan room_for_def absorb_def ClientMessage_Error)
  then show ?thesis
    by (auto simp: ClientMessage_Error no_error_def intro: exI [of _ sv])
next
  case (ClientMessage_CacheRelease key)
  let ?sv = "handleCacheRelease out r key sv"
  have "same_core sv ?sv" "chan_at a ?sv = chan_at a sv"
    "sv_cache ?sv = snd (ops_run (cache_do ord) (cache_ops_of r m) (sv_cache sv))"
    by (simp_all add: handleCacheRelease_def chan_at_def same_core_def ClientMessage_CacheRelease
        case_prod_beta)
  then show ?thesis
    using ClientMessage_CacheRelease room_for_0 [OF server_invD(1) [OF inv a]] set_chan_same [of a ?sv]
    by (auto simp: absorb_def no_error_def intro!: exI [of _ ?sv])
next
  case ClientMessage_Unset
  then show ?thesis
    by (auto simp: absorb_def no_error_def room_for_0 server_invD(1) [OF inv a] intro!: exI [of _ sv])
qed (use ev in simp_all)

text \<open>The cache after a message, in terms of the registry's operations; no order is involved.\<close>

definition cache_after :: "run_id \<Rightarrow> ClientMessage \<Rightarrow> CacheManager \<Rightarrow> bool list \<times> CacheManager" where
  "cache_after r m cm = ops_run (cache_do sorted_keys) (cache_ops_of r m) cm"

lemma cache_after_spec:
  "cache_ok cm \<Longrightarrow> cache_ok (snd (cache_after r m cm)) \<and>
     (fst (cache_after r m cm), cache_holders (snd (cache_after r m cm))) = spec_run (cache_ops_of r m) (cache_holders cm)"
  unfolding cache_after_def by (rule sorted_cache.reg.ops_refine)

lemma request_absorbs: "is_request m \<Longrightarrow> absorb m ch = ch"
  by (cases m) (simp_all add: absorb_def)

lemma request_handled:
  assumes "is_request m" "rc_stream (chan_at a sv) = Some s" "sv_db sv \<noteq> None"
  shows "request_served out r s m sv (handleClientMessage out r a m sv)"
  using assms
  by (cases m) (auto simp: handleCacheCreate_served handleCacheLookup_served handleFileDialog_served
      handleDbExecute_served handleDbQuery_served)

text \<open>A message of either kind, in terms of the specification functions above.\<close>

definition message_done ::
    "'d outside \<Rightarrow> run_id \<Rightarrow> nat \<Rightarrow> nat \<Rightarrow> ClientMessage \<Rightarrow> ('d, 'z) server_scheme \<Rightarrow> goerror option \<Rightarrow> ('d, 'z) server_scheme \<Rightarrow> bool" where
  "message_done out r a s m sv res sv' \<longleftrightarrow>
     sv_chans sv' = (sv_chans sv)[a := absorb m (chan_at a sv)] \<and> sv_runs sv' = sv_runs sv \<and>
     (sv_db sv' = None \<longleftrightarrow> sv_db sv = None) \<and>
     sv_cache sv' = snd (cache_after r m (sv_cache sv)) \<and>
     (if is_request m
      then \<exists>reply. answers m reply \<and> res = ox_send out s (sv_sends sv) \<and>
             sv_wire sv' = sv_wire sv @ (if res = None then [(s, reply)] else []) \<and>
             reply_ack reply = fst (cache_after r m (sv_cache sv))
      else res = None \<and> sv_wire sv' = sv_wire sv)"

lemma request_done:
  assumes m: "is_request m" and s: "rc_stream (chan_at a sv) = Some s" and db: "sv_db sv \<noteq> None"
  obtains res sv' where "handleClientMessage out r a m sv = Ret (res, sv')" "message_done out r a s m sv res sv'"
proof -
  obtain reply sv2 where h: "handleClientMessage out r a m sv = Ret (stream_Send out s reply sv2)"
    and core: "same_core sv sv2" and ans: "answers m reply"
    and cache: "cache_after r m (sv_cache sv) = (reply_ack reply, sv_cache sv2)"
    using request_handled [OF assms, of out r] unfolding request_served_def cache_after_def by blast
  obtain res sv' where send: "stream_Send out s reply sv2 = (res, sv')" by force
  have "message_done out r a s m sv res sv'"
    using send core ans cache m
    by (auto simp: message_done_def stream_Send_def same_core_def request_absorbs chan_at_def
        split: option.splits)
  with that h send show ?thesis by simp
qed

lemma message_step:
  assumes inv: "server_inv sv" and a: "a < length (sv_chans sv)" and s: "rc_stream (chan_at a sv) = Some s"
    and db: "sv_db sv \<noteq> None"
  shows "if room_for (chan_at a sv) (length (forwarded m))
         then \<exists>res sv'. handleClientMessage out r a m sv = Ret (res, sv') \<and> message_done out r a s m sv res sv'
         else handleClientMessage out r a m sv = Block"
proof (cases "is_request m")
  case True
  then have "forwarded m = []" by (cases m) simp_all
  with True show ?thesis
    using request_done [OF True s db, of out r] room_for_0 [OF server_invD(1) [OF inv a]]
    by (metis list.size(3))
next
  case False
  then show ?thesis
    using event_handled [OF inv a False, of out r sorted_keys]
    by (auto simp: message_done_def same_core_def cache_after_def set_chan_def chan_at_def)
qed

lemma message_done_inv:
  assumes inv: "server_inv sv" and a: "a < length (sv_chans sv)"
    and room: "room_for (chan_at a sv) (length (forwarded m))" and d: "message_done out r a s m sv res sv'"
  shows "server_inv sv'"
proof -
  have "server_inv (set_chan a (absorb m (chan_at a sv)) sv)"
  proof (rule set_chan_inv [OF inv a absorb_inv [OF server_invD(1) [OF inv a] room]])
    show "rc_phase (absorb m (chan_at a sv)) = PhaseDone \<Longrightarrow> a \<notin> ran (sv_runs sv)"
      using server_invD(3) [OF inv] by (auto simp: ran_def)
  qed
  moreover have "cache_ok (sv_cache sv')"
    using d cache_after_spec inv by (auto simp: message_done_def server_inv_def)
  ultimately show ?thesis
    using d by (elim server_inv_cong) (auto simp: message_done_def set_chan_def)
qed

lemma message_done_chan:
  "a < length (sv_chans sv) \<Longrightarrow> message_done out r a s m sv res sv' \<Longrightarrow>
     chan_at b sv' = (if b = a then absorb m (chan_at a sv) else chan_at b sv) \<and>
     length (sv_chans sv') = length (sv_chans sv)"
  by (simp add: message_done_def chan_at_def)

subsection \<open>The receive loop\<close>

definition holders_after :: "run_id \<Rightarrow> ClientMessage list \<Rightarrow> holders \<Rightarrow> holders" where
  "holders_after r ms H = fold (\<lambda>m H. snd (spec_run (cache_ops_of r m) H)) ms H"

text \<open>The yes and no answers the script is owed for its cache requests, in order.\<close>

fun cache_acks :: "run_id \<Rightarrow> ClientMessage list \<Rightarrow> holders \<Rightarrow> bool list" where
  "cache_acks r [] H = []"
| "cache_acks r (m # ms) H =
     (case spec_run (cache_ops_of r m) H of (bs, H') \<Rightarrow> (if is_request m then bs else []) @ cache_acks r ms H')"

text \<open>
  \<open>session r a s sv ms res sv'\<close>: the messages \<open>ms\<close> were handled on stream \<open>s\<close> and the loop
  ended with \<open>res\<close>: the channel absorbed them in order, each request that went through has
  its reply on the wire, in order and nothing else, and the cache is what the registry's
  specification makes of the run's operations.
\<close>

definition session ::
    "run_id \<Rightarrow> nat \<Rightarrow> nat \<Rightarrow> ('d, 'z) server_scheme \<Rightarrow> ClientMessage list \<Rightarrow> goerror option \<Rightarrow> ('d, 'z) server_scheme \<Rightarrow> bool" where
  "session r a s sv ms res sv' \<longleftrightarrow>
     sv_chans sv' = (sv_chans sv)[a := fold absorb ms (chan_at a sv)] \<and> sv_runs sv' = sv_runs sv \<and>
     cache_holders (sv_cache sv') = holders_after r ms (cache_holders (sv_cache sv)) \<and>
     (\<exists>replies. sv_wire sv' = sv_wire sv @ map (Pair s) replies \<and>
        (if res = None
         then list_all2 answers (filter is_request ms) replies \<and>
              concat (map reply_ack replies) = cache_acks r ms (cache_holders (sv_cache sv))
         else ms \<noteq> [] \<and> is_request (last ms) \<and> list_all2 answers (filter is_request (butlast ms)) replies))"

lemma session_report [simp]: "session r a s sv ms res (report out ev sv') = session r a s sv ms res sv'"
  by (simp add: session_def)

lemma session_Nil: "session r a s sv [] None sv"
  by (simp add: session_def holders_after_def chan_at_def)

lemma session_failed:
  assumes "message_done out r a s m sv (Some e) sv'" "cache_ok (sv_cache sv)"
  shows "session r a s sv [m] (Some e) sv'"
  using assms cache_after_spec [OF assms(2), of r m]
  by (auto simp: message_done_def session_def holders_after_def split: if_splits) (metis snd_conv)+

lemma session_Cons:
  assumes d: "message_done out r a s m sv None sv1" and ok: "cache_ok (sv_cache sv)"
    and a: "a < length (sv_chans sv)" and rest: "session r a s sv1 ms res sv'"
  shows "session r a s sv (m # ms) res sv'"
proof -
  have spec: "spec_run (cache_ops_of r m) (cache_holders (sv_cache sv)) =
      (fst (cache_after r m (sv_cache sv)), cache_holders (sv_cache sv1))"
    using cache_after_spec [OF ok, of r m] d by (simp add: message_done_def)
  have chan: "chan_at a sv1 = absorb m (chan_at a sv)"
    using message_done_chan [OF a d] by simp
  obtain replies where w: "sv_wire sv' = sv_wire sv1 @ map (Pair s) replies"
    and r: "if res = None
         then list_all2 answers (filter is_request ms) replies \<and>
              concat (map reply_ack replies) = cache_acks r ms (cache_holders (sv_cache sv1))
         else ms \<noteq> [] \<and> is_request (last ms) \<and> list_all2 answers (filter is_request (butlast ms)) replies"
    using rest unfolding session_def by blast
  obtain pre where w1: "sv_wire sv1 = sv_wire sv @ map (Pair s) pre"
    and pre: "list_all2 answers (filter is_request [m]) pre"
      "concat (map reply_ack pre) = (if is_request m then fst (cache_after r m (sv_cache sv)) else [])"
  proof (cases "is_request m")
    case True
    with d obtain reply where "answers m reply" "sv_wire sv1 = sv_wire sv @ [(s, reply)]"
      "reply_ack reply = fst (cache_after r m (sv_cache sv))"
      by (auto simp: message_done_def)
    with that [of "[reply]"] True show ?thesis by simp
  next
    case False
    with d that [of "[]"] show ?thesis by (simp add: message_done_def)
  qed
  have "sv_wire sv' = sv_wire sv @ map (Pair s) (pre @ replies)" using w w1 by simp
  moreover have "if res = None
         then list_all2 answers (filter is_request (m # ms)) (pre @ replies) \<and>
              concat (map reply_ack (pre @ replies)) = cache_acks r (m # ms) (cache_holders (sv_cache sv))
         else m # ms \<noteq> [] \<and> is_request (last (m # ms)) \<and>
              list_all2 answers (filter is_request (butlast (m # ms))) (pre @ replies)"
    using r pre spec list_all2_appendI [OF pre(1)] by (auto split: if_splits)
  ultimately have "\<exists>rs. sv_wire sv' = sv_wire sv @ map (Pair s) rs \<and> (if res = None
         then list_all2 answers (filter is_request (m # ms)) rs \<and>
              concat (map reply_ack rs) = cache_acks r (m # ms) (cache_holders (sv_cache sv))
         else m # ms \<noteq> [] \<and> is_request (last (m # ms)) \<and>
              list_all2 answers (filter is_request (butlast (m # ms))) rs)"
    by blast
  moreover have "sv_chans sv' = (sv_chans sv)[a := fold absorb (m # ms) (chan_at a sv)]"
    "sv_runs sv' = sv_runs sv"
    "cache_holders (sv_cache sv') = holders_after r (m # ms) (cache_holders (sv_cache sv))"
    using rest d chan spec by (simp_all add: session_def message_done_def holders_after_def)
  ultimately show ?thesis unfolding session_def by blast
qed

text \<open>What the loop needs of the state it starts in.\<close>

definition can_serve :: "nat \<Rightarrow> nat \<Rightarrow> ('d, 'z) server_scheme \<Rightarrow> bool" where
  "can_serve a s sv \<longleftrightarrow>
     server_inv sv \<and> a < length (sv_chans sv) \<and> rc_stream (chan_at a sv) = Some s \<and> sv_db sv \<noteq> None"

lemma can_serve_step:
  assumes "can_serve a s sv" "room_for (chan_at a sv) (length (forwarded m))" "message_done out r a s m sv res sv1"
  shows "can_serve a s sv1 \<and> chan_at a sv1 = absorb m (chan_at a sv)"
  using assms message_done_inv [OF _ _ assms(2,3)] message_done_chan [OF _ assms(3)]
  by (auto simp: can_serve_def) (auto simp: message_done_def)

lemma can_serve_report [simp]: "can_serve a s (report out ev sv) = can_serve a s sv"
  by (simp add: can_serve_def server_inv_def)

lemma serve_session:
  assumes "can_serve a s sv" "serve out r a ms ended sv = Ret (res, sv')"
  shows "\<exists>handled rest. ms = handled @ rest \<and> (res = None \<longrightarrow> rest = []) \<and>
           session r a s sv handled res sv' \<and> can_serve a s sv'"
  using assms
proof (induction ms arbitrary: sv)
  case Nil
  then have "session r a s sv [] res sv' \<and> can_serve a s sv'" by (auto simp: session_Nil)
  then show ?case by simp
next
  case (Cons m ms)
  from Cons.prems(1) have c: "server_inv sv" "a < length (sv_chans sv)" "rc_stream (chan_at a sv) = Some s"
    "sv_db sv \<noteq> None" "cache_ok (sv_cache sv)" by (auto simp: can_serve_def server_inv_def)
  from Cons.prems(2) have room: "room_for (chan_at a sv) (length (forwarded m))"
    using message_step [OF c(1-4), of m out r] by (auto split: if_splits)
  then obtain e sv1 where h: "handleClientMessage out r a m sv = Ret (e, sv1)"
    and d: "message_done out r a s m sv e sv1"
    using message_step [OF c(1-4), of m out r] by auto
  note c1 = can_serve_step [OF Cons.prems(1) room d]
  show ?case
  proof (cases e)
    case None
    with Cons.prems(2) h have "serve out r a ms ended sv1 = Ret (res, sv')" by simp
    from Cons.IH [OF conjunct1 [OF c1] this] obtain hs rest where
      "ms = hs @ rest" "res = None \<longrightarrow> rest = []" "session r a s sv1 hs res sv'" "can_serve a s sv'"
      by blast
    then show ?thesis
      using session_Cons [OF d [unfolded None] c(5,2)]
      by (intro exI [of _ "m # hs"] exI [of _ rest]) simp
  next
    case (Some err)
    with Cons.prems(2) h c1 session_failed [OF d [unfolded Some] c(5)] show ?thesis
      by (intro exI [of _ "[m]"] exI [of _ ms]) auto
  qed
qed

lemma serve_returns:
  assumes "can_serve a s sv" "room_for (chan_at a sv) (length (concat (map forwarded ms)))"
  shows "\<exists>res sv'. serve out r a ms ended sv = Ret (res, sv')"
  using assms
proof (induction ms arbitrary: sv)
  case (Cons m ms)
  from Cons.prems(1) have c: "server_inv sv" "a < length (sv_chans sv)" "rc_stream (chan_at a sv) = Some s"
    "sv_db sv \<noteq> None" by (auto simp: can_serve_def)
  from Cons.prems(2) have room: "room_for (chan_at a sv) (length (forwarded m))"
    by (auto simp: room_for_def)
  then obtain e sv1 where h: "handleClientMessage out r a m sv = Ret (e, sv1)"
    and d: "message_done out r a s m sv e sv1"
    using message_step [OF c, of m out r] by auto
  note c1 = can_serve_step [OF Cons.prems(1) room d]
  then have "room_for (chan_at a sv1) (length (concat (map forwarded ms)))"
    using Cons.prems(2) by (auto simp: room_for_def)
  with Cons.IH [of sv1] c1 h show ?case by (cases e) auto
qed simp

subsection \<open>What a channel has absorbed\<close>

text \<open>Python's first terminal status and its last error message.\<close>

fun first_status :: "ClientMessage list \<Rightarrow> RunStatus option" where
  "first_status [] = None"
| "first_status (ClientMessage_Status s # ms) =
     (if s = StatusCompleted \<or> s = StatusFailed then Some s else first_status ms)"
| "first_status (m # ms) = first_status ms"

fun last_error :: "ClientMessage list \<Rightarrow> string option" where
  "last_error [] = None"
| "last_error (m # ms) =
     (case last_error ms of
        Some e \<Rightarrow> Some e
      | None \<Rightarrow> (case m of ClientMessage_Error msg tb sev \<Rightarrow> Some msg | _ \<Rightarrow> None))"

definition or_else :: "'a option \<Rightarrow> 'a option \<Rightarrow> 'a option" where
  "or_else x y = (case x of Some v \<Rightarrow> Some v | None \<Rightarrow> y)"

lemma fold_absorb_simple:
  "rc_phase (fold absorb ms ch) = rc_phase ch" "rc_stream (fold absorb ms ch) = rc_stream ch"
  "rc_streamDone (fold absorb ms ch) = rc_streamDone ch" "rc_connected (fold absorb ms ch) = rc_connected ch"
  by (induction ms arbitrary: ch) simp_all

lemma fold_absorb_buf:
  "ch_buf (rc_Messages (fold absorb ms ch)) =
     ch_buf (rc_Messages ch) @ (if rc_phase ch = PhaseDone then [] else concat (map forwarded ms))"
  by (induction ms arbitrary: ch) simp_all

lemma absorb_status:
  "rc_pythonStatus (absorb m ch) = or_else (rc_pythonStatus ch) (first_status [m])"
  by (cases m) (auto simp: absorb_def reportStatus_def or_else_def split: option.split)

lemma absorb_error:
  "rc_errorMessage (absorb m ch) = or_else (last_error [m]) (rc_errorMessage ch)"
  "rc_gotError (absorb m ch) \<longleftrightarrow> rc_gotError ch \<or> last_error [m] \<noteq> None"
  by (cases m; auto simp: absorb_def reportError_def or_else_def split: option.split)+

lemma first_status_Cons: "first_status (m # ms) = or_else (first_status [m]) (first_status ms)"
  by (cases m) (auto simp: or_else_def)

lemma last_error_Cons: "last_error (m # ms) = or_else (last_error ms) (last_error [m])"
  by (auto simp: or_else_def split: option.split)

lemma or_else_simps [simp]: "or_else None y = y" "or_else (Some v) y = Some v" "or_else x None = x"
  by (auto simp: or_else_def split: option.split)

lemma or_else_assoc: "or_else (or_else x y) z = or_else x (or_else y z)"
  by (cases x) simp_all

lemma fold_absorb_status:
  "rc_pythonStatus (fold absorb ms ch) = or_else (rc_pythonStatus ch) (first_status ms)"
proof (induction ms arbitrary: ch)
  case (Cons m ms)
  show ?case
    by (simp only: fold.simps o_apply Cons.IH absorb_status first_status_Cons [of m ms] or_else_assoc)
qed simp

lemma fold_absorb_error:
  "rc_errorMessage (fold absorb ms ch) = or_else (last_error ms) (rc_errorMessage ch)"
proof (induction ms arbitrary: ch)
  case (Cons m ms)
  show ?case
    by (simp only: fold.simps o_apply Cons.IH absorb_error last_error_Cons [of m ms] or_else_assoc)
qed simp

subsection \<open>Execute\<close>

text \<open>A run that is registered and whose stream is not over: what \<open>Execute\<close> finds.\<close>

definition awaiting :: "run_id \<Rightarrow> nat \<Rightarrow> ('d, 'z) server_scheme \<Rightarrow> bool" where
  "awaiting r a sv \<longleftrightarrow>
     server_inv sv \<and> sv_runs sv r = Some a \<and> sv_db sv \<noteq> None \<and> \<not> ch_closed (rc_streamDone (chan_at a sv))"

definition connected :: "nat \<Rightarrow> RunChannel \<Rightarrow> RunChannel" where
  "connected s ch = (ch\<lparr>rc_stream := Some s\<rparr>)\<lparr>rc_phase := PhaseConnected,
     rc_connected := (rc_connected ch)\<lparr>ch_closed := True\<rparr>\<rparr>"

lemma connect_Ret:
  assumes inv: "rc_inv ch" and ph: "rc_phase ch \<noteq> PhaseDone"
  shows "\<exists>b. transitionTo PhaseConnected (ch\<lparr>rc_stream := Some s\<rparr>) = Ret (b, connected s ch)"
proof -
  have core: "rc_core (ch\<lparr>rc_stream := Some s\<rparr>)"
    using inv by (simp add: rc_inv_def rc_core_def)
  show ?thesis
  proof (cases "rc_phase ch")
    case PhaseRegistered
    then show ?thesis
      by (intro exI [of _ True]) (simp add: transitionTo_Ret [OF core] legalPhaseTransition_def connected_def)
  next
    case PhaseConnected
    with inv have "ch_closed (rc_connected ch)" by (simp add: rc_inv_def rc_core_def)
    then have "connected s ch = ch\<lparr>rc_stream := Some s\<rparr>"
      using PhaseConnected by (simp add: connected_def)
    then show ?thesis
      using PhaseConnected
      by (intro exI [of _ False]) (simp add: transitionTo_Ret [OF core] legalPhaseTransition_def)
  qed (use ph in simp)
qed

lemma connected_fields [simp]:
  "rc_phase (connected s ch) = PhaseConnected" "rc_stream (connected s ch) = Some s"
  "rc_Messages (connected s ch) = rc_Messages ch" "rc_streamDone (connected s ch) = rc_streamDone ch"
  "rc_pythonStatus (connected s ch) = rc_pythonStatus ch" "rc_gotError (connected s ch) = rc_gotError ch"
  "rc_errorMessage (connected s ch) = rc_errorMessage ch"
  by (simp_all add: connected_def)

lemma connected_inv: "rc_inv ch \<Longrightarrow> rc_phase ch \<noteq> PhaseDone \<Longrightarrow> rc_inv (connected s ch)"
  by (auto simp: rc_inv_def rc_core_def connected_def)

lemma execute_connect_Ret:
  assumes "server_inv sv" "sv_runs sv r = Some a"
  shows "execute_connect s (Some (r # xs)) sv = Ret (Inr (r, a), set_chan a (connected s (chan_at a sv)) sv)"
proof -
  have "rc_inv (chan_at a sv)" "rc_phase (chan_at a sv) \<noteq> PhaseDone"
    using assms by (auto simp: server_inv_def)
  from connect_Ret [OF this, of s] show ?thesis
    by (auto simp: execute_connect_def assms(2) chan_op_def)
qed

lemma connected_can_serve:
  assumes w: "awaiting r a sv"
  shows "can_serve a s (set_chan a (connected s (chan_at a sv)) sv)"
proof -
  from w have a: "a < length (sv_chans sv)" and inv: "server_inv sv"
    and ch: "rc_inv (chan_at a sv)" "rc_phase (chan_at a sv) \<noteq> PhaseDone"
    by (auto simp: awaiting_def server_inv_def)
  have "server_inv (set_chan a (connected s (chan_at a sv)) sv)"
    by (rule set_chan_inv [OF inv a connected_inv [OF ch]]) simp
  then show ?thesis using a w by (simp add: can_serve_def chan_at_set_chan awaiting_def)
qed

lemma Execute_unfold:
  assumes "server_inv sv" "sv_runs sv r = Some a"
  shows "Execute out s (Some (r # xs)) ms ended sv =
     go_bind (serve out r a ms ended (client_connected out r (set_chan a (connected s (chan_at a sv)) sv)))
       (\<lambda>(ret, sv2). go_bind (stream_done a sv2) (\<lambda>sv3. Ret (ret, sv3)))"
  by (simp add: Execute_def execute_connect_Ret [OF assms])

lemma stream_done_Ret:
  "stream_done a sv = (if ch_closed (rc_streamDone (chan_at a sv)) then Panic ''close of closed channel''
     else Ret (set_chan a (chan_at a sv\<lparr>rc_streamDone := (rc_streamDone (chan_at a sv))\<lparr>ch_closed := True\<rparr>\<rparr>) sv))"
  by (simp add: stream_done_def closeStreamDone_def chan_close_def)

lemma Execute_Ret:
  assumes w: "awaiting r a sv"
    and fits: "length (ch_buf (rc_Messages (chan_at a sv))) + length (concat (map forwarded ms)) \<le> messageBufferSize"
  shows "\<exists>res sv'. Execute out s (Some (r # xs)) ms ended sv = Ret (res, sv')"
proof -
  let ?sv = "set_chan a (connected s (chan_at a sv)) sv"
  from w have a: "server_inv sv" "sv_runs sv r = Some a" "a < length (sv_chans sv)"
    by (auto simp: awaiting_def server_inv_def)
  have cs: "can_serve a s (client_connected out r ?sv)"
    using connected_can_serve [OF w] by (simp add: client_connected_def)
  have cc: "chan_at a (client_connected out r ?sv) = connected s (chan_at a sv)"
    using a(3) by (simp add: client_connected_def chan_at_set_chan)
  have "room_for (chan_at a (client_connected out r ?sv)) (length (concat (map forwarded ms)))"
    using fits by (simp add: room_for_def cc)
  from serve_returns [OF cs this, of out r ended] obtain res sv2 where
    sv2: "serve out r a ms ended (client_connected out r ?sv) = Ret (res, sv2)" by blast
  from serve_session [OF cs this] obtain handled where "session r a s (client_connected out r ?sv) handled res sv2"
    by blast
  then have "sv_chans sv2 = (sv_chans (client_connected out r ?sv))[a := fold absorb handled (connected s (chan_at a sv))]"
    by (simp only: session_def cc)
  then have "chan_at a sv2 = fold absorb handled (connected s (chan_at a sv))"
    using a(3) by (simp add: chan_at_def client_connected_def)
  then have "\<not> ch_closed (rc_streamDone (chan_at a sv2))"
    using w by (simp add: fold_absorb_simple awaiting_def)
  then show ?thesis
    by (simp add: Execute_unfold [OF a(1,2)] sv2 stream_done_Ret)
qed

subsection \<open>All goroutines together\<close>

text \<open>
  One step of any goroutine that works on the server, the handlers' messages interleaved
  freely. \<open>live\<close> lists the handlers between the connect and the deferred close of their
  \<open>Execute\<close>. A connecting client's run is required not to have been connected before
  (\<open>rc_phase\<close> still registered), which is what \<open>second_execute_panics\<close> shows to be needed.
\<close>

inductive srv_step ::
    "'d outside \<Rightarrow> 'd server \<times> (run_id \<times> nat) list \<Rightarrow> 'd server \<times> (run_id \<times> nat) list \<Rightarrow> bool"
  for out :: "'d outside"
where
  srv_register: "srv_step out (sv, live) (snd (RegisterRun r sv), live)"
| srv_unregister: "UnregisterRun r sv = Ret sv' \<Longrightarrow> srv_step out (sv, live) (sv', live)"
| srv_connect: "sv_runs sv r = Some a \<Longrightarrow> rc_phase (chan_at a sv) = PhaseRegistered \<Longrightarrow>
    execute_connect s (Some (r # xs)) sv = Ret (Inr (r, a), sv') \<Longrightarrow>
    srv_step out (sv, live) (client_connected out r sv', (r, a) # live)"
| srv_handle: "(r, a) \<in> set live \<Longrightarrow> handleClientMessage out r a m sv = Ret (res, sv') \<Longrightarrow>
    srv_step out (sv, live) (sv', live)"
| srv_end: "(r, a) \<in> set live \<Longrightarrow> stream_done a sv = Ret sv' \<Longrightarrow>
    srv_step out (sv, live) (sv', remove1 (r, a) live)"
| srv_status: "TrySendStatus r st sv = Ret sv' \<Longrightarrow> srv_step out (sv, live) (sv', live)"
| srv_error: "TrySendError r msg sv = Ret sv' \<Longrightarrow> srv_step out (sv, live) (sv', live)"
| srv_start: "srv_step out (sv, live) (snd (SendStart out r ps sv), live)"
| srv_cancel: "srv_step out (sv, live) (snd (SendCancel out r sv), live)"
| srv_recv: "a < length (sv_chans sv) \<Longrightarrow> chan_recv (rc_Messages (chan_at a sv)) = Ret (m, c) \<Longrightarrow>
    srv_step out (sv, live) (set_chan a (chan_at a sv\<lparr>rc_Messages := c\<rparr>) sv, live)"
| srv_dialog: "srv_step out (sv, live) (SetDialogHandler sv, live)"

inductive_cases srv_stepE: "srv_step out x y"

definition srv_ok :: "'d server \<times> (run_id \<times> nat) list \<Rightarrow> bool" where
  "srv_ok x \<longleftrightarrow> (case x of (sv, live) \<Rightarrow>
     server_inv sv \<and> sv_db sv \<noteq> None \<and> distinct (map snd live) \<and>
     (\<forall>a \<in> snd ` set live. a < length (sv_chans sv) \<and> rc_stream (chan_at a sv) \<noteq> None \<and>
        \<not> ch_closed (rc_streamDone (chan_at a sv)) \<and> rc_phase (chan_at a sv) \<noteq> PhaseRegistered) \<and>
     (\<forall>a < length (sv_chans sv). rc_phase (chan_at a sv) = PhaseRegistered \<longrightarrow>
        \<not> ch_closed (rc_streamDone (chan_at a sv))))"

text \<open>What a step may do to a channel without disturbing its handler.\<close>

definition kept :: "RunChannel \<Rightarrow> RunChannel \<Rightarrow> bool" where
  "kept ch ch' \<longleftrightarrow>
     (rc_phase ch' = PhaseRegistered \<longrightarrow> rc_phase ch = PhaseRegistered) \<and>
     (rc_stream ch \<noteq> None \<longrightarrow> rc_stream ch' \<noteq> None) \<and> rc_streamDone ch' = rc_streamDone ch"

lemma kept_refl [simp]: "kept ch ch"
  by (simp add: kept_def)

lemma srv_ok_kept:
  assumes ok: "srv_ok (sv, live)" and inv: "server_inv sv'" and db: "sv_db sv' \<noteq> None"
    and len: "length (sv_chans sv) \<le> length (sv_chans sv')"
    and kept: "\<And>b. b < length (sv_chans sv) \<Longrightarrow> kept (chan_at b sv) (chan_at b sv')"
    and new: "\<And>b. length (sv_chans sv) \<le> b \<Longrightarrow> b < length (sv_chans sv') \<Longrightarrow> \<not> ch_closed (rc_streamDone (chan_at b sv'))"
  shows "srv_ok (sv', live)"
proof -
  have "rc_phase (chan_at b sv') = PhaseRegistered \<longrightarrow> \<not> ch_closed (rc_streamDone (chan_at b sv'))"
    if "b < length (sv_chans sv')" for b
    using ok kept [of b] new [of b] that by (cases "b < length (sv_chans sv)") (auto simp: srv_ok_def kept_def)
  moreover have "b < length (sv_chans sv') \<and> rc_stream (chan_at b sv') \<noteq> None \<and>
        \<not> ch_closed (rc_streamDone (chan_at b sv')) \<and> rc_phase (chan_at b sv') \<noteq> PhaseRegistered"
    if "b \<in> snd ` set live" for b
  proof -
    from ok that have "b < length (sv_chans sv)" "rc_stream (chan_at b sv) \<noteq> None"
      "\<not> ch_closed (rc_streamDone (chan_at b sv))" "rc_phase (chan_at b sv) \<noteq> PhaseRegistered"
      unfolding srv_ok_def by blast+
    with kept [of b] len show ?thesis by (auto simp: kept_def)
  qed
  ultimately show ?thesis using ok inv db unfolding srv_ok_def by simp
qed

lemma srv_ok_set_chan:
  assumes ok: "srv_ok (sv, live)" and a: "a < length (sv_chans sv)" and ch: "rc_inv ch"
    and keep: "kept (chan_at a sv) ch" and ph: "rc_phase ch = PhaseDone \<Longrightarrow> a \<notin> ran (sv_runs sv)"
  shows "srv_ok (set_chan a ch sv, live)"
proof (rule srv_ok_kept [OF ok])
  show "server_inv (set_chan a ch sv)"
    using ok set_chan_inv [OF _ a ch ph] by (simp add: srv_ok_def)
qed (use ok keep a in \<open>auto simp: srv_ok_def chan_at_set_chan\<close>)

lemma ran_not_done: "server_inv sv \<Longrightarrow> a \<in> ran (sv_runs sv) \<Longrightarrow> rc_phase (chan_at a sv) \<noteq> PhaseDone"
  by (auto simp: ran_def server_inv_def)

lemma deliver_kept [simp]: "kept ch (deliver ms ch)"
  by (simp add: kept_def)

lemma absorb_kept [simp]: "kept ch (absorb m ch)"
  by (simp add: kept_def)

lemma RegisterRun_inv [inv_intros]:
  assumes "server_inv sv"
  shows "server_inv (snd (RegisterRun r sv))"
proof -
  let ?n = "length (sv_chans sv)"
  have old: "sv_runs sv q = Some a \<Longrightarrow> a < ?n" for q a using assms by (simp add: server_inv_def)
  have chan: "chan_at b (snd (RegisterRun r sv)) = (if b = ?n then newRunChannel else chan_at b sv)"
    if "b \<le> ?n" for b
    using that by (auto simp: RegisterRun_def chan_at_def nth_append)
  have "inj_on ((sv_runs sv)(r \<mapsto> ?n)) (dom ((sv_runs sv)(r \<mapsto> ?n)))"
    using assms old by (force simp: server_inv_def inj_on_def dom_def)
  moreover have "a < Suc ?n \<and> rc_phase (chan_at a (snd (RegisterRun r sv))) \<noteq> PhaseDone"
    if "((sv_runs sv)(r \<mapsto> ?n)) q = Some a" for q a
  proof (cases "q = r")
    case True
    with that show ?thesis by (simp add: chan newRunChannel_def)
  next
    case False
    with that have q: "sv_runs sv q = Some a" by simp
    from old [OF q] show ?thesis using server_invD(3) [OF assms q] by (simp add: chan)
  qed
  moreover have "rc_inv (chan_at a (snd (RegisterRun r sv)))" if "a < Suc ?n" for a
    using that assms by (auto simp: chan server_inv_def newRunChannel_inv)
  ultimately show ?thesis using assms by (simp add: server_inv_def RegisterRun_def)
qed

lemma UnregisterRun_Ret:
  assumes inv: "server_inv sv"
  shows "UnregisterRun r sv = Ret (case sv_runs sv r of None \<Rightarrow> sv
     | Some a \<Rightarrow> (set_chan a (chan_at a sv\<lparr>rc_phase := PhaseDone,
         rc_Messages := (rc_Messages (chan_at a sv))\<lparr>ch_closed := True\<rparr>\<rparr>) sv)\<lparr>sv_runs := (sv_runs sv)(r := None)\<rparr>)"
proof (cases "sv_runs sv r")
  case (Some a)
  with inv have "rc_inv (chan_at a sv)" "rc_phase (chan_at a sv) \<noteq> PhaseDone" by (auto simp: server_inv_def)
  then show ?thesis
    by (simp add: UnregisterRun_def Some chan_op_def transitionTo_Ret [OF rc_inv_core] legalPhaseTransition_def)
qed (simp add: UnregisterRun_def)

lemma UnregisterRun_inv [inv_intros]:
  assumes inv: "server_inv sv" and u: "UnregisterRun r sv = Ret sv'"
  shows "server_inv sv'"
proof (cases "sv_runs sv r")
  case None
  with inv u show ?thesis by (simp add: UnregisterRun_Ret)
next
  case (Some a)
  let ?ch = "chan_at a sv\<lparr>rc_phase := PhaseDone, rc_Messages := (rc_Messages (chan_at a sv))\<lparr>ch_closed := True\<rparr>\<rparr>"
  have a: "a < length (sv_chans sv)" and "rc_inv (chan_at a sv)" using inv Some by (auto simp: server_inv_def)
  then have ch: "rc_inv ?ch" by (simp add: rc_inv_def rc_core_def)
  have inj: "inj_on (sv_runs sv) (dom (sv_runs sv))" using inv by (simp add: server_inv_def)
  have other: "b \<noteq> a" if "sv_runs sv q = Some b" "q \<noteq> r" for q b
    using inj_onD [OF inj, of q r] that Some by (auto simp: dom_def)
  have "inj_on ((sv_runs sv)(r := None)) (dom ((sv_runs sv)(r := None)))"
    using inj by (auto simp: inj_on_def dom_def)
  moreover have sv': "sv_runs sv' = (sv_runs sv)(r := None)" "sv_cache sv' = sv_cache sv"
    "length (sv_chans sv') = length (sv_chans sv)" "\<And>b. chan_at b sv' = (if b = a then ?ch else chan_at b sv)"
    using u a by (auto simp: UnregisterRun_Ret [OF inv] Some chan_at_def set_chan_def)
  moreover have "b < length (sv_chans sv) \<and> rc_phase (chan_at b sv') \<noteq> PhaseDone" if "sv_runs sv' q = Some b" for q b
  proof -
    from that have q: "sv_runs sv q = Some b" "q \<noteq> r" by (auto simp: sv'(1) split: if_splits)
    with other [OF q] show ?thesis using server_invD(2,3) [OF inv q(1)] by (simp add: sv'(4))
  qed
  ultimately show ?thesis using inv ch by (simp add: server_inv_def)
qed

text \<open>The facts about a handler that is live.\<close>

lemma srv_ok_live:
  assumes "srv_ok (sv, live)" "(r, a) \<in> set live"
  obtains s where "server_inv sv" "a < length (sv_chans sv)" "rc_stream (chan_at a sv) = Some s" "sv_db sv \<noteq> None"
    "\<not> ch_closed (rc_streamDone (chan_at a sv))"
proof -
  from assms(2) have "a \<in> snd ` set live" by force
  with assms(1) have "rc_stream (chan_at a sv) \<noteq> None" "server_inv sv" "a < length (sv_chans sv)" "sv_db sv \<noteq> None"
    "\<not> ch_closed (rc_streamDone (chan_at a sv))"
    unfolding srv_ok_def by blast+
  with that show ?thesis by blast
qed

lemma srv_ok_try_send:
  assumes ok: "srv_ok (sv, live)" and a: "a < length (sv_chans sv)" and t: "try_send_at a m sv = Ret sv'"
  shows "srv_ok (sv', live)"
proof -
  have inv: "server_inv sv" using ok by (simp add: srv_ok_def)
  have room: "room_for (chan_at a sv) 1" and sv': "sv' = set_chan a (deliver [m] (chan_at a sv)) sv"
    using t by (auto simp: try_send_at_deliver [OF inv a] split: if_splits)
  show ?thesis unfolding sv'
  proof (rule srv_ok_set_chan [OF ok a])
    show "rc_inv (deliver [m] (chan_at a sv))" using server_invD(1) [OF inv a] room by (simp add: deliver_inv)
    show "rc_phase (deliver [m] (chan_at a sv)) = PhaseDone \<Longrightarrow> a \<notin> ran (sv_runs sv)"
      using ran_not_done [OF inv] by auto
  qed simp
qed

lemma srv_ok_connect:
  assumes ok: "srv_ok (sv, live)" and r: "sv_runs sv r = Some a"
    and ph: "rc_phase (chan_at a sv) = PhaseRegistered"
  shows "srv_ok (set_chan a (connected s (chan_at a sv)) sv, (r, a) # live)"
proof -
  from ok r have a: "a < length (sv_chans sv)" and ch: "rc_inv (chan_at a sv)" by (auto simp: srv_ok_def server_inv_def)
  then have "rc_inv (connected s (chan_at a sv))" using ph by (intro connected_inv) simp_all
  then have "srv_ok (set_chan a (connected s (chan_at a sv)) sv, live)"
    by (intro srv_ok_set_chan [OF ok a]) (simp_all add: kept_def)
  moreover have "a \<notin> snd ` set live" using ok ph unfolding srv_ok_def by blast
  moreover have "\<not> ch_closed (rc_streamDone (chan_at a sv))" using ok a ph unfolding srv_ok_def by blast
  ultimately show ?thesis using a by (simp add: srv_ok_def chan_at_set_chan)
qed

lemma srv_ok_end:
  assumes ok: "srv_ok (sv, live)" and l: "(r, a) \<in> set live" and d: "stream_done a sv = Ret sv'"
  shows "srv_ok (sv', remove1 (r, a) live)"
proof -
  let ?ch = "chan_at a sv\<lparr>rc_streamDone := (rc_streamDone (chan_at a sv))\<lparr>ch_closed := True\<rparr>\<rparr>"
  obtain s where inv: "server_inv sv" and a: "a < length (sv_chans sv)" using srv_ok_live [OF ok l] by blast
  have sv': "sv' = set_chan a ?ch sv" using d by (simp add: stream_done_Ret split: if_splits)
  have "rc_inv ?ch" using server_invD(1) [OF inv a] by (simp add: rc_inv_def rc_core_def)
  then have "server_inv sv'" unfolding sv' using ran_not_done [OF inv] by (intro set_chan_inv [OF inv a]) auto
  moreover have dist: "distinct (map snd live)" using ok by (simp add: srv_ok_def)
  then have "distinct live" by (simp add: distinct_map)
  then have set: "set (remove1 (r, a) live) = set live - {(r, a)}" by (rule set_remove1_eq)
  have "a \<notin> snd ` set (remove1 (r, a) live)"
    using dist l unfolding set by (force simp: distinct_map inj_on_def)
  moreover have "distinct (map snd (remove1 (r, a) live))"
    using dist by (simp add: distinct_map set inj_on_diff \<open>distinct live\<close>)
  moreover have "rc_phase (chan_at a sv) \<noteq> PhaseRegistered" using ok l unfolding srv_ok_def by force
  moreover have "b < length (sv_chans sv) \<and> rc_stream (chan_at b sv) \<noteq> None \<and>
      \<not> ch_closed (rc_streamDone (chan_at b sv)) \<and> rc_phase (chan_at b sv) \<noteq> PhaseRegistered"
    if "b \<in> snd ` set (remove1 (r, a) live)" for b
    using that ok unfolding set srv_ok_def by blast
  moreover have "\<not> ch_closed (rc_streamDone (chan_at b sv))"
    if "b < length (sv_chans sv)" "rc_phase (chan_at b sv) = PhaseRegistered" for b
    using ok that by (simp add: srv_ok_def)
  moreover have "sv_db sv \<noteq> None" using ok by (simp add: srv_ok_def)
  ultimately show ?thesis
    using a unfolding srv_ok_def by (auto simp: sv' chan_at_set_chan)
qed

lemma stream_Send_frame:
  "sv_runs (snd (stream_Send out s m sv)) = sv_runs sv" "sv_chans (snd (stream_Send out s m sv)) = sv_chans sv"
  "sv_cache (snd (stream_Send out s m sv)) = sv_cache sv" "sv_db (snd (stream_Send out s m sv)) = sv_db sv"
  by (simp_all add: stream_Send_def split: option.split)

lemma send_imperative_frame:
  "sv_runs (snd (send_imperative out r m sv)) = sv_runs sv" "sv_chans (snd (send_imperative out r m sv)) = sv_chans sv"
  "sv_cache (snd (send_imperative out r m sv)) = sv_cache sv" "sv_db (snd (send_imperative out r m sv)) = sv_db sv"
  by (simp_all add: send_imperative_def stream_Send_frame split: option.split)

lemma srv_ok_same_chans:
  assumes "srv_ok (sv, live)" "sv_runs sv' = sv_runs sv" "sv_chans sv' = sv_chans sv" "cache_ok (sv_cache sv')"
    "sv_db sv' \<noteq> None"
  shows "srv_ok (sv', live)"
  using assms by (simp add: srv_ok_def server_inv_def chan_at_def)

lemma srv_ok_cache: "srv_ok (sv, live) \<Longrightarrow> cache_ok (sv_cache sv) \<and> sv_db sv \<noteq> None \<and> server_inv sv"
  by (simp add: srv_ok_def server_inv_def)

lemma srv_ok_handle:
  assumes ok: "srv_ok (sv, live)" and l: "(r, a) \<in> set live"
    and h: "handleClientMessage out r a m sv = Ret (res, sv')"
  shows "srv_ok (sv', live)"
proof -
  obtain s where inv: "server_inv sv" and a: "a < length (sv_chans sv)" and s: "rc_stream (chan_at a sv) = Some s"
    and db: "sv_db sv \<noteq> None" using srv_ok_live [OF ok l] by blast
  from h have room: "room_for (chan_at a sv) (length (forwarded m))" and d: "message_done out r a s m sv res sv'"
    using message_step [OF inv a s db, of m out r] by (auto split: if_splits)
  show ?thesis
  proof (rule srv_ok_kept [OF ok message_done_inv [OF inv a room d]])
    show "kept (chan_at b sv) (chan_at b sv')" for b
      using message_done_chan [OF a d, of b] by simp
  qed (use d db in \<open>auto simp: message_done_def\<close>)
qed

lemma chan_at_runs [simp]: "chan_at b (sv\<lparr>sv_runs := rs\<rparr>) = chan_at b sv"
  by (simp add: chan_at_def)

lemma srv_ok_register:
  assumes ok: "srv_ok (sv, live)"
  shows "srv_ok (snd (RegisterRun r sv), live)"
proof (rule srv_ok_kept [OF ok RegisterRun_inv])
  show "server_inv sv" using ok by (simp add: srv_ok_def)
  show "sv_db (snd (RegisterRun r sv)) \<noteq> None" using ok by (simp add: srv_ok_def RegisterRun_def)
qed (simp_all add: RegisterRun_def chan_at_def nth_append newRunChannel_def)

lemma srv_step_ok:
  assumes ok: "srv_ok x" and step: "srv_step out x y"
  shows "srv_ok y"
  using step ok
proof (cases rule: srv_step.cases)
  case (srv_register sv live r)
  with ok show ?thesis using srv_ok_register by blast
next
  case (srv_unregister r sv sv' live)
  with ok have inv: "server_inv sv" and ok': "srv_ok (sv, live)" by (auto simp: srv_ok_def)
  have "server_inv sv'" using UnregisterRun_inv [OF inv] srv_unregister by blast
  then show ?thesis unfolding srv_unregister(2)
  proof (rule srv_ok_kept [OF ok'])
    show "kept (chan_at b sv) (chan_at b sv')" if "b < length (sv_chans sv)" for b
    proof (cases "sv_runs sv r")
      case None
      then show ?thesis using srv_unregister(3) by (simp add: UnregisterRun_Ret [OF inv])
    next
      case (Some a)
      then have "a < length (sv_chans sv)" using server_invD(2) [OF inv] by simp
      with Some show ?thesis
        using srv_unregister(3) chan_at_set_chan [of a sv b]
        by (cases "b = a") (auto simp: UnregisterRun_Ret [OF inv] kept_def)
    qed
  qed (use srv_unregister(3) srv_ok_cache [OF ok'] in
      \<open>auto simp: UnregisterRun_Ret [OF inv] chan_at_def set_chan_def split: option.splits\<close>)
next
  case (srv_connect sv r a s xs sv' live)
  with ok have inv: "server_inv sv" and ok': "srv_ok (sv, live)" by (auto simp: srv_ok_def)
  have "sv' = set_chan a (connected s (chan_at a sv)) sv"
    using srv_connect(5) by (simp add: execute_connect_Ret [OF inv srv_connect(3)])
  then have "srv_ok (sv', (r, a) # live)" using srv_ok_connect [OF ok' srv_connect(3,4)] by simp
  then show ?thesis unfolding srv_connect(2)
    by (rule srv_ok_same_chans) (use srv_ok_cache [OF \<open>srv_ok (sv', (r, a) # live)\<close>] in \<open>simp_all add: client_connected_def\<close>)
next
  case (srv_handle r a live m sv res sv')
  with ok show ?thesis using srv_ok_handle by blast
next
  case (srv_end r a live sv sv')
  with ok show ?thesis using srv_ok_end by blast
next
  case (srv_status r st sv sv' live)
  with ok show ?thesis
    by (auto simp: TrySendStatus_def intro: srv_ok_try_send dest: server_invD(2) srv_ok_cache split: option.splits)
next
  case (srv_error r msg sv sv' live)
  with ok show ?thesis
    by (auto simp: TrySendError_def intro: srv_ok_try_send dest: server_invD(2) srv_ok_cache split: option.splits)
next
  case (srv_start sv live r ps)
  with ok srv_ok_cache [of sv live] show ?thesis
    by (auto intro!: srv_ok_same_chans [of sv] simp: SendStart_def send_imperative_frame)
next
  case (srv_cancel sv live r)
  with ok srv_ok_cache [of sv live] show ?thesis
    by (auto intro!: srv_ok_same_chans [of sv] simp: SendCancel_def send_imperative_frame)
next
  case (srv_recv a sv m c live)
  with ok have inv: "server_inv sv" and ok': "srv_ok (sv, live)" by (auto simp: srv_ok_def)
  show ?thesis unfolding srv_recv(2)
    using recv_inv [OF server_invD(1) [OF inv srv_recv(3)] srv_recv(4)] ran_not_done [OF inv]
    by (intro srv_ok_set_chan [OF ok' srv_recv(3)]) (auto simp: kept_def)
next
  case (srv_dialog sv live)
  with ok srv_ok_cache [of sv live] show ?thesis
    by (auto intro!: srv_ok_same_chans [of sv] simp: SetDialogHandler_def)
qed

definition srv_init :: "'d server \<times> (run_id \<times> nat) list \<Rightarrow> bool" where
  "srv_init x \<longleftrightarrow> (\<exists>cache db rsv. x = (NewGRPCServer cache (Some db) rsv, []) \<and> cache_ok cache)"

interpretation srv: inv_system srv_init "srv_step out" srv_ok for out :: "'d outside"
proof
  show "srv_ok x" if "srv_init x" for x :: "'d server \<times> (run_id \<times> nat) list"
    using that by (auto simp: srv_init_def srv_ok_def NewGRPCServer_def server_inv_def)
  show "srv_ok y" if "srv_ok x" "srv_step out x y" for x y :: "'d server \<times> (run_id \<times> nat) list"
    using that by (rule srv_step_ok)
qed

lemma Execute_session:
  assumes "awaiting r a sv" and "Execute out s (Some (r # xs)) ms ended sv = Ret (res, sv')"
  shows "\<exists>handled rest replies.
     ms = handled @ rest \<and> (res = None \<longrightarrow> rest = []) \<and>
     chan_at a sv' = (fold absorb handled (connected s (chan_at a sv)))\<lparr>rc_streamDone :=
       (rc_streamDone (chan_at a sv))\<lparr>ch_closed := True\<rparr>\<rparr> \<and>
     sv_runs sv' = sv_runs sv \<and> (\<forall>b. b \<noteq> a \<longrightarrow> chan_at b sv' = chan_at b sv) \<and>
     cache_holders (sv_cache sv') = holders_after r handled (cache_holders (sv_cache sv)) \<and>
     sv_wire sv' = sv_wire sv @ map (Pair s) replies \<and>
     (if res = None
      then list_all2 answers (filter is_request handled) replies \<and>
           concat (map reply_ack replies) = cache_acks r handled (cache_holders (sv_cache sv))
      else handled \<noteq> [] \<and> is_request (last handled) \<and> list_all2 answers (filter is_request (butlast handled)) replies)"
proof -
  let ?ch = "connected s (chan_at a sv)" and ?sv = "set_chan a (connected s (chan_at a sv)) sv"
  from assms(1) have w: "server_inv sv" "sv_runs sv r = Some a" "a < length (sv_chans sv)"
    by (auto simp: awaiting_def server_inv_def)
  obtain sv2 where sv2: "serve out r a ms ended (client_connected out r ?sv) = Ret (res, sv2)"
    and done_: "stream_done a sv2 = Ret sv'"
    using assms(2) unfolding Execute_unfold [OF w(1,2)] by (auto simp: go_bind_eq_Ret)
  have "can_serve a s (client_connected out r ?sv)"
    using connected_can_serve [OF assms(1)] by (simp add: client_connected_def)
  from serve_session [OF this sv2] obtain handled rest where h: "ms = handled @ rest" "res = None \<longrightarrow> rest = []"
    and ses: "session r a s (client_connected out r ?sv) handled res sv2" by blast
  have cc: "sv_chans (client_connected out r ?sv) = (sv_chans sv)[a := ?ch]"
    "sv_runs (client_connected out r ?sv) = sv_runs sv" "sv_wire (client_connected out r ?sv) = sv_wire sv"
    "sv_cache (client_connected out r ?sv) = sv_cache sv"
    "chan_at a (client_connected out r ?sv) = ?ch"
    using w(3) by (simp_all add: client_connected_def set_chan_def chan_at_def)
  from ses have sv2c: "sv_chans sv2 = (sv_chans sv)[a := fold absorb handled ?ch]"
    "sv_runs sv2 = sv_runs sv" "cache_holders (sv_cache sv2) = holders_after r handled (cache_holders (sv_cache sv))"
    by (simp_all add: session_def cc)
  have sv'c: "sv_chans sv' = (sv_chans sv)[a := (fold absorb handled ?ch)\<lparr>rc_streamDone :=
       (rc_streamDone (chan_at a sv))\<lparr>ch_closed := True\<rparr>\<rparr>]" "sv_runs sv' = sv_runs sv2"
    "sv_wire sv' = sv_wire sv2" "sv_cache sv' = sv_cache sv2"
    using done_ w(3) by (auto simp: stream_done_Ret chan_at_def sv2c set_chan_def fold_absorb_simple split: if_splits)
  have chan: "chan_at a sv' = (fold absorb handled ?ch)\<lparr>rc_streamDone :=
       (rc_streamDone (chan_at a sv))\<lparr>ch_closed := True\<rparr>\<rparr>" "\<And>b. b \<noteq> a \<Longrightarrow> chan_at b sv' = chan_at b sv"
    using w(3) by (simp_all add: chan_at_def sv'c(1))
  obtain replies where rep: "sv_wire sv' = sv_wire sv @ map (Pair s) replies"
    "if res = None
     then list_all2 answers (filter is_request handled) replies \<and>
          concat (map reply_ack replies) = cache_acks r handled (cache_holders (sv_cache sv))
     else handled \<noteq> [] \<and> is_request (last handled) \<and> list_all2 answers (filter is_request (butlast handled)) replies"
    using ses unfolding session_def cc sv'c(3) by (metis (no_types, lifting))
  show ?thesis
    by (intro exI [of _ handled] exI [of _ rest] exI [of _ replies] conjI h allI impI chan rep)
      (simp_all add: sv'c sv2c)
qed

lemma fold_absorb_gotError:
  "rc_gotError (fold absorb ms ch) \<longleftrightarrow> rc_gotError ch \<or> last_error ms \<noteq> None"
proof (induction ms arbitrary: ch)
  case (Cons m ms)
  show ?case
    unfolding fold.simps o_apply Cons.IH absorb_error(2) last_error_Cons [of m ms] by (auto simp: or_else_def split: option.splits)
qed simp

subsection \<open>Properties\<close>

text \<open>C5: What a client session leaves behind. When \<open>Execute\<close> returns for a registered run,
  it has handled a prefix of what the client sent, all of it unless a send failed. The
  consumer's channel gained exactly the forwarded messages of that prefix, in order (output,
  progress and errors; a status is never forwarded); Python's reported status is the first
  terminal one; the recorded error is the last one; the stream is done and the phase connected.
  Every request that went through was answered by exactly one reply of its kind, in order,
  with nothing else on the wire, and each cache reply's yes or no, like the final holders of
  every key, is what the specification of the registry computes from the run's operations.\<close>

theorem execute_transcript:
  assumes "awaiting r a sv" and "Execute out s (Some (r # xs)) ms ended sv = Ret (res, sv')"
  shows "\<exists>handled rest replies.
     ms = handled @ rest \<and> (res = None \<longrightarrow> rest = []) \<and>
     ch_buf (rc_Messages (chan_at a sv')) = ch_buf (rc_Messages (chan_at a sv)) @ concat (map forwarded handled) \<and>
     rc_pythonStatus (chan_at a sv') = or_else (rc_pythonStatus (chan_at a sv)) (first_status handled) \<and>
     rc_errorMessage (chan_at a sv') = or_else (last_error handled) (rc_errorMessage (chan_at a sv)) \<and>
     rc_phase (chan_at a sv') = PhaseConnected \<and> ch_closed (rc_streamDone (chan_at a sv')) \<and>
     sv_runs sv' = sv_runs sv \<and> (\<forall>b. b \<noteq> a \<longrightarrow> chan_at b sv' = chan_at b sv) \<and>
     cache_holders (sv_cache sv') = holders_after r handled (cache_holders (sv_cache sv)) \<and>
     sv_wire sv' = sv_wire sv @ map (Pair s) replies \<and>
     (if res = None
      then list_all2 answers (filter is_request handled) replies \<and>
           concat (map reply_ack replies) = cache_acks r handled (cache_holders (sv_cache sv))
      else handled \<noteq> [] \<and> is_request (last handled) \<and> list_all2 answers (filter is_request (butlast handled)) replies)"
proof -
  obtain handled rest replies where h: "ms = handled @ rest" "res = None \<longrightarrow> rest = []"
    and chan: "chan_at a sv' = (fold absorb handled (connected s (chan_at a sv)))\<lparr>rc_streamDone :=
       (rc_streamDone (chan_at a sv))\<lparr>ch_closed := True\<rparr>\<rparr>" "\<forall>b. b \<noteq> a \<longrightarrow> chan_at b sv' = chan_at b sv"
    and rest: "sv_runs sv' = sv_runs sv"
      "cache_holders (sv_cache sv') = holders_after r handled (cache_holders (sv_cache sv))"
      "sv_wire sv' = sv_wire sv @ map (Pair s) replies"
      "if res = None
       then list_all2 answers (filter is_request handled) replies \<and>
            concat (map reply_ack replies) = cache_acks r handled (cache_holders (sv_cache sv))
       else handled \<noteq> [] \<and> is_request (last handled) \<and> list_all2 answers (filter is_request (butlast handled)) replies"
    using Execute_session [OF assms] by blast
  show ?thesis
    by (intro exI [of _ handled] exI [of _ rest] exI [of _ replies] conjI h rest chan(2))
      (simp_all add: chan(1) fold_absorb_simple fold_absorb_buf fold_absorb_status fold_absorb_error)
qed

text \<open>\<open>Execute\<close> returns, whatever the client sends and whatever the transport, the
  dialogs and the database answer, as long as the messages it has to forward fit in the
  channel's buffer: no handler panics and none waits for anything else. A session for a run
  nobody registered, or without a run id, returns an error and touches nothing.\<close>

theorem execute_returns:
  "(awaiting r a sv \<and>
    length (ch_buf (rc_Messages (chan_at a sv))) + length (concat (map forwarded ms)) \<le> messageBufferSize \<longrightarrow>
      (\<exists>res sv'. Execute out s (Some (r # xs)) ms ended sv = Ret (res, sv'))) \<and>
   (sv_runs sv r = None \<longrightarrow>
      Execute out s (Some (r # xs)) ms ended sv = Ret (Some (Errorf (''unknown run ID: '' @ r) None), sv)) \<and>
   (\<exists>e. Execute out s None ms ended sv = Ret (Some e, sv)) \<and>
   (\<exists>e. Execute out s (Some []) ms ended sv = Ret (Some e, sv))"
  using Execute_Ret [of r a sv ms out s xs ended] by (auto simp: Execute_def execute_connect_def)

text \<open>A second session with the id of a run that is still registered crashes the server:
  it is accepted like the first, and when it ends, the deferred close of \<open>streamDone\<close>, which
  the first session has closed, panics.\<close>

theorem second_execute_panics:
  assumes "awaiting r a sv" and "Execute out s (Some (r # xs)) ms ended sv = Ret (res, sv1)"
  shows "Execute out s2 (Some (r # ys)) [] ended2 sv1 = Panic ''close of closed channel''"
proof -
  let ?sv = "set_chan a (connected s (chan_at a sv)) sv"
  from assms(1) have w: "server_inv sv" "sv_runs sv r = Some a" "a < length (sv_chans sv)"
    by (auto simp: awaiting_def server_inv_def)
  obtain sv2 where sv2: "serve out r a ms ended (client_connected out r ?sv) = Ret (res, sv2)"
    and done_: "stream_done a sv2 = Ret sv1"
    using assms(2) unfolding Execute_unfold [OF w(1,2)] by (auto simp: go_bind_eq_Ret)
  have cs: "can_serve a s (client_connected out r ?sv)"
    using connected_can_serve [OF assms(1)] by (simp add: client_connected_def)
  from serve_session [OF cs sv2] obtain handled where
    ses: "session r a s (client_connected out r ?sv) handled res sv2" and cs2: "can_serve a s sv2" by blast
  have runs: "sv_runs sv1 r = Some a" and closed: "ch_closed (rc_streamDone (chan_at a sv1))"
    and alen: "a < length (sv_chans sv1)"
    using done_ ses w(2) cs2
    by (auto simp: stream_done_Ret session_def client_connected_def can_serve_def chan_at_set_chan split: if_splits)
  have "server_inv sv1"
  proof -
    let ?c = "chan_at a sv2\<lparr>rc_streamDone := (rc_streamDone (chan_at a sv2))\<lparr>ch_closed := True\<rparr>\<rparr>"
    have eq: "sv1 = set_chan a ?c sv2" using done_ by (simp add: stream_done_Ret split: if_splits)
    have "closeStreamDone (chan_at a sv2) = Ret ?c"
      using done_ by (simp add: stream_done_Ret closeStreamDone_def chan_close_def split: if_splits)
    with cs2 have "rc_inv ?c" by (auto simp: can_serve_def server_inv_def intro: closeStreamDone_inv)
    moreover have "rc_phase ?c \<noteq> PhaseDone"
      using cs2 ses w(2) by (auto simp: can_serve_def session_def client_connected_def server_inv_def)
    ultimately show ?thesis
      using cs2 unfolding eq by (intro set_chan_inv) (auto simp: can_serve_def)
  qed
  from Execute_unfold [OF this runs] closed alen show ?thesis
    by (simp add: client_connected_def stream_done_Ret chan_at_set_chan)
qed

text \<open>A dialog request always ends in exactly one outcome. A cancellation, which is what a
  missing handler, an empty path and a dialog error that is or wraps
  \<open>ErrDialogCancelled\<close> all mean, is silent; a path is handed on as the single selection; and
  only a genuine dialog failure is an error outcome with its text, which is logged and, with
  an app wired, shown. The handler is asked exactly once, for a save only when a save was asked.\<close>

theorem dialog_outcomes:
  assumes s: "rc_stream (chan_at a sv) = Some s"
    and call: "call = (if k = DIALOG_KIND_SAVE then SaveFile t d f fs else OpenFile t d fs)"
    and ask: "ox_dialog out (length (sv_asks sv)) call = (path, err)"
  shows "\<exists>res sv2. handleFileDialog out r a k t fs d f sv =
       Ret (stream_Send out s (ServerMessage_FileDialogResponse res) sv2) \<and>
     sv_asks sv2 = sv_asks sv @ (if sv_dialog sv then [call] else []) \<and>
     (res = Outcome_Cancelled \<longleftrightarrow>
        \<not> sv_dialog sv \<or> (case err of Some e \<Rightarrow> error_is e ErrDialogCancelled | None \<Rightarrow> path = [])) \<and>
     (\<forall>ps. res = Outcome_Selected ps \<longleftrightarrow> sv_dialog sv \<and> err = None \<and> path \<noteq> [] \<and> ps = [path]) \<and>
     (\<forall>e. res = Outcome_Error e \<longleftrightarrow>
        sv_dialog sv \<and> (\<exists>x. err = Some x \<and> \<not> error_is x ErrDialogCancelled \<and> e = error_text x)) \<and>
     length (rv_log (sv_rsv sv2)) = length (rv_log (sv_rsv sv)) + (case res of Outcome_Error e \<Rightarrow> 1 | _ \<Rightarrow> 0) \<and>
     length (rv_emits (sv_rsv sv2)) = length (rv_emits (sv_rsv sv)) +
       (case res of Outcome_Error e \<Rightarrow> (if rv_app (sv_rsv sv) then 1 else 0) | _ \<Rightarrow> 0)"
proof (cases "sv_dialog sv")
  case False
  then show ?thesis
    by (intro exI [of _ Outcome_Cancelled] exI [of _ sv])
      (simp add: handleFileDialog_def cancelledDialog_def streamSend_Some [OF s])
next
  case True
  let ?sv1 = "sv\<lparr>sv_asks := sv_asks sv @ [call]\<rparr>"
  have eq: "handleFileDialog out r a k t fs d f sv =
      (let (outcome, sv2) =
         (case err of
            Some e \<Rightarrow>
              if error_is e ErrDialogCancelled then (Outcome_Cancelled, ?sv1)
              else (Outcome_Error (error_text e),
                    report out (backend_event SeverityError PersistenceOneShot ''File dialog failed''
                      (error_text e) (Some e) r) ?sv1)
          | None \<Rightarrow> if path = [] then (Outcome_Cancelled, ?sv1) else (Outcome_Selected [path], ?sv1))
       in streamSend out a (ServerMessage_FileDialogResponse outcome) sv2)"
    using True ask by (simp add: handleFileDialog_def ask_dialog_def call [symmetric])
  show ?thesis
  proof (cases err)
    case None
    then show ?thesis
      by (intro exI [of _ "if path = [] then Outcome_Cancelled else Outcome_Selected [path]"] exI [of _ ?sv1])
        (use True in \<open>auto simp: eq streamSend_Some [OF s]\<close>)
  next
    case (Some e)
    show ?thesis
    proof (cases "error_is e ErrDialogCancelled")
      case cancelled: True
      then show ?thesis
        by (intro exI [of _ Outcome_Cancelled] exI [of _ ?sv1])
          (use True Some in \<open>auto simp: eq streamSend_Some [OF s]\<close>)
    next
      case failed: False
      let ?ev = "backend_event SeverityError PersistenceOneShot ''File dialog failed'' (error_text e) (Some e) r"
      have log: "length (rv_log (Report (ox_env out) ?ev (sv_rsv sv))) = Suc (length (rv_log (sv_rsv sv)))"
        using arg_cong [OF Report_fields(2) [of "ox_env out" ?ev "sv_rsv sv"], of length] by simp
      have em: "length (rv_emits (Report (ox_env out) ?ev (sv_rsv sv))) =
          length (rv_emits (sv_rsv sv)) + (if rv_app (sv_rsv sv) then 1 else 0)"
        by (simp add: Report_fields(4) route_def backend_event_def)
      from failed show ?thesis
        by (intro exI [of _ "Outcome_Error (error_text e)"] exI [of _ "report out ?ev ?sv1"])
          (use True Some log em in \<open>auto simp: eq streamSend_Some [OF s]\<close>)
    qed
  qed
qed

lemma scan_rows_ok:
  assumes "scan_rows sd n rows acc = (rs, [])" and "\<And>row e. sd_scanTexts sd n row = Inl e \<Longrightarrow> error_text e \<noteq> []"
  shows "\<exists>new. rs = acc @ new \<and>
     list_all2 (\<lambda>row vals. \<exists>vs. sd_scanTexts sd n row = Inr vs \<and> vals = map null_string vs) rows new"
  using assms(1)
proof (induction rows arbitrary: acc)
  case (Cons row rows)
  then obtain vs where vs: "sd_scanTexts sd n row = Inr vs"
    using assms(2) by (cases "sd_scanTexts sd n row") auto
  with Cons.prems Cons.IH [of "acc @ [map null_string vs]"] obtain new where
    "rs = acc @ [map null_string vs] @ new"
    "list_all2 (\<lambda>row vals. \<exists>vs. sd_scanTexts sd n row = Inr vs \<and> vals = map null_string vs) rows new" by auto
  with vs show ?case by (intro exI [of _ "map null_string vs # new"]) simp
qed simp

lemma scan_rows_shape:
  "scan_rows sd n rows acc = (rs, err) \<Longrightarrow> \<forall>row \<in> set acc. length row = n \<Longrightarrow>
     (\<And>row vs. sd_scanTexts sd n row = Inr vs \<Longrightarrow> length vs = n) \<Longrightarrow> \<forall>row \<in> set rs. length row = n"
  by (induction rows arbitrary: acc) (fastforce split: sum.splits)+

text \<open>A query is answered with a rectangular table, and an answer without an error text is
  complete: the query ran, its columns are the ones sent, no row failed to scan and the
  iteration ended cleanly, and the rows sent are all the rows of the result, in order, with
  NULL as the empty string.\<close>

theorem query_answers_complete:
  assumes s: "rc_stream (chan_at a sv) = Some s" and db: "sv_db sv = Some db"
    and widths: "\<And>n row vs. sd_scanTexts (ox_sql out) n row = Inr vs \<Longrightarrow> length vs = n"
    and texts: "\<And>e. (\<exists>n row. sd_scanTexts (ox_sql out) n row = Inl e) \<or>
       (\<exists>q ps d rows. fst (sd_query (ox_sql out) q ps d) = Inl e \<or>
          fst (sd_query (ox_sql out) q ps d) = Inr rows \<and> (rw_Err rows = Some e \<or> rw_Columns rows = Inl e)) \<Longrightarrow>
       error_text e \<noteq> []"
  shows "\<exists>cols rs err sv2. handleDbQuery out r a sql ps sv =
       Ret (stream_Send out s (ServerMessage_DbQueryResponse cols rs err) sv2) \<and>
     (\<forall>row \<in> set rs. length row = length cols) \<and>
     (err = [] \<longrightarrow> (\<exists>rows. fst (sd_query (ox_sql out) sql (map SqlText ps) db) = Inr rows \<and>
        rw_Columns rows = Inr cols \<and> rw_Err rows = None \<and>
        list_all2 (\<lambda>row vals. \<exists>vs. sd_scanTexts (ox_sql out) (length cols) row = Inr vs \<and> vals = map null_string vs)
          (rw_Rows rows) rs))"
proof -
  obtain res db' where q: "sd_query (ox_sql out) sql (map SqlText ps) db = (res, db')" by force
  let ?sv = "sv\<lparr>sv_db := Some db'\<rparr>"
  have send: "streamSend out a m ?sv = Ret (stream_Send out s m ?sv)"
    "streamSend out a m (report out ev ?sv) = Ret (stream_Send out s m (report out ev ?sv))" for m ev
    by (rule streamSend_Some [OF s]; simp add: db)+
  show ?thesis
  proof (cases res)
    case (Inl e)
    then have "error_text e \<noteq> []" using q by (intro texts) (metis fst_conv)
    with Inl show ?thesis
      by (intro exI [of _ "[]"] exI [of _ "[]"] exI [of _ "error_text e"]) (auto simp: handleDbQuery_def db q send)
  next
    case rows: (Inr rows)
    show ?thesis
    proof (cases "rw_Columns rows")
      case (Inl e)
      then have "error_text e \<noteq> []" using q rows by (intro texts) (metis fst_conv)
      with Inl rows show ?thesis
        by (intro exI [of _ "[]"] exI [of _ "[]"] exI [of _ "error_text e"])
          (auto simp: handleDbQuery_def db q send read_rows_def split: option.splits)
    next
      case (Inr cols)
      obtain rs err where rr: "read_rows (ox_sql out) rows cols [] = (rs, err)" by force
      obtain rs0 err0 where sc0: "scan_rows (ox_sql out) (length cols) (rw_Rows rows) [] = (rs0, err0)" by force
      with rr have sc: "scan_rows (ox_sql out) (length cols) (rw_Rows rows) [] = (rs, err0)"
        and err: "err = (case rw_Err rows of Some e \<Rightarrow> if err0 = [] then error_text e else err0 | None \<Rightarrow> err0)"
        by (simp_all add: read_rows_def)
      have shape: "\<forall>row \<in> set rs. length row = length cols"
        using scan_rows_shape [OF sc] widths by simp
      have none: "rw_Err rows = None" "err0 = []" if "err = []"
      proof -
        have "error_text e \<noteq> []" if "rw_Err rows = Some e" for e
          using q rows that by (intro texts) (metis fst_conv)
        then show "rw_Err rows = None" "err0 = []"
          using that err by (auto split: option.splits if_splits)
      qed
      have all: "list_all2 (\<lambda>row vals. \<exists>vs. sd_scanTexts (ox_sql out) (length cols) row = Inr vs \<and>
          vals = map null_string vs) (rw_Rows rows) rs" if "err = []"
      proof -
        have "error_text e \<noteq> []" if "sd_scanTexts (ox_sql out) (length cols) row = Inl e" for row e
          using that by (intro texts) blast
        moreover have "scan_rows (ox_sql out) (length cols) (rw_Rows rows) [] = (rs, [])"
          using sc none(2) [OF that] by simp
        ultimately show ?thesis using scan_rows_ok [of "ox_sql out" "length cols" "rw_Rows rows" "[]" rs] by simp
      qed
      have "handleDbQuery out r a sql ps sv =
          Ret (stream_Send out s (ServerMessage_DbQueryResponse cols rs err) ?sv)"
        by (simp add: handleDbQuery_def db q rows Inr rr send)
      then show ?thesis
        by (intro exI [of _ cols] exI [of _ rs] exI [of _ err] exI [of _ ?sv] conjI impI exI [of _ rows])
          (use shape all none(1) q rows Inr in simp_all)
    qed
  qed
qed

text \<open>C6: However registrations, sessions, sends, final statuses and unregistrations of all runs
  interleave, the server never panics, as long as no run's client connects twice: a live
  handler can handle any message (it may only wait for room in its channel) and can end its
  stream, any run can be unregistered at any time, and the manager's sends to any run are
  safe, before, during and after the run.\<close>

theorem server_never_panics:
  assumes "reach srv_init (srv_step out) (sv, live)"
  shows "(\<forall>r a m. (r, a) \<in> set live \<longrightarrow>
            handleClientMessage out r a m sv = Block \<or> (\<exists>x. handleClientMessage out r a m sv = Ret x)) \<and>
         (\<forall>r a. (r, a) \<in> set live \<longrightarrow> (\<exists>sv'. stream_done a sv = Ret sv')) \<and>
         (\<forall>r. \<exists>sv'. UnregisterRun r sv = Ret sv' \<and> sv_runs sv' r = None) \<and>
         (\<forall>r st. TrySendStatus r st sv = Block \<or> (\<exists>sv'. TrySendStatus r st sv = Ret sv')) \<and>
         (\<forall>r msg. TrySendError r msg sv = Block \<or> (\<exists>sv'. TrySendError r msg sv = Ret sv'))"
proof (intro conjI allI impI)
  have ok: "srv_ok (sv, live)" using assms by (rule srv.reach_inv)
  then have inv: "server_inv sv" by (simp add: srv_ok_def)
  fix r :: run_id and a m
  show "handleClientMessage out r a m sv = Block \<or> (\<exists>x. handleClientMessage out r a m sv = Ret x)"
    if l: "(r, a) \<in> set live"
  proof -
    obtain s where "a < length (sv_chans sv)" "rc_stream (chan_at a sv) = Some s" "sv_db sv \<noteq> None"
      using srv_ok_live [OF ok l] by blast
    from message_step [OF inv this, of m out r] show ?thesis by (auto split: if_splits)
  qed
  show "\<exists>sv'. stream_done a sv = Ret sv'" if "(r, a) \<in> set live"
    using srv_ok_live [OF ok that] by (auto simp: stream_done_Ret)
  show "\<exists>sv'. UnregisterRun r sv = Ret sv' \<and> sv_runs sv' r = None"
    by (simp add: UnregisterRun_Ret [OF inv] split: option.split)
  fix st msg :: string
  show "TrySendStatus r st sv = Block \<or> (\<exists>sv'. TrySendStatus r st sv = Ret sv')"
    by (auto simp: TrySendStatus_def try_send_at_deliver [OF inv server_invD(2) [OF inv]] split: option.split)
  show "TrySendError r msg sv = Block \<or> (\<exists>sv'. TrySendError r msg sv = Ret sv')"
    by (auto simp: TrySendError_def try_send_at_deliver [OF inv server_invD(2) [OF inv]] split: option.split)
qed

subsection \<open>Witnesses\<close>

definition test_sql :: "unit sqldriver" where
  "test_sql = \<lparr>sd_open = (\<lambda>_. Inr ()),
     sd_exec = (\<lambda>_ _ d. (Inr \<lparr>er_RowsAffected = Inr 1, er_LastInsertId = Inr 7\<rparr>, d)),
     sd_query = (\<lambda>_ _ d. (Inr \<lparr>rw_Columns = Inr [''id''], rw_Rows = [[Some ''a''], [None]], rw_Err = None\<rparr>, d)),
     sd_ping = (\<lambda>_. None), sd_close = (\<lambda>d. d),
     sd_scanTexts = (\<lambda>n row. if length row = n then Inr row else Inl (Errorf ''columns'' None)),
     sd_scanTimes = (\<lambda>_. Inl (Errorf ''not a run'' None))\<rparr>"

definition test_out :: "unit outside" where
  "test_out = \<lparr>ox_env = test_env, ox_sql = test_sql, ox_quote = (\<lambda>s. [CHR 0x22] @ s @ [CHR 0x22]),
     ox_send = (\<lambda>_ _. None), ox_dialog = (\<lambda>_ _. (''/tmp/a.csv'', None))\<rparr>"

definition fresh_server :: "unit server" where
  "fresh_server = NewGRPCServer (NewCacheManager False {}) (Some ()) newReservoir"

definition one_run :: "unit server" where
  "one_run = snd (RegisterRun ''r1'' fresh_server)"

definition test_msgs :: "ClientMessage list" where
  "test_msgs = [ClientMessage_Output ''hello'', ClientMessage_CacheCreate ''k'' 8 ''psm_1'',
     ClientMessage_CacheLookup ''k'', ClientMessage_Status ''completed'']"

lemma fresh_server_inv: "server_inv fresh_server"
  by (simp add: fresh_server_def server_inv_def NewGRPCServer_def NewCacheManager_ok)

lemma one_run_awaiting: "awaiting ''r1'' 0 one_run"
  using RegisterRun_inv [OF fresh_server_inv, of "''r1''"]
  by (simp add: awaiting_def one_run_def)
    (simp add: RegisterRun_def fresh_server_def NewGRPCServer_def chan_at_def newRunChannel_def)

lemma one_run_executes:
  "\<exists>res sv'. Execute test_out 5 (Some [''r1'']) test_msgs (Errorf ''EOF'' None) one_run = Ret (res, sv')"
  by (rule Execute_Ret [OF one_run_awaiting])
    (simp add: one_run_def RegisterRun_def fresh_server_def NewGRPCServer_def chan_at_def newRunChannel_def test_msgs_def)

lemma execute_transcript_witness:
  "\<exists>res sv' handled. Execute test_out 5 (Some [''r1'']) test_msgs (Errorf ''EOF'' None) one_run = Ret (res, sv') \<and>
     prefix handled test_msgs \<and> rc_pythonStatus (chan_at 0 sv') = first_status handled"
proof -
  obtain res sv' where e: "Execute test_out 5 (Some [''r1'']) test_msgs (Errorf ''EOF'' None) one_run = Ret (res, sv')"
    using one_run_executes by blast
  have "rc_pythonStatus (chan_at 0 one_run) = None"
    by (simp add: one_run_def RegisterRun_def fresh_server_def NewGRPCServer_def chan_at_def newRunChannel_def)
  with execute_transcript [OF one_run_awaiting e] e show ?thesis
    by (auto simp: prefix_def)
qed

lemma execute_returns_witness:
  "\<exists>res sv'. Execute test_out 5 (Some [''r1'']) test_msgs (Errorf ''EOF'' None) one_run = Ret (res, sv')"
proof -
  have "awaiting ''r1'' 0 one_run \<and> length (ch_buf (rc_Messages (chan_at 0 one_run))) +
      length (concat (map forwarded test_msgs)) \<le> messageBufferSize"
    using one_run_awaiting
    by (simp add: one_run_def RegisterRun_def fresh_server_def NewGRPCServer_def chan_at_def newRunChannel_def test_msgs_def)
  with execute_returns [of "''r1''" 0 one_run test_msgs test_out 5 "[]" "Errorf ''EOF'' None"]
  show ?thesis by blast
qed

lemma second_execute_panics_witness:
  "\<exists>res sv1. Execute test_out 5 (Some [''r1'']) test_msgs (Errorf ''EOF'' None) one_run = Ret (res, sv1) \<and>
     Execute test_out 6 (Some [''r1'']) [] (Errorf ''EOF'' None) sv1 = Panic ''close of closed channel''"
proof -
  obtain res sv1 where e: "Execute test_out 5 (Some [''r1'']) test_msgs (Errorf ''EOF'' None) one_run = Ret (res, sv1)"
    using one_run_executes by blast
  with second_execute_panics [OF one_run_awaiting e] show ?thesis by blast
qed

definition dialog_server :: "unit server" where
  "dialog_server = SetDialogHandler (set_chan 0 (newRunChannel\<lparr>rc_stream := Some 5\<rparr>) one_run)"

lemma dialog_server_stream: "rc_stream (chan_at 0 dialog_server) = Some 5"
  by (simp add: dialog_server_def SetDialogHandler_def set_chan_def one_run_def RegisterRun_def fresh_server_def
      NewGRPCServer_def chan_at_def)

lemma dialog_outcomes_witness:
  "\<exists>sv2. handleFileDialog test_out ''r1'' 0 1 ''Open'' [] ''/tmp'' [] dialog_server =
     Ret (stream_Send test_out 5 (ServerMessage_FileDialogResponse (Outcome_Selected [''/tmp/a.csv''])) sv2) \<and>
     sv_asks sv2 = [OpenFile ''Open'' ''/tmp'' []]"
proof -
  have set: "sv_dialog dialog_server" "sv_asks dialog_server = []"
    by (simp_all add: dialog_server_def SetDialogHandler_def one_run_def RegisterRun_def
        fresh_server_def NewGRPCServer_def)
  have call: "OpenFile ''Open'' ''/tmp'' [] = (if (1::int) = DIALOG_KIND_SAVE
      then SaveFile ''Open'' ''/tmp'' [] [] else OpenFile ''Open'' ''/tmp'' [])" by simp
  have ask: "ox_dialog test_out (length (sv_asks dialog_server)) (OpenFile ''Open'' ''/tmp'' []) = (''/tmp/a.csv'', None)"
    by (simp add: test_out_def)
  obtain res sv2 where h: "handleFileDialog test_out ''r1'' 0 1 ''Open'' [] ''/tmp'' [] dialog_server =
       Ret (stream_Send test_out 5 (ServerMessage_FileDialogResponse res) sv2)"
    and "sv_asks sv2 = [OpenFile ''Open'' ''/tmp'' []]"
    and "\<forall>ps. res = Outcome_Selected ps \<longleftrightarrow> ps = [''/tmp/a.csv'']"
    using dialog_outcomes [OF dialog_server_stream call ask, of "''r1''"] set by auto
  then show ?thesis by metis
qed

lemma query_answers_complete_witness:
  "\<exists>cols rs err sv2. handleDbQuery test_out ''r1'' 0 ''SELECT'' [] dialog_server =
     Ret (stream_Send test_out 5 (ServerMessage_DbQueryResponse cols rs err) sv2) \<and> (err = [] \<longrightarrow> length rs = 2)"
proof -
  have db: "sv_db dialog_server = Some ()"
    by (simp add: dialog_server_def SetDialogHandler_def one_run_def RegisterRun_def
        fresh_server_def NewGRPCServer_def)
  have "length vs = n" if "sd_scanTexts (ox_sql test_out) n row = Inr vs" for n row vs
    using that by (auto simp: test_out_def test_sql_def split: if_splits)
  moreover have "error_text e \<noteq> []" if "(\<exists>n row. sd_scanTexts (ox_sql test_out) n row = Inl e) \<or>
       (\<exists>q ps d rows. fst (sd_query (ox_sql test_out) q ps d) = Inl e \<or>
          fst (sd_query (ox_sql test_out) q ps d) = Inr rows \<and> (rw_Err rows = Some e \<or> rw_Columns rows = Inl e))" for e
    using that by (auto simp: test_out_def test_sql_def split: if_splits)
  ultimately obtain cols rs err sv2 where q: "handleDbQuery test_out ''r1'' 0 ''SELECT'' [] dialog_server =
     Ret (stream_Send test_out 5 (ServerMessage_DbQueryResponse cols rs err) sv2)"
    and c: "err = [] \<longrightarrow> (\<exists>rows. fst (sd_query (ox_sql test_out) ''SELECT'' (map SqlText []) ()) = Inr rows \<and>
        rw_Columns rows = Inr cols \<and> rw_Err rows = None \<and>
        list_all2 (\<lambda>row vals. \<exists>vs. sd_scanTexts (ox_sql test_out) (length cols) row = Inr vs \<and> vals = map null_string vs)
          (rw_Rows rows) rs)"
    using query_answers_complete [OF dialog_server_stream db, of test_out "''r1''" "''SELECT''" "[]"] by blast
  from c have "err = [] \<longrightarrow> length rs = 2"
    by (auto simp: test_out_def test_sql_def dest: list_all2_lengthD)
  with q show ?thesis by blast
qed

lemma server_never_panics_witness:
  "\<exists>sv'. UnregisterRun ''r1'' one_run = Ret sv' \<and> sv_runs sv' ''r1'' = None"
proof -
  have "srv_init (fresh_server, [])"
    unfolding srv_init_def fresh_server_def using NewCacheManager_ok by blast
  then have "reach srv_init (srv_step test_out) (fresh_server, [])" by (rule reach_init)
  moreover have "srv_step test_out (fresh_server, []) (one_run, [])"
    unfolding one_run_def by (rule srv_register)
  ultimately have "reach srv_init (srv_step test_out) (one_run, [])" by (rule reach_step)
  from server_never_panics [OF this] show ?thesis by blast
qed

end
