(* ===== verification/Manager.thy ===== *)
theory Manager
  imports Grpc
begin

section \<open>Manager: starting, cancelling and finishing runs\<close>

text \<open>
  Models \<^verbatim>\<open>internal/runner/manager.go\<close>. The manager shares the gRPC server, the cache, the
  database and the reservoir by pointer, so its state extends the server's. A process is
  known by its run: \<open>mg_kills\<close> lists the runs whose \<open>proc.Cancel\<close> was called, \<open>mg_timers\<close> those
  whose delayed cancel was armed; what \<open>proc.Start\<close> and \<open>proc.Wait\<close> answer are arguments.
  \<open>waitForExit\<close> is the composition of four stages, which are also the steps it takes in the
  interleaving system: deriving and announcing the status, cleaning up, recording (one
  locked section), persisting.
\<close>

subsection \<open>State\<close>

abbreviation (input) maxStderrLog :: nat where "maxStderrLog \<equiv> 4096"

text \<open>\<open>rs_cancel\<close> says whether the state has a process's \<open>Cancel\<close> (a test state has a no-op).\<close>

record RunState =
  rs_RunID :: run_id
  rs_ScriptID :: script_id
  rs_Status :: RunStatus
  rs_messages :: "nat option"
  rs_cancel :: bool
  rs_cancelRequested :: bool

record RunRecord =
  rr_RunID :: run_id
  rr_ScriptID :: script_id
  rr_Status :: RunStatus
  rr_StartedAt :: time
  rr_EndedAt :: time

record 'd manager = "'d server" +
  mg_activeRuns :: "run_id \<rightharpoonup> RunState"
  mg_history :: "RunRecord list"
  mg_kills :: "run_id list"
  mg_timers :: "run_id list"

definition script_event :: "Severity \<Rightarrow> Persistence \<Rightarrow> string \<Rightarrow> string \<Rightarrow> goerror option \<Rightarrow> run_id \<Rightarrow> script_id \<Rightarrow> Event" where
  "script_event sev pers title msg err runID scriptID =
     (backend_event sev pers title msg err runID)\<lparr>ev_ScriptID := scriptID\<rparr>"

text \<open>\<open>m.db.Exec\<close> with the result dropped; the callers have checked \<open>m.db != nil\<close>.\<close>

definition db_exec ::
    "'d outside \<Rightarrow> string \<Rightarrow> sqlarg list \<Rightarrow> 'd \<Rightarrow> ('d, 'z) server_scheme \<Rightarrow> goerror option \<times> ('d, 'z) server_scheme" where
  "db_exec out sql args db m =
     (case sd_exec (ox_sql out) sql args db of
        (Inl e, db') \<Rightarrow> (Some e, m\<lparr>sv_db := Some db'\<rparr>)
      | (Inr _, db') \<Rightarrow> (None, m\<lparr>sv_db := Some db'\<rparr>))"

subsection \<open>Loading the history\<close>

fun load_rows :: "'d outside \<Rightarrow> sqlrow list \<Rightarrow> 'd manager \<Rightarrow> 'd manager" where
  "load_rows out [] m = m"
| "load_rows out (row # rows) m =
     (case sd_scanTimes (ox_sql out) row of
        Inl e \<Rightarrow> load_rows out rows (report out (backend_event SeverityWarn PersistenceOneShot
          ''Run history scan failed'' (error_text e) (Some e) []) m)
      | Inr (runID, scriptID, status, startedAt, endedAt) \<Rightarrow>
          load_rows out rows (m\<lparr>mg_history := mg_history m @
            [\<lparr>rr_RunID = runID, rr_ScriptID = scriptID, rr_Status = status,
              rr_StartedAt = startedAt, rr_EndedAt = endedAt\<rparr>]\<rparr>))"

definition apostrophe :: string where
  "apostrophe = [CHR 0x27]"

definition history_query :: string where
  "history_query = ''SELECT id, script_id, status, started_at, finished_at FROM runs '' @
     ''WHERE status IN ('' @ apostrophe @ ''completed'' @ apostrophe @ '', '' @ apostrophe @ ''failed'' @ apostrophe @
     '', '' @ apostrophe @ ''cancelled'' @ apostrophe @ '') ORDER BY started_at DESC''"

definition loadHistory :: "'d outside \<Rightarrow> 'd \<Rightarrow> 'd manager \<Rightarrow> 'd manager" where
  "loadHistory out db m =
     (case sd_query (ox_sql out) history_query [] db of
        (Inl e, db') \<Rightarrow> report out (backend_event SeverityWarn PersistenceOneShot
          ''Run history load failed'' (error_text e) (Some e) []) (m\<lparr>sv_db := Some db'\<rparr>)
      | (Inr rows, db') \<Rightarrow> load_rows out (rw_Rows rows) (m\<lparr>sv_db := Some db'\<rparr>))"

definition NewManager :: "'d outside \<Rightarrow> 'd server \<Rightarrow> 'd manager" where
  "NewManager out sv =
     (let mgr = server.extend sv \<lparr>mg_activeRuns = Map.empty, mg_history = [], mg_kills = [], mg_timers = []\<rparr> in
      case sv_db sv of None \<Rightarrow> mgr | Some store \<Rightarrow> loadHistory out store mgr)"

subsection \<open>Starting a run\<close>

definition insert_run :: string where
  "insert_run = ''INSERT INTO runs (id, script_id, status, params, started_at) VALUES (?, ?, ?, ?, ?)''"

text \<open>
  \<open>runID\<close> and \<open>startedAt\<close> are the uuid and the time drawn, \<open>startErr\<close> what \<open>proc.Start\<close>
  answers, \<open>json\<close> stands for \<open>json.Marshal\<close>. The result is the run and the address of its channel.
\<close>

definition StartRun ::
    "'d outside \<Rightarrow> ((string \<times> string) list \<Rightarrow> string) \<Rightarrow> goerror option \<Rightarrow> run_id \<Rightarrow> time \<Rightarrow>
       script_id \<Rightarrow> (string \<times> string) list \<Rightarrow> 'd manager \<Rightarrow> ((goerror + run_id \<times> nat) \<times> 'd manager) go" where
  "StartRun out json startErr runID startedAt scriptID params m =
     (case RegisterRun runID m of (a, m1) \<Rightarrow>
        case startErr of
          Some e \<Rightarrow> go_bind (UnregisterRun runID m1) (\<lambda>m2.
            Ret (Inl (Errorf (''starting script '' @ scriptID @ '': '' @ error_text e) (Some e)), m2))
        | None \<Rightarrow>
            let state = \<lparr>rs_RunID = runID, rs_ScriptID = scriptID, rs_Status = StatusRunning,
                         rs_messages = Some a, rs_cancel = True, rs_cancelRequested = False\<rparr>;
                m2 = m1\<lparr>mg_activeRuns := (mg_activeRuns m1)(runID \<mapsto> state)\<rparr>;
                m3 = report out (script_event SeverityInfo PersistenceOneShot [] ''run started'' None runID scriptID) m2
            in case sv_db m3 of
                 None \<Rightarrow> Ret (Inr (runID, a), m3)
               | Some db \<Rightarrow>
                   (case db_exec out insert_run
                       [SqlText runID, SqlText scriptID, SqlText StatusRunning, SqlText (json params), SqlTime startedAt]
                       db m3 of
                      (None, m4) \<Rightarrow> Ret (Inr (runID, a), m4)
                    | (Some e, m4) \<Rightarrow> Ret (Inr (runID, a), report out (backend_event SeverityWarn PersistenceOneShot
                        ''Run start record failed'' (error_text e) (Some e) runID) m4)))"

text \<open>Which branch of the \<open>select\<close> fires.\<close>

datatype start_signal = SigConnected | SigProcDone | SigTimeout

definition proc_Cancel :: "run_id \<Rightarrow> 'd manager \<Rightarrow> 'd manager" where
  "proc_Cancel runID m = m\<lparr>mg_kills := mg_kills m @ [runID]\<rparr>"

definition waitAndSendStart ::
    "'d outside \<Rightarrow> start_signal \<Rightarrow> run_id \<Rightarrow> (string \<times> string) list \<Rightarrow> 'd manager \<Rightarrow> 'd manager" where
  "waitAndSendStart out sig runID params m =
     (case sig of
        SigProcDone \<Rightarrow> m
      | SigTimeout \<Rightarrow> proc_Cancel runID (report out (backend_event SeverityError PersistenceOneShot
          ''Python connect timeout'' ''timeout waiting for Python to connect, killing process'' None runID) m)
      | SigConnected \<Rightarrow>
          (case SendStart out runID params m of
             (None, m1) \<Rightarrow> m1
           | (Some e, m1) \<Rightarrow> proc_Cancel runID (report out (backend_event SeverityError PersistenceOneShot
               ''Send start params failed'' (error_text e) (Some e) runID) m1)))"

subsection \<open>The final status\<close>

definition WasCancelled :: "run_id \<Rightarrow> 'd manager \<Rightarrow> bool" where
  "WasCancelled runID m =
     (case mg_activeRuns m runID of Some s \<Rightarrow> rs_cancelRequested s | None \<Rightarrow> False)"

definition deriveFinalStatus :: "run_id \<Rightarrow> int \<Rightarrow> goerror option \<Rightarrow> 'd manager \<Rightarrow> RunStatus" where
  "deriveFinalStatus runID exitCode waitErr m =
     (if WasCancelled runID m then StatusCancelled
      else if waitErr \<noteq> None \<or> exitCode \<noteq> 0 then StatusFailed
      else if GotError runID m then StatusFailed
      else if GotFailedStatus runID m then StatusFailed
      else if GotCompletedStatus runID m then StatusCompleted
      else StatusFailed)"

definition RegisterActiveRunForTest :: "run_id \<Rightarrow> script_id \<Rightarrow> 'd manager \<Rightarrow> 'd manager" where
  "RegisterActiveRunForTest runID scriptID m = m\<lparr>mg_activeRuns := (mg_activeRuns m)(runID \<mapsto>
     \<lparr>rs_RunID = runID, rs_ScriptID = scriptID, rs_Status = StatusRunning, rs_messages = None,
      rs_cancel = False, rs_cancelRequested = False\<rparr>)\<rparr>"

definition History :: "'d manager \<Rightarrow> RunRecord list" where
  "History m = mg_history m"

subsection \<open>Waiting for the exit\<close>

definition truncated :: "string \<Rightarrow> string" where
  "truncated s =
     (if length s > maxStderrLog then take maxStderrLog s @ newline @ ''... (truncated)'' else s)"

text \<open>\<open>exit\<close> is what \<open>proc.Wait\<close> answered: exit code, stderr, error.\<close>

type_synonym exit_info = "int \<times> string \<times> goerror option"

definition crash_event_of :: "run_id \<Rightarrow> script_id \<Rightarrow> string \<Rightarrow> Event" where
  "crash_event_of runID scriptID logStderr =
     (script_event SeverityError PersistenceInFlight ''Script crashed'' logStderr None runID scriptID)
       \<lparr>ev_Source := SourcePython, ev_Traceback := logStderr\<rparr>"

definition exit_error :: "run_id \<Rightarrow> RunStatus \<Rightarrow> exit_info \<Rightarrow> 'd manager \<Rightarrow> string" where
  "exit_error runID finalStatus exit m =
     (case exit of (exitCode, stderrOutput, err) \<Rightarrow>
        if finalStatus \<noteq> StatusFailed then []
        else if stderrOutput \<noteq> [] then truncated stderrOutput
        else if ErrorMessage runID m \<noteq> [] then ErrorMessage runID m
        else (case err of Some e \<Rightarrow> error_text e | None \<Rightarrow> []))"

definition exit_announce ::
    "'d outside \<Rightarrow> run_id \<Rightarrow> script_id \<Rightarrow> exit_info \<Rightarrow> 'd manager \<Rightarrow> ((RunStatus \<times> string) \<times> 'd manager) go" where
  "exit_announce out runID scriptID exit m =
     (case exit of (exitCode, stderrOutput, err) \<Rightarrow>
        let finalStatus = deriveFinalStatus runID exitCode err m;
            m1 = (if finalStatus = StatusFailed \<and> exitCode \<noteq> 0 \<and> stderrOutput \<noteq> [] \<and> \<not> GotError runID m
                  then report out (crash_event_of runID scriptID (truncated stderrOutput)) m else m)
        in go_bind (TrySendStatus runID finalStatus m1) (\<lambda>m2.
             Ret ((finalStatus, exit_error runID finalStatus exit m2), m2)))"

text \<open>\<open>order\<close> is the order in which \<open>CleanupRun\<close> ranges over the cache blocks.\<close>

definition exit_cleanup :: "string list \<Rightarrow> run_id \<Rightarrow> 'd manager \<Rightarrow> 'd manager go" where
  "exit_cleanup order runID m =
     UnregisterRun runID (m\<lparr>sv_cache := CleanupRun order runID (sv_cache m)\<rparr>)"

definition exit_record ::
    "'d outside \<Rightarrow> run_id \<Rightarrow> script_id \<Rightarrow> time \<Rightarrow> time \<Rightarrow> RunStatus \<Rightarrow> 'd manager \<Rightarrow> RunStatus \<times> 'd manager" where
  "exit_record out runID scriptID startedAt endedAt finalStatus m =
     (let (recordStatus, m1) =
        (case mg_activeRuns m runID of
           None \<Rightarrow> (finalStatus, m)
         | Some s \<Rightarrow>
             if \<not> IsTerminal (rs_Status s)
             then (finalStatus, m\<lparr>mg_activeRuns := (mg_activeRuns m)(runID \<mapsto> s\<lparr>rs_Status := finalStatus\<rparr>)\<rparr>)
             else (rs_Status s, report out (backend_event SeverityWarn PersistenceOneShot []
               (''ignoring status transition from terminal state: current='' @ rs_Status s @
                '' attempted='' @ finalStatus) None runID) m))
      in (recordStatus, m1\<lparr>mg_activeRuns := (mg_activeRuns m1)(runID := None),
            mg_history := mg_history m1 @ [\<lparr>rr_RunID = runID, rr_ScriptID = scriptID,
              rr_Status = recordStatus, rr_StartedAt = startedAt, rr_EndedAt = endedAt\<rparr>]\<rparr>))"

definition update_run :: string where
  "update_run = ''UPDATE runs SET status = ?, finished_at = ?, exit_code = ?, error_message = ? WHERE id = ?''"

definition exit_persist ::
    "'d outside \<Rightarrow> run_id \<Rightarrow> script_id \<Rightarrow> time \<Rightarrow> RunStatus \<Rightarrow> string \<Rightarrow> int \<Rightarrow> 'd manager \<Rightarrow> 'd manager" where
  "exit_persist out runID scriptID endedAt recordStatus errorMessage exitCode m =
     (let m1 =
        (case sv_db m of
           None \<Rightarrow> m
         | Some db \<Rightarrow>
             (case db_exec out update_run [SqlText recordStatus, SqlTime endedAt, SqlInt exitCode,
                 SqlText errorMessage, SqlText runID] db m of
                (None, m') \<Rightarrow> m'
              | (Some e, m') \<Rightarrow> report out (backend_event SeverityWarn PersistenceOneShot
                  ''Run record update failed'' (error_text e) (Some e) runID) m'))
      in report out (script_event SeverityInfo PersistenceOneShot []
           (''run finished: status='' @ recordStatus @ '' exitCode='' @ dec_int exitCode) None runID scriptID) m1)"

text \<open>\<open>elapsed\<close> says whether the five seconds of \<open>WaitStreamDone\<close> are over.\<close>

definition waitForExit ::
    "'d outside \<Rightarrow> string list \<Rightarrow> run_id \<Rightarrow> script_id \<Rightarrow> time \<Rightarrow> exit_info \<Rightarrow> time \<Rightarrow> bool \<Rightarrow> 'd manager \<Rightarrow> 'd manager go" where
  "waitForExit out order runID scriptID startedAt exit endedAt elapsed m =
     go_bind (WaitStreamDone runID elapsed m) (\<lambda>_.
     go_bind (exit_announce out runID scriptID exit m) (\<lambda>((finalStatus, errorMessage), m1).
     go_bind (exit_cleanup order runID m1) (\<lambda>m2.
       case exit_record out runID scriptID startedAt endedAt finalStatus m2 of
         (recordStatus, m3) \<Rightarrow>
           Ret (exit_persist out runID scriptID endedAt recordStatus errorMessage (fst exit) m3))))"

subsection \<open>Cancelling\<close>

definition CancelRun :: "'d outside \<Rightarrow> run_id \<Rightarrow> 'd manager \<Rightarrow> goerror option \<times> 'd manager" where
  "CancelRun out runID m =
     (case mg_activeRuns m runID of
        None \<Rightarrow> (Some ErrRunNotActive, m)
      | Some state \<Rightarrow>
          let m1 = m\<lparr>mg_activeRuns := (mg_activeRuns m)(runID \<mapsto> state\<lparr>rs_cancelRequested := True\<rparr>)\<rparr>;
              m2 = (case SendCancel out runID m1 of
                      (Some e, m') \<Rightarrow>
                        (if rs_cancel state then proc_Cancel runID else (\<lambda>x. x))
                          (report out (backend_event SeverityInfo PersistenceOneShot []
                             (''gRPC cancel failed, killing process immediately: '' @ error_text e) None runID) m')
                    | (None, m') \<Rightarrow> m'\<lparr>mg_timers := mg_timers m' @ [runID]\<rparr>)
          in (None, report out (backend_event SeverityInfo PersistenceOneShot []
                ''run cancel requested'' None runID) m2))"

text \<open>\<open>order\<close> is the order in which the active runs are ranged over.\<close>

definition CancelAll :: "'d outside \<Rightarrow> run_id list \<Rightarrow> 'd manager \<Rightarrow> 'd manager" where
  "CancelAll out order m = fold (\<lambda>runID m. snd (CancelRun out runID m)) order m"

subsection \<open>Frames\<close>

text \<open>What the server's operations leave alone in the manager.\<close>

definition mg_same :: "'d manager \<Rightarrow> 'd manager \<Rightarrow> bool" where
  "mg_same m m' \<longleftrightarrow> mg_activeRuns m' = mg_activeRuns m \<and> mg_history m' = mg_history m"

lemma mg_same_refl [simp]: "mg_same m m"
  by (simp add: mg_same_def)

lemma mg_same_trans: "mg_same a b \<Longrightarrow> mg_same b c \<Longrightarrow> mg_same a c"
  by (simp add: mg_same_def)

lemma report_mg [simp]:
  "mg_activeRuns (report out ev m) = mg_activeRuns m" "mg_history (report out ev m) = mg_history m"
  "mg_kills (report out ev m) = mg_kills m" "mg_timers (report out ev m) = mg_timers m"
  by (simp_all add: report_def)

lemma set_chan_mg [simp]:
  "mg_activeRuns (set_chan a ch m) = mg_activeRuns m" "mg_history (set_chan a ch m) = mg_history m"
  "mg_kills (set_chan a ch m) = mg_kills m" "mg_timers (set_chan a ch m) = mg_timers m"
  by (simp_all add: set_chan_def)

lemma stream_Send_mg [simp]:
  "mg_activeRuns (snd (stream_Send out s x m)) = mg_activeRuns m" "mg_history (snd (stream_Send out s x m)) = mg_history m"
  "mg_kills (snd (stream_Send out s x m)) = mg_kills m" "mg_timers (snd (stream_Send out s x m)) = mg_timers m"
  by (simp_all add: stream_Send_def split: option.split)

lemma send_imperative_mg [simp]:
  "mg_activeRuns (snd (send_imperative out r x m)) = mg_activeRuns m"
  "mg_history (snd (send_imperative out r x m)) = mg_history m"
  "mg_kills (snd (send_imperative out r x m)) = mg_kills m" "mg_timers (snd (send_imperative out r x m)) = mg_timers m"
  by (simp_all add: send_imperative_def split: option.split)

lemma try_send_at_mg: "try_send_at a x m = Ret m' \<Longrightarrow> mg_same m m'"
  by (auto simp: try_send_at_def chan_op_def go_bind_eq_Ret mg_same_def split: prod.splits)

lemma TrySendStatus_mg: "TrySendStatus r st m = Ret m' \<Longrightarrow> mg_same m m'"
  by (auto simp: TrySendStatus_def dest: try_send_at_mg split: option.splits)

lemma UnregisterRun_mg: "UnregisterRun r m = Ret m' \<Longrightarrow> mg_same m m'"
  by (auto simp: UnregisterRun_def chan_op_def go_bind_eq_Ret mg_same_def split: option.splits prod.splits)

lemma db_exec_frame [simp]:
  "sv_runs (snd (db_exec out q args db m)) = sv_runs m" "sv_chans (snd (db_exec out q args db m)) = sv_chans m"
  "sv_cache (snd (db_exec out q args db m)) = sv_cache m" "sv_db (snd (db_exec out q args db m)) \<noteq> None"
  by (simp_all add: db_exec_def split: prod.split sum.split)

lemma db_exec_mg [simp]:
  "mg_activeRuns (snd (db_exec out q args db m)) = mg_activeRuns m"
  "mg_history (snd (db_exec out q args db m)) = mg_history m"
  by (simp_all add: db_exec_def split: prod.split sum.split)

lemma exit_persist_frame [simp]:
  "sv_runs (exit_persist out r sid t st e c m) = sv_runs m" "sv_chans (exit_persist out r sid t st e c m) = sv_chans m"
  "sv_cache (exit_persist out r sid t st e c m) = sv_cache m"
  "mg_activeRuns (exit_persist out r sid t st e c m) = mg_activeRuns m"
  "mg_history (exit_persist out r sid t st e c m) = mg_history m"
  "chan_at a (exit_persist out r sid t st e c m) = chan_at a m"
  by (simp_all add: exit_persist_def db_exec_def Let_def chan_at_def split: option.split prod.split sum.split)

lemma exit_record_frame [simp]:
  "sv_runs (snd (exit_record out r sid t t' st m)) = sv_runs m" "sv_chans (snd (exit_record out r sid t t' st m)) = sv_chans m"
  "sv_cache (snd (exit_record out r sid t t' st m)) = sv_cache m"
  "chan_at a (snd (exit_record out r sid t t' st m)) = chan_at a m"
  by (simp_all add: exit_record_def Let_def chan_at_def split: option.split)

lemma exit_record_effect:
  "mg_activeRuns (snd (exit_record out r sid t t' st m)) = (mg_activeRuns m)(r := None)"
  "mg_history (snd (exit_record out r sid t t' st m)) = mg_history m @
     [\<lparr>rr_RunID = r, rr_ScriptID = sid, rr_Status = fst (exit_record out r sid t t' st m),
       rr_StartedAt = t, rr_EndedAt = t'\<rparr>]"
  by (simp_all add: exit_record_def Let_def split: option.split)

lemma exit_record_running:
  "(\<And>s. mg_activeRuns m r = Some s \<Longrightarrow> \<not> IsTerminal (rs_Status s)) \<Longrightarrow> fst (exit_record out r sid t t' st m) = st"
  by (auto simp: exit_record_def Let_def split: option.split)

lemma CancelRun_active:
  "mg_activeRuns (snd (CancelRun out r m)) = (case mg_activeRuns m r of None \<Rightarrow> mg_activeRuns m
     | Some s \<Rightarrow> (mg_activeRuns m)(r \<mapsto> s\<lparr>rs_cancelRequested := True\<rparr>))"
  "mg_history (snd (CancelRun out r m)) = mg_history m"
proof -
  have "mg_activeRuns (snd (CancelRun out r m)) = (mg_activeRuns m)(r \<mapsto> s\<lparr>rs_cancelRequested := True\<rparr>)
      \<and> mg_history (snd (CancelRun out r m)) = mg_history m"
    if s: "mg_activeRuns m r = Some s" for s
  proof -
    let ?m = "m\<lparr>mg_activeRuns := (mg_activeRuns m)(r \<mapsto> s\<lparr>rs_cancelRequested := True\<rparr>)\<rparr>"
    obtain e m' where send: "SendCancel out r ?m = (e, m')" by force
    then have "m' = snd (send_imperative out r ServerMessage_Cancel ?m)" by (simp add: SendCancel_def)
    then have "mg_activeRuns m' = (mg_activeRuns m)(r \<mapsto> s\<lparr>rs_cancelRequested := True\<rparr>)" "mg_history m' = mg_history m"
      by simp_all
    with s send show ?thesis
      by (cases e) (simp_all add: CancelRun_def Let_def proc_Cancel_def)
  qed
  then show "mg_activeRuns (snd (CancelRun out r m)) = (case mg_activeRuns m r of None \<Rightarrow> mg_activeRuns m
     | Some s \<Rightarrow> (mg_activeRuns m)(r \<mapsto> s\<lparr>rs_cancelRequested := True\<rparr>))"
    "mg_history (snd (CancelRun out r m)) = mg_history m"
    by (cases "mg_activeRuns m r"; simp add: CancelRun_def)+
qed

lemma CancelRun_result: "fst (CancelRun out r m) = (if mg_activeRuns m r = None then Some ErrRunNotActive else None)"
  by (auto simp: CancelRun_def Let_def split: option.split)

subsection \<open>The final status\<close>

lemma deriveFinalStatus_cases:
  "deriveFinalStatus r code err m = StatusCancelled \<longleftrightarrow> WasCancelled r m"
  "deriveFinalStatus r code err m = StatusCompleted \<longleftrightarrow>
     \<not> WasCancelled r m \<and> err = None \<and> code = 0 \<and> \<not> GotError r m \<and> PythonReportedStatus r m = StatusCompleted"
  by (simp_all add: deriveFinalStatus_def GotFailedStatus_def GotCompletedStatus_def)

lemma deriveFinalStatus_terminal: "IsTerminal (deriveFinalStatus r code err m)"
  by (simp add: IsTerminal_def deriveFinalStatus_def)

lemma length_truncated: "length (truncated s) \<le> maxStderrLog + 16"
  by (simp add: truncated_def)

lemma truncated_prefix: "prefix (take maxStderrLog s) (truncated s)"
  by (simp add: truncated_def)

subsection \<open>One run's exit\<close>

lemma exit_announce_Ret:
  assumes inv: "server_inv m" and r: "sv_runs m r = Some a"
    and room: "room_for (chan_at a m) 1"
  shows "\<exists>m'. exit_announce out r sid exit m = Ret ((deriveFinalStatus r (fst exit) (snd (snd exit)) m,
       exit_error r (deriveFinalStatus r (fst exit) (snd (snd exit)) m) exit m), m') \<and>
     server_inv m' \<and> sv_runs m' = sv_runs m \<and> sv_cache m' = sv_cache m \<and> sv_db m' = sv_db m \<and> mg_same m m' \<and>
     length (sv_chans m') = length (sv_chans m) \<and>
     (\<forall>b. chan_at b m' = (if b = a
        then deliver [StatusMsg (deriveFinalStatus r (fst exit) (snd (snd exit)) m)] (chan_at a m) else chan_at b m))"
proof -
  obtain code stderr err where x: "exit = (code, stderr, err)" by (cases exit)
  define st where "st = deriveFinalStatus r code err m"
  define m1 where "m1 = (if st = StatusFailed \<and> code \<noteq> 0 \<and> stderr \<noteq> [] \<and> \<not> GotError r m
     then report out (crash_event_of r sid (truncated stderr)) m else m)"
  have m1: "sv_runs m1 = sv_runs m" "sv_chans m1 = sv_chans m" "sv_cache m1 = sv_cache m" "sv_db m1 = sv_db m"
    "mg_same m m1" "\<And>b. chan_at b m1 = chan_at b m"
    by (simp_all add: m1_def mg_same_def)
  have inv1: "server_inv m1" using inv m1(1-3) server_inv_cong server_inv_cache by metis
  have a: "a < length (sv_chans m1)" using server_invD(2) [OF inv r] m1(2) by simp
  let ?m2 = "set_chan a (deliver [StatusMsg st] (chan_at a m)) m1"
  have send: "TrySendStatus r st m1 = Ret ?m2"
    using room by (simp add: TrySendStatus_def m1 r try_send_at_deliver [OF inv1 a])
  have "rc_inv (deliver [StatusMsg st] (chan_at a m))"
    using server_invD(1) [OF inv] server_invD(2) [OF inv r] room by (simp add: deliver_inv)
  then have "server_inv ?m2"
    using ran_not_done [OF inv] by (intro set_chan_inv [OF inv1 a]) (auto simp: m1(1))
  moreover have "ErrorMessage r ?m2 = ErrorMessage r m"
    using a by (simp add: ErrorMessage_def m1 r chan_at_set_chan)
  then have "exit_error r st exit ?m2 = exit_error r st exit m" by (simp only: exit_error_def)
  moreover have "mg_same m ?m2" using m1(5) by (simp add: mg_same_def)
  ultimately show ?thesis
    using send a
    by (intro exI [of _ ?m2])
      (simp add: exit_announce_def x Let_def st_def [symmetric] m1_def [symmetric] m1 chan_at_set_chan)
qed

lemma chan_at_cache [simp]: "chan_at b (m\<lparr>sv_cache := c\<rparr>) = chan_at b m"
  by (simp add: chan_at_def)

lemma exit_cleanup_Ret:
  assumes inv: "server_inv m" and r: "sv_runs m r = Some a" and order: "range_order (cm_blocks (sv_cache m)) order"
  shows "\<exists>m'. exit_cleanup order r m = Ret m' \<and> server_inv m' \<and> mg_same m m' \<and> sv_db m' = sv_db m \<and>
     sv_runs m' = (sv_runs m)(r := None) \<and>
     cache_holders (sv_cache m') = (\<lambda>k. cache_holders (sv_cache m) k - {r}) \<and>
     (\<forall>b. chan_at b m' = (if b = a then chan_at a m\<lparr>rc_phase := PhaseDone,
         rc_Messages := (rc_Messages (chan_at a m))\<lparr>ch_closed := True\<rparr>\<rparr> else chan_at b m))"
proof -
  let ?m = "m\<lparr>sv_cache := CleanupRun order r (sv_cache m)\<rparr>"
  have ok: "cache_ok (sv_cache m)" using inv by (rule server_inv_cache)
  then have holders: "cache_holders (CleanupRun order r (sv_cache m)) = (\<lambda>k. cache_holders (sv_cache m) k - {r})"
    using order by (intro CleanupRun_holders) (simp_all add: cache_ok_def)
  have "cache_ok (CleanupRun order r (sv_cache m))"
    using ok CleanupRun_inv [of "sv_cache m" order r] finite_subset [OF CleanupRun_dom [of order r "sv_cache m"]]
    by (simp add: cache_ok_def)
  then have inv': "server_inv ?m" using inv by (intro server_inv_cong [OF inv]) simp_all
  have a: "a < length (sv_chans m)" using server_invD(2) [OF inv r] .
  obtain m' where u: "UnregisterRun r ?m = Ret m'" using UnregisterRun_Ret [OF inv'] by blast
  with r a show ?thesis
    using UnregisterRun_inv [OF inv' u] UnregisterRun_mg [OF u] holders
    by (intro exI [of _ m'])
      (auto simp: exit_cleanup_def UnregisterRun_Ret [OF inv'] mg_same_def chan_at_set_chan)
qed

text \<open>The channel of a run that is over: the final status is its last message.\<close>

definition chan_ended :: "RunStatus \<Rightarrow> RunChannel \<Rightarrow> RunChannel \<Rightarrow> bool" where
  "chan_ended st ch ch' \<longleftrightarrow> rc_phase ch' = PhaseDone \<and> ch_closed (rc_Messages ch') \<and>
     ch_buf (rc_Messages ch') = ch_buf (rc_Messages ch) @ [StatusMsg st]"

lemma waitForExit_Ret:
  assumes inv: "server_inv m" and r: "sv_runs m r = Some a" and s: "mg_activeRuns m r = Some s"
    and running: "\<not> IsTerminal (rs_Status s)" and room: "room_for (chan_at a m) 1"
    and wait: "WaitStreamDone r elapsed m = Ret ()"
    and order: "range_order (cm_blocks (sv_cache m)) order"
    and st: "st = deriveFinalStatus r code err m"
  shows "\<exists>m'. waitForExit out order r sid t (code, stderr, err) t' elapsed m = Ret m' \<and>
     chan_ended st (chan_at a m) (chan_at a m') \<and> (\<forall>b. b \<noteq> a \<longrightarrow> chan_at b m' = chan_at b m) \<and>
     sv_runs m' = (sv_runs m)(r := None) \<and> mg_activeRuns m' = (mg_activeRuns m)(r := None) \<and>
     mg_history m' = mg_history m @ [\<lparr>rr_RunID = r, rr_ScriptID = sid, rr_Status = st, rr_StartedAt = t, rr_EndedAt = t'\<rparr>] \<and>
     cache_holders (sv_cache m') = (\<lambda>k. cache_holders (sv_cache m) k - {r}) \<and>
     server_inv m'"
proof -
  let ?x = "(code, stderr, err)"
  obtain m1 where a1: "exit_announce out r sid ?x m = Ret ((st, exit_error r st ?x m), m1)"
    and m1: "server_inv m1" "sv_runs m1 = sv_runs m" "sv_cache m1 = sv_cache m" "mg_same m m1"
      "\<And>b. chan_at b m1 = (if b = a then deliver [StatusMsg st] (chan_at a m) else chan_at b m)"
    using exit_announce_Ret [OF inv r room, of out sid ?x] by (auto simp: st)
  obtain m2 where a2: "exit_cleanup order r m1 = Ret m2" and m2: "server_inv m2" "mg_same m1 m2"
    "sv_runs m2 = (sv_runs m)(r := None)" "cache_holders (sv_cache m2) = (\<lambda>k. cache_holders (sv_cache m) k - {r})"
    "\<And>b. chan_at b m2 = (if b = a then chan_at a m1\<lparr>rc_phase := PhaseDone,
         rc_Messages := (rc_Messages (chan_at a m1))\<lparr>ch_closed := True\<rparr>\<rparr> else chan_at b m1)"
    using exit_cleanup_Ret [of m1 r a order] m1 r order by auto
  have same: "mg_activeRuns m2 = mg_activeRuns m" "mg_history m2 = mg_history m"
    using m1(4) m2(2) by (simp_all add: mg_same_def)
  obtain rst m3 where a3: "exit_record out r sid t t' st m2 = (rst, m3)" by force
  have fst_rec: "fst (exit_record out r sid t t' st m2) = st"
    using s running by (intro exit_record_running) (simp add: same)
  then have rst: "rst = st" using a3 by simp
  let ?m = "exit_persist out r sid t' st (exit_error r st ?x m) code m3"
  have m3: "m3 = snd (exit_record out r sid t t' st m2)" using a3 by simp
  have "waitForExit out order r sid t ?x t' elapsed m = Ret ?m"
    by (simp add: waitForExit_def wait a1 a2 a3 rst)
  moreover have "rc_phase (chan_at a m) \<noteq> PhaseDone" using server_invD(3) [OF inv r] .
  then have "chan_ended st (chan_at a m) (chan_at a ?m)"
    by (simp add: chan_ended_def m3 m2 m1)
  moreover have "\<forall>b. b \<noteq> a \<longrightarrow> chan_at b ?m = chan_at b m" by (simp add: m3 m2 m1)
  moreover have "server_inv ?m"
    using m2(1) by (rule server_inv_cong) (simp_all add: m3 server_inv_cache [OF m2(1)])
  moreover have "mg_history ?m = mg_history m @ [\<lparr>rr_RunID = r, rr_ScriptID = sid, rr_Status = st,
      rr_StartedAt = t, rr_EndedAt = t'\<rparr>]"
    by (simp add: m3 exit_record_effect same fst_rec)
  ultimately show ?thesis
    by (intro exI [of _ ?m]) (simp add: m3 m2 exit_record_effect same)
qed

subsection \<open>Starting\<close>

lemma RegisterRun_mg: "mg_same m (snd (RegisterRun r m))"
  by (simp add: RegisterRun_def mg_same_def)

lemma StartRun_failed:
  assumes inv: "server_inv m"
  shows "\<exists>m'. StartRun out json (Some e) r t sid ps m =
       Ret (Inl (Errorf (''starting script '' @ sid @ '': '' @ error_text e) (Some e)), m') \<and>
     sv_runs m' = (sv_runs m)(r := None) \<and> mg_same m m' \<and> sv_cache m' = sv_cache m \<and> sv_rsv m' = sv_rsv m \<and>
     rc_phase (chan_at (length (sv_chans m)) m') = PhaseDone \<and> server_inv m'"
proof -
  let ?m = "snd (RegisterRun r m)" and ?n = "length (sv_chans m)"
  have inv': "server_inv ?m" using inv by (rule RegisterRun_inv)
  have runs: "sv_runs ?m r = Some ?n" and len: "?n < length (sv_chans ?m)" by (simp_all add: RegisterRun_def)
  obtain m' where u: "UnregisterRun r ?m = Ret m'" using UnregisterRun_Ret [OF inv'] by blast
  have "mg_same m m'" using RegisterRun_mg UnregisterRun_mg [OF u] by (rule mg_same_trans)
  moreover have "StartRun out json (Some e) r t sid ps m =
      Ret (Inl (Errorf (''starting script '' @ sid @ '': '' @ error_text e) (Some e)), m')"
    using u by (simp add: StartRun_def case_prod_beta)
  moreover have "rc_phase (chan_at ?n m') = PhaseDone" "sv_runs m' = (sv_runs m)(r := None)"
    "sv_cache m' = sv_cache m" "sv_rsv m' = sv_rsv m"
    using u len runs unfolding UnregisterRun_Ret [OF inv']
    by (auto simp: chan_at_set_chan) (simp_all add: RegisterRun_def)
  ultimately show ?thesis using UnregisterRun_inv [OF inv' u] by blast
qed

lemma StartRun_started:
  "\<exists>m'. StartRun out json None r t sid ps m = Ret (Inr (r, length (sv_chans m)), m') \<and>
     sv_runs m' = (sv_runs m)(r \<mapsto> length (sv_chans m)) \<and> sv_chans m' = sv_chans m @ [newRunChannel] \<and>
     mg_activeRuns m' = (mg_activeRuns m)(r \<mapsto> \<lparr>rs_RunID = r, rs_ScriptID = sid, rs_Status = StatusRunning,
       rs_messages = Some (length (sv_chans m)), rs_cancel = True, rs_cancelRequested = False\<rparr>) \<and>
     mg_history m' = mg_history m \<and> sv_cache m' = sv_cache m \<and> (sv_db m' = None \<longleftrightarrow> sv_db m = None)"
proof (cases "sv_db m")
  case None
  then show ?thesis by (simp add: StartRun_def RegisterRun_def Let_def)
next
  case (Some db)
  show ?thesis
  proof (cases "fst (sd_exec (ox_sql out) insert_run
      [SqlText r, SqlText sid, SqlText StatusRunning, SqlText (json ps), SqlTime t] db)")
    case (Inl e)
    with Some show ?thesis
      by (simp add: StartRun_def RegisterRun_def Let_def db_exec_def case_prod_beta)
  next
    case (Inr x)
    with Some show ?thesis
      by (simp add: StartRun_def RegisterRun_def Let_def db_exec_def case_prod_beta)
  qed
qed

subsection \<open>All runs together\<close>

text \<open>
  Where the \<open>waitForExit\<close> goroutine of a run stands between its stages.
\<close>

datatype exit_stage = Waiting | Announced RunStatus | Cleaned RunStatus

record 'd world =
  w_mgr :: "'d manager"
  w_stage :: "run_id \<rightharpoonup> exit_stage"
  w_used :: "run_id set"

text \<open>
  Any interleaving of starts, cancels, the stages of every run's exit and the rest of the
  program: \<open>w_other\<close> lets the server, the cache, the database and the reservoir change in any
  way, since only \<open>StartRun\<close>, \<open>CancelRun\<close> and \<open>waitForExit\<close> write the manager's own fields. A
  uuid is never drawn twice (\<open>w_used\<close>).
\<close>

inductive mgr_step :: "'d outside \<Rightarrow> 'd world \<Rightarrow> 'd world \<Rightarrow> bool" for out :: "'d outside" where
  w_start: "r \<notin> w_used w \<Longrightarrow> StartRun out json res r t sid ps (w_mgr w) = Ret (Inr (r, a), m') \<Longrightarrow>
    mgr_step out w (w\<lparr>w_mgr := m', w_stage := (w_stage w)(r \<mapsto> Waiting), w_used := insert r (w_used w)\<rparr>)"
| w_start_failed: "r \<notin> w_used w \<Longrightarrow> StartRun out json res r t sid ps (w_mgr w) = Ret (Inl e, m') \<Longrightarrow>
    mgr_step out w (w\<lparr>w_mgr := m', w_used := insert r (w_used w)\<rparr>)"
| w_announce: "w_stage w r = Some Waiting \<Longrightarrow> exit_announce out r sid exit (w_mgr w) = Ret ((st, msg), m') \<Longrightarrow>
    mgr_step out w (w\<lparr>w_mgr := m', w_stage := (w_stage w)(r \<mapsto> Announced st)\<rparr>)"
| w_cleanup: "w_stage w r = Some (Announced st) \<Longrightarrow> exit_cleanup order r (w_mgr w) = Ret m' \<Longrightarrow>
    mgr_step out w (w\<lparr>w_mgr := m', w_stage := (w_stage w)(r \<mapsto> Cleaned st)\<rparr>)"
| w_record: "w_stage w r = Some (Cleaned st) \<Longrightarrow> exit_record out r sid t t' st (w_mgr w) = (rst, m') \<Longrightarrow>
    mgr_step out w (w\<lparr>w_mgr := m', w_stage := (w_stage w)(r := None)\<rparr>)"
| w_cancel: "mgr_step out w (w\<lparr>w_mgr := snd (CancelRun out r (w_mgr w))\<rparr>)"
| w_other: "mg_same (w_mgr w) m' \<Longrightarrow> mgr_step out w (w\<lparr>w_mgr := m'\<rparr>)"

inductive_cases mgr_stepE: "mgr_step out w w'"

definition mgr_init :: "RunRecord list \<Rightarrow> 'd world \<Rightarrow> bool" where
  "mgr_init H0 w \<longleftrightarrow> mg_activeRuns (w_mgr w) = Map.empty \<and> mg_history (w_mgr w) = H0 \<and>
     w_stage w = Map.empty \<and> rr_RunID ` set H0 \<subseteq> w_used w"

fun stage_status :: "exit_stage \<Rightarrow> RunStatus option" where
  "stage_status Waiting = None"
| "stage_status (Announced st) = Some st"
| "stage_status (Cleaned st) = Some st"

definition new_records_ok :: "RunRecord list \<Rightarrow> 'd world \<Rightarrow> RunRecord list \<Rightarrow> bool" where
  "new_records_ok H0 w new \<longleftrightarrow>
     distinct (map rr_RunID new) \<and> rr_RunID ` set new \<subseteq> w_used w - rr_RunID ` set H0 - dom (w_stage w) \<and>
     (\<forall>rec \<in> set new. IsTerminal (rr_Status rec))"

definition mgr_inv :: "RunRecord list \<Rightarrow> 'd world \<Rightarrow> bool" where
  "mgr_inv H0 w \<longleftrightarrow>
     dom (mg_activeRuns (w_mgr w)) = dom (w_stage w) \<and> dom (w_stage w) \<subseteq> w_used w - rr_RunID ` set H0 \<and>
     rr_RunID ` set H0 \<subseteq> w_used w \<and>
     (\<forall>r s. mg_activeRuns (w_mgr w) r = Some s \<longrightarrow> rs_RunID s = r \<and> rs_Status s = StatusRunning) \<and>
     (\<forall>r g st. w_stage w r = Some g \<longrightarrow> stage_status g = Some st \<longrightarrow> IsTerminal st) \<and>
     (\<exists>new. mg_history (w_mgr w) = H0 @ new \<and> new_records_ok H0 w new)"

lemma StartRun_Inr:
  assumes "StartRun out json res r t sid ps m = Ret (Inr (r', a), m')"
  shows "mg_history m' = mg_history m \<and> mg_activeRuns m' = (mg_activeRuns m)(r \<mapsto> \<lparr>rs_RunID = r, rs_ScriptID = sid,
       rs_Status = StatusRunning, rs_messages = Some (length (sv_chans m)), rs_cancel = True, rs_cancelRequested = False\<rparr>)"
proof (cases res)
  case None
  then show ?thesis using StartRun_started [of out json r t sid ps m] assms by auto
next
  case (Some e)
  with assms show ?thesis by (auto simp: StartRun_def go_bind_eq_Ret split: prod.splits)
qed

lemma StartRun_Inl:
  assumes "StartRun out json res r t sid ps m = Ret (Inl e, m')"
  shows "mg_same m m'"
proof (cases res)
  case None
  then show ?thesis using StartRun_started [of out json r t sid ps m] assms by auto
next
  case (Some x)
  with assms RegisterRun_mg [of m r] show ?thesis
    by (auto simp: StartRun_def go_bind_eq_Ret dest!: UnregisterRun_mg intro: mg_same_trans split: prod.splits)
qed

lemma exit_announce_mg:
  assumes "exit_announce out r sid exit m = Ret ((st, msg), m')"
  shows "mg_same m m' \<and> IsTerminal st"
proof -
  obtain code stderr err where x: "exit = (code, stderr, err)" by (cases exit)
  define m1 where "m1 = (if deriveFinalStatus r code err m = StatusFailed \<and> code \<noteq> 0 \<and> stderr \<noteq> [] \<and> \<not> GotError r m
     then report out (crash_event_of r sid (truncated stderr)) m else m)"
  from assms have send: "TrySendStatus r (deriveFinalStatus r code err m) m1 = Ret m'"
    and st: "st = deriveFinalStatus r code err m"
    by (auto simp: exit_announce_def x Let_def go_bind_eq_Ret m1_def)
  have "mg_same m m1" by (simp add: m1_def mg_same_def)
  then show ?thesis using TrySendStatus_mg [OF send] deriveFinalStatus_terminal by (auto simp: st intro: mg_same_trans)
qed

lemma exit_cleanup_mg:
  assumes "exit_cleanup order r m = Ret m'"
  shows "mg_same m m'"
proof -
  have "mg_same (m\<lparr>sv_cache := CleanupRun order r (sv_cache m)\<rparr>) m'"
    using assms unfolding exit_cleanup_def by (rule UnregisterRun_mg)
  then show ?thesis by (simp add: mg_same_def)
qed

lemma mgr_inv_same:
  "mgr_inv H0 w \<Longrightarrow> mg_same (w_mgr w) m' \<Longrightarrow> mgr_inv H0 (w\<lparr>w_mgr := m'\<rparr>)"
  by (simp add: mgr_inv_def mg_same_def new_records_ok_def)

lemma mgr_inv_stage:
  assumes "mgr_inv H0 w" "w_stage w r = Some g" "\<And>st. stage_status g' = Some st \<Longrightarrow> IsTerminal st"
  shows "mgr_inv H0 (w\<lparr>w_stage := (w_stage w)(r \<mapsto> g')\<rparr>)"
proof -
  have "dom ((w_stage w)(r \<mapsto> g')) = dom (w_stage w)" using assms(2) by auto
  then show ?thesis
    using assms unfolding mgr_inv_def new_records_ok_def by simp
qed

lemma mgr_inv_start:
  assumes inv: "mgr_inv H0 w" and r: "r \<notin> w_used w"
    and m': "mg_history m' = mg_history (w_mgr w)" "mg_activeRuns m' = (mg_activeRuns (w_mgr w))(r \<mapsto> s)"
    and s: "rs_RunID s = r" "rs_Status s = StatusRunning"
  shows "mgr_inv H0 (w\<lparr>w_mgr := m', w_stage := (w_stage w)(r \<mapsto> Waiting), w_used := insert r (w_used w)\<rparr>)"
proof -
  obtain new where new: "mg_history (w_mgr w) = H0 @ new" "new_records_ok H0 w new"
    using inv by (auto simp: mgr_inv_def)
  have "new_records_ok H0 (w\<lparr>w_mgr := m', w_stage := (w_stage w)(r \<mapsto> Waiting), w_used := insert r (w_used w)\<rparr>) new"
    using new(2) r by (auto simp: new_records_ok_def)
  with new(1) show ?thesis
    using inv r s unfolding mgr_inv_def m' by (auto simp: m')
qed

lemma mgr_inv_record:
  assumes inv: "mgr_inv H0 w" and g: "w_stage w r = Some (Cleaned st)"
    and rec: "exit_record out r sid t t' st (w_mgr w) = (rst, m')"
  shows "mgr_inv H0 (w\<lparr>w_mgr := m', w_stage := (w_stage w)(r := None)\<rparr>) \<and> rst = st"
proof -
  let ?rec = "\<lparr>rr_RunID = r, rr_ScriptID = sid, rr_Status = st, rr_StartedAt = t, rr_EndedAt = t'\<rparr>"
  have "rst = fst (exit_record out r sid t t' st (w_mgr w))" using rec by simp
  also have "\<dots> = st"
    using inv by (intro exit_record_running) (auto simp: mgr_inv_def IsTerminal_def)
  finally have rst: "rst = st" .
  have m': "mg_activeRuns m' = (mg_activeRuns (w_mgr w))(r := None)" "mg_history m' = mg_history (w_mgr w) @ [?rec]"
    using exit_record_effect [of out r sid t t' st "w_mgr w"] rec rst by simp_all
  obtain new where new: "mg_history (w_mgr w) = H0 @ new" "new_records_ok H0 w new"
    using inv by (auto simp: mgr_inv_def)
  have "IsTerminal st" "r \<in> w_used w" "r \<notin> rr_RunID ` set H0"
    using inv g unfolding mgr_inv_def by (auto dest!: spec [of _ r])
  then have "new_records_ok H0 (w\<lparr>w_mgr := m', w_stage := (w_stage w)(r := None)\<rparr>) (new @ [?rec])"
    using new(2) g by (auto simp: new_records_ok_def)
  then have "\<exists>new. mg_history m' = H0 @ new \<and>
      new_records_ok H0 (w\<lparr>w_mgr := m', w_stage := (w_stage w)(r := None)\<rparr>) new"
    using new(1) by (intro exI [of _ "new @ [?rec]"]) (simp add: m')
  then have "mgr_inv H0 (w\<lparr>w_mgr := m', w_stage := (w_stage w)(r := None)\<rparr>)"
    using inv unfolding mgr_inv_def by (auto simp: m')
  with rst show ?thesis by simp
qed

lemma mgr_inv_used:
  assumes inv: "mgr_inv H0 w"
  shows "mgr_inv H0 (w\<lparr>w_used := insert r (w_used w)\<rparr>)"
proof -
  obtain new where new: "mg_history (w_mgr w) = H0 @ new" "new_records_ok H0 w new"
    using inv by (auto simp: mgr_inv_def)
  then have "new_records_ok H0 (w\<lparr>w_used := insert r (w_used w)\<rparr>) new"
    unfolding new_records_ok_def by auto
  with new(1) inv show ?thesis unfolding mgr_inv_def by auto
qed

lemma mgr_step_inv: "mgr_inv H0 w \<Longrightarrow> mgr_step out w w' \<Longrightarrow> mgr_inv H0 w'"
proof (erule mgr_stepE)
  fix r json res t sid ps a m'
  assume inv: "mgr_inv H0 w" and r: "r \<notin> w_used w"
    and s: "StartRun out json res r t sid ps (w_mgr w) = Ret (Inr (r, a), m')"
    and w': "w' = w\<lparr>w_mgr := m', w_stage := (w_stage w)(r \<mapsto> Waiting), w_used := insert r (w_used w)\<rparr>"
  note started = StartRun_Inr [OF s]
  show "mgr_inv H0 w'" unfolding w'
    by (rule mgr_inv_start [OF inv r conjunct1 [OF started] conjunct2 [OF started]]) simp_all
next
  fix r json res t sid ps e m'
  assume inv: "mgr_inv H0 w" and r: "r \<notin> w_used w"
    and s: "StartRun out json res r t sid ps (w_mgr w) = Ret (Inl e, m')"
    and w': "w' = w\<lparr>w_mgr := m', w_used := insert r (w_used w)\<rparr>"
  have "mgr_inv H0 (w\<lparr>w_mgr := m'\<rparr>)" using inv StartRun_Inl [OF s] by (rule mgr_inv_same)
  then show "mgr_inv H0 w'" using mgr_inv_used [of H0 "w\<lparr>w_mgr := m'\<rparr>" r] by (simp add: w')
next
  fix r sid exit st msg m'
  assume inv: "mgr_inv H0 w" and g: "w_stage w r = Some Waiting"
    and x: "exit_announce out r sid exit (w_mgr w) = Ret ((st, msg), m')"
    and w': "w' = w\<lparr>w_mgr := m', w_stage := (w_stage w)(r \<mapsto> Announced st)\<rparr>"
  have "mgr_inv H0 (w\<lparr>w_mgr := m'\<rparr>)" using inv exit_announce_mg [OF x] by (blast intro: mgr_inv_same)
  then show "mgr_inv H0 w'" unfolding w'
    using mgr_inv_stage [of H0 "w\<lparr>w_mgr := m'\<rparr>" r Waiting "Announced st"] g exit_announce_mg [OF x] by simp
next
  fix r st order m'
  assume inv: "mgr_inv H0 w" and g: "w_stage w r = Some (Announced st)"
    and x: "exit_cleanup order r (w_mgr w) = Ret m'"
    and w': "w' = w\<lparr>w_mgr := m', w_stage := (w_stage w)(r \<mapsto> Cleaned st)\<rparr>"
  have "IsTerminal st" using inv g by (auto simp: mgr_inv_def)
  moreover have "mgr_inv H0 (w\<lparr>w_mgr := m'\<rparr>)" using inv exit_cleanup_mg [OF x] by (rule mgr_inv_same)
  ultimately show "mgr_inv H0 w'" unfolding w'
    using mgr_inv_stage [of H0 "w\<lparr>w_mgr := m'\<rparr>" r "Announced st" "Cleaned st"] g by simp
next
  fix r st sid t t' rst m'
  assume "mgr_inv H0 w" "w_stage w r = Some (Cleaned st)" "exit_record out r sid t t' st (w_mgr w) = (rst, m')"
    and w': "w' = w\<lparr>w_mgr := m', w_stage := (w_stage w)(r := None)\<rparr>"
  then show "mgr_inv H0 w'" unfolding w' by (intro mgr_inv_record [THEN conjunct1])
next
  fix r assume inv: "mgr_inv H0 w" and w': "w' = w\<lparr>w_mgr := snd (CancelRun out r (w_mgr w))\<rparr>"
  show "mgr_inv H0 w'"
  proof (cases "mg_activeRuns (w_mgr w) r")
    case None
    with inv show ?thesis unfolding w' by (intro mgr_inv_same) (simp_all add: mg_same_def CancelRun_active)
  next
    case (Some s)
    then have "dom ((mg_activeRuns (w_mgr w))(r \<mapsto> s\<lparr>rs_cancelRequested := True\<rparr>)) = dom (mg_activeRuns (w_mgr w))"
      by auto
    with Some inv show ?thesis
      unfolding w' mgr_inv_def new_records_ok_def by (auto simp: CancelRun_active)
  qed
next
  fix m' assume "mgr_inv H0 w" "mg_same (w_mgr w) m'" "w' = w\<lparr>w_mgr := m'\<rparr>"
  then show "mgr_inv H0 w'" by (simp add: mgr_inv_same)
qed

interpretation mgr: inv_system "mgr_init H0" "mgr_step out" "mgr_inv H0" for H0 :: "RunRecord list" and out :: "'d outside"
proof
  show "mgr_inv H0 w" if "mgr_init H0 w" for w :: "'d world"
    using that by (auto simp: mgr_init_def mgr_inv_def new_records_ok_def)
  show "mgr_inv H0 w'" if "mgr_inv H0 w" "mgr_step out w w'" for w w' :: "'d world"
    using that by (rule mgr_step_inv)
qed

subsection \<open>Cancellation over time\<close>

definition marked :: "run_id \<Rightarrow> 'd world \<Rightarrow> bool" where
  "marked r w \<longleftrightarrow> r \<in> w_used w \<and> (\<forall>s. mg_activeRuns (w_mgr w) r = Some s \<longrightarrow> rs_cancelRequested s)"

lemma marked_step: "mgr_step out w w' \<Longrightarrow> marked r w \<Longrightarrow> marked r w'"
proof (erule mgr_stepE)
  fix q json res t sid ps a m'
  assume "marked r w" "q \<notin> w_used w" "StartRun out json res q t sid ps (w_mgr w) = Ret (Inr (q, a), m')"
    "w' = w\<lparr>w_mgr := m', w_stage := (w_stage w)(q \<mapsto> Waiting), w_used := insert q (w_used w)\<rparr>"
  then show "marked r w'" by (auto simp: marked_def dest!: StartRun_Inr split: if_splits)
next
  fix q json res t sid ps e m'
  assume "marked r w" "StartRun out json res q t sid ps (w_mgr w) = Ret (Inl e, m')"
    "w' = w\<lparr>w_mgr := m', w_used := insert q (w_used w)\<rparr>"
  then show "marked r w'" by (auto simp: marked_def mg_same_def dest!: StartRun_Inl)
next
  fix q sid exit st msg m'
  assume "marked r w" "exit_announce out q sid exit (w_mgr w) = Ret ((st, msg), m')"
    "w' = w\<lparr>w_mgr := m', w_stage := (w_stage w)(q \<mapsto> Announced st)\<rparr>"
  then show "marked r w'" by (auto simp: marked_def mg_same_def dest!: exit_announce_mg)
next
  fix q st order m'
  assume "marked r w" "exit_cleanup order q (w_mgr w) = Ret m'"
    "w' = w\<lparr>w_mgr := m', w_stage := (w_stage w)(q \<mapsto> Cleaned st)\<rparr>"
  then show "marked r w'" by (auto simp: marked_def mg_same_def dest!: exit_cleanup_mg)
next
  fix q st sid t t' rst m'
  assume "marked r w" and x: "exit_record out q sid t t' st (w_mgr w) = (rst, m')"
    and w': "w' = w\<lparr>w_mgr := m', w_stage := (w_stage w)(q := None)\<rparr>"
  moreover have "mg_activeRuns m' = (mg_activeRuns (w_mgr w))(q := None)"
    using exit_record_effect(1) [of out q sid t t' st "w_mgr w"] x by simp
  ultimately show "marked r w'" by (simp add: marked_def)
next
  fix q assume "marked r w" "w' = w\<lparr>w_mgr := snd (CancelRun out q (w_mgr w))\<rparr>"
  then show "marked r w'" by (auto simp: marked_def CancelRun_active split: option.splits)
next
  fix m' assume "marked r w" "mg_same (w_mgr w) m'" "w' = w\<lparr>w_mgr := m'\<rparr>"
  then show "marked r w'" by (simp add: marked_def mg_same_def)
qed

lemma marked_steps: "(mgr_step out)\<^sup>*\<^sup>* w w' \<Longrightarrow> marked r w \<Longrightarrow> marked r w'"
  by (induction rule: rtranclp_induct) (auto intro: marked_step)

text \<open>What a cancel of an active run sends, kills or arms.\<close>

lemma CancelRun_signal:
  assumes s: "mg_activeRuns m r = Some st"
  shows "(\<exists>a sid. sv_runs m r = Some a \<and> rc_stream (chan_at a m) = Some sid \<and>
            sv_wire (snd (CancelRun out r m)) = sv_wire m @ [(sid, ServerMessage_Cancel)] \<and>
            mg_timers (snd (CancelRun out r m)) = mg_timers m @ [r] \<and> mg_kills (snd (CancelRun out r m)) = mg_kills m) \<or>
         (sv_wire (snd (CancelRun out r m)) = sv_wire m \<and> mg_timers (snd (CancelRun out r m)) = mg_timers m \<and>
            mg_kills (snd (CancelRun out r m)) = mg_kills m @ (if rs_cancel st then [r] else []))"
proof -
  let ?m = "m\<lparr>mg_activeRuns := (mg_activeRuns m)(r \<mapsto> st\<lparr>rs_cancelRequested := True\<rparr>)\<rparr>"
  have chan: "chan_at a ?m = chan_at a m" for a by (simp add: chan_at_def)
  show ?thesis
  proof (cases "sv_runs m r")
    case None
    with s show ?thesis
      by (simp add: CancelRun_def Let_def SendCancel_def send_imperative_def proc_Cancel_def)
  next
    case a: (Some a)
    show ?thesis
    proof (cases "rc_stream (chan_at a m)")
      case None
      with s a chan show ?thesis
        by (simp add: CancelRun_def Let_def SendCancel_def send_imperative_def proc_Cancel_def)
    next
      case (Some sid)
      with s a chan show ?thesis
        by (cases "ox_send out sid (sv_sends m)")
          (simp_all add: CancelRun_def Let_def SendCancel_def send_imperative_def stream_Send_def proc_Cancel_def)
    qed
  qed
qed

lemma CancelAll_active:
  "mg_activeRuns (CancelAll out order m) =
     (\<lambda>r. if r \<in> set order then map_option (rs_cancelRequested_update (\<lambda>_. True)) (mg_activeRuns m r) else mg_activeRuns m r)"
proof (induction order arbitrary: m)
  case Nil
  then show ?case by (simp add: CancelAll_def)
next
  case (Cons q order)
  have step: "CancelAll out (q # order) m = CancelAll out order (snd (CancelRun out q m))"
    by (simp add: CancelAll_def)
  have "mg_activeRuns (snd (CancelRun out q m)) r =
      (if r = q then map_option (rs_cancelRequested_update (\<lambda>_. True)) (mg_activeRuns m r) else mg_activeRuns m r)" for r
    by (simp add: CancelRun_active split: option.split)
  then show ?case
    unfolding step Cons.IH by (auto simp: fun_eq_iff option.map_comp comp_def)
qed

lemma CancelRun_signals_mono:
  "set (mg_kills m) \<subseteq> set (mg_kills (snd (CancelRun out q m)))"
  "set (mg_timers m) \<subseteq> set (mg_timers (snd (CancelRun out q m)))"
proof -
  have "set (mg_kills m) \<subseteq> set (mg_kills (snd (CancelRun out q m))) \<and>
      set (mg_timers m) \<subseteq> set (mg_timers (snd (CancelRun out q m)))"
  proof (cases "mg_activeRuns m q")
    case None
    then show ?thesis by (simp add: CancelRun_def)
  next
    case (Some s)
    show ?thesis using CancelRun_signal [OF Some, of out] by auto
  qed
  then show "set (mg_kills m) \<subseteq> set (mg_kills (snd (CancelRun out q m)))"
    "set (mg_timers m) \<subseteq> set (mg_timers (snd (CancelRun out q m)))" by auto
qed

lemma CancelAll_mono:
  "set (mg_kills m) \<subseteq> set (mg_kills (CancelAll out order m)) \<and> set (mg_timers m) \<subseteq> set (mg_timers (CancelAll out order m))"
proof (induction order arbitrary: m)
  case Nil
  then show ?case by (simp add: CancelAll_def)
next
  case (Cons q order)
  have "CancelAll out (q # order) m = CancelAll out order (snd (CancelRun out q m))" by (simp add: CancelAll_def)
  then show ?case
    using CancelRun_signals_mono [of m out q] Cons.IH [of "snd (CancelRun out q m)"] by (simp only: subset_iff) blast
qed

lemma CancelAll_signals:
  "\<forall>r \<in> set order. \<forall>s. mg_activeRuns m r = Some s \<and> rs_cancel s \<longrightarrow>
     r \<in> set (mg_kills (CancelAll out order m)) \<union> set (mg_timers (CancelAll out order m))"
proof (induction order arbitrary: m)
  case (Cons q order)
  let ?m = "snd (CancelRun out q m)"
  have step: "CancelAll out (q # order) m = CancelAll out order ?m" by (simp add: CancelAll_def)
  show ?case unfolding step
  proof (intro ballI allI impI)
    fix r s assume r: "r \<in> set (q # order)" and s: "mg_activeRuns m r = Some s \<and> rs_cancel s"
    show "r \<in> set (mg_kills (CancelAll out order ?m)) \<union> set (mg_timers (CancelAll out order ?m))"
    proof (cases "r = q")
      case True
      then have "r \<in> set (mg_kills ?m) \<union> set (mg_timers ?m)"
        using s CancelRun_signal [of m q s out] by auto
      then show ?thesis using CancelAll_mono [of ?m out order] by auto
    next
      case False
      with r have "r \<in> set order" by simp
      moreover have "mg_activeRuns ?m r = Some s" using s False by (simp add: CancelRun_active split: option.split)
      ultimately show ?thesis using Cons.IH [of ?m] s by blast
    qed
  qed
qed simp

subsection \<open>History\<close>

definition scanned :: "'d outside \<Rightarrow> sqlrow \<Rightarrow> RunRecord option" where
  "scanned out row =
     (case sd_scanTimes (ox_sql out) row of
        Inl e \<Rightarrow> None
      | Inr (runID, scriptID, status, startedAt, endedAt) \<Rightarrow>
          Some \<lparr>rr_RunID = runID, rr_ScriptID = scriptID, rr_Status = status,
                rr_StartedAt = startedAt, rr_EndedAt = endedAt\<rparr>)"

lemma report_log_length: "length (rv_log (sv_rsv (report out ev m))) = Suc (length (rv_log (sv_rsv m)))"
  using arg_cong [OF Report_fields(2) [of "ox_env out" ev "sv_rsv m"], of length] by simp

lemma load_rows_history:
  "mg_history (load_rows out rows m) = mg_history m @ List.map_filter (scanned out) rows \<and>
   length (rv_log (sv_rsv (load_rows out rows m))) =
     length (rv_log (sv_rsv m)) + length (filter (\<lambda>row. scanned out row = None) rows) \<and>
   mg_activeRuns (load_rows out rows m) = mg_activeRuns m"
proof (induction rows arbitrary: m)
  case Nil
  then show ?case by (simp add: map_filter_simps)
next
  case (Cons row rows)
  show ?case
  proof (cases "sd_scanTimes (ox_sql out) row")
    case (Inl e)
    then show ?thesis using Cons.IH report_log_length by (simp add: scanned_def map_filter_simps)
  next
    case (Inr x)
    obtain runID scriptID status startedAt endedAt where "x = (runID, scriptID, status, startedAt, endedAt)"
      by (cases x)
    with Inr show ?thesis using Cons.IH by (simp add: scanned_def map_filter_simps)
  qed
qed

lemma session_status:
  assumes "awaiting r a m" and "Execute out s (Some (r # xs)) ms ended m = Ret (None, m')"
    and "rc_pythonStatus (chan_at a m) = None" and "\<not> rc_gotError (chan_at a m)"
  shows "deriveFinalStatus r code err m' =
     (if WasCancelled r m' then StatusCancelled
      else if err = None \<and> code = 0 \<and> last_error ms = None \<and> first_status ms = Some StatusCompleted
      then StatusCompleted else StatusFailed)"
proof -
  obtain handled rest where h: "ms = handled @ rest" "rest = []"
    and ch: "chan_at a m' = (fold absorb handled (connected s (chan_at a m)))\<lparr>rc_streamDone :=
       (rc_streamDone (chan_at a m))\<lparr>ch_closed := True\<rparr>\<rparr>" and runs: "sv_runs m' = sv_runs m"
    using Execute_session [OF assms(1,2)] by blast
  have "sv_runs m' r = Some a" using assms(1) runs by (simp add: awaiting_def)
  then have got: "GotError r m' \<longleftrightarrow> last_error ms \<noteq> None"
    and st: "PythonReportedStatus r m' = (case first_status ms of Some st \<Rightarrow> st | None \<Rightarrow> [])"
    using h assms(3,4)
    by (simp_all add: GotError_def PythonReportedStatus_def ch fold_absorb_gotError fold_absorb_status)
  have "PythonReportedStatus r m' = StatusCompleted \<longleftrightarrow> first_status ms = Some StatusCompleted"
    by (auto simp: st split: option.split)
  then show ?thesis
    using got by (auto simp: deriveFinalStatus_def GotFailedStatus_def GotCompletedStatus_def)
qed

subsection \<open>Properties\<close>

text \<open>C4: The one terminal status of a run. When the manager waits for the exit of an active run
  whose channel has room, it returns and every observer sees the same, derived, terminal
  status: it is the last message of the run's channel, which is closed behind it, and the
  status of the one record appended to the history; the run is gone from the active runs
  and from the server, it holds no cache block any more, and no other run's channel, state
  or references are touched.\<close>

theorem exit_single_terminal_status:
  assumes "server_inv m" and "sv_runs m r = Some a" and "mg_activeRuns m r = Some s"
    and "\<not> IsTerminal (rs_Status s)" and "room_for (chan_at a m) 1" and "WaitStreamDone r elapsed m = Ret ()"
    and "range_order (cm_blocks (sv_cache m)) order"
  shows "\<exists>m'. waitForExit out order r sid t (code, stderr, err) t' elapsed m = Ret m' \<and>
     (let st = deriveFinalStatus r code err m in
        IsTerminal st \<and> chan_ended st (chan_at a m) (chan_at a m') \<and>
        mg_history m' = mg_history m @
          [\<lparr>rr_RunID = r, rr_ScriptID = sid, rr_Status = st, rr_StartedAt = t, rr_EndedAt = t'\<rparr>]) \<and>
     (\<forall>b. b \<noteq> a \<longrightarrow> chan_at b m' = chan_at b m) \<and>
     sv_runs m' = (sv_runs m)(r := None) \<and> mg_activeRuns m' = (mg_activeRuns m)(r := None) \<and>
     cache_holders (sv_cache m') = (\<lambda>k. cache_holders (sv_cache m) k - {r})"
  using waitForExit_Ret [OF assms refl, of out sid t code stderr err t'] deriveFinalStatus_terminal
  by (auto simp: Let_def)

text \<open>C9: What decides the status. After a client session on a freshly registered run that was
  read to its end, the derived status is cancelled when a cancel was requested, and
  otherwise completed exactly when the process exited with code 0 and without a wait error,
  the script sent no error message, and the first terminal status it sent was completed; in
  every other case, silence included, it is failed.\<close>

theorem status_from_messages:
  assumes "awaiting r a m" and "Execute out s (Some (r # xs)) ms ended m = Ret (None, m')"
    and "rc_pythonStatus (chan_at a m) = None" and "\<not> rc_gotError (chan_at a m)"
  shows "deriveFinalStatus r code err m' =
     (if WasCancelled r m' then StatusCancelled
      else if err = None \<and> code = 0 \<and> last_error ms = None \<and> first_status ms = Some StatusCompleted
      then StatusCompleted else StatusFailed)"
  using assms by (rule session_status)

text \<open>C7: However the starts, cancels and exit stages of all runs interleave, every record the
  manager adds to the history belongs to a different run and has a terminal status; a run
  is never both active and recorded; every active run is running, so the status announced
  to the frontend is always the one recorded, and the branch that refuses a transition out
  of a terminal state is never taken.\<close>

theorem one_record_per_run:
  assumes "reach (mgr_init H0) (mgr_step out) w"
  shows "(\<exists>new. mg_history (w_mgr w) = H0 @ new \<and> distinct (map rr_RunID new) \<and>
            (\<forall>rec \<in> set new. IsTerminal (rr_Status rec) \<and> mg_activeRuns (w_mgr w) (rr_RunID rec) = None \<and>
               rr_RunID rec \<notin> rr_RunID ` set H0)) \<and>
         (\<forall>r s. mg_activeRuns (w_mgr w) r = Some s \<longrightarrow> rs_Status s = StatusRunning) \<and>
         (\<forall>r st sid t t'. w_stage w r = Some (Cleaned st) \<longrightarrow>
            fst (exit_record out r sid t t' st (w_mgr w)) = st \<and>
            sv_rsv (snd (exit_record out r sid t t' st (w_mgr w))) = sv_rsv (w_mgr w))"
proof -
  have inv: "mgr_inv H0 w" using assms by (rule mgr.reach_inv)
  then have running: "\<forall>r s. mg_activeRuns (w_mgr w) r = Some s \<longrightarrow> rs_Status s = StatusRunning"
    by (simp add: mgr_inv_def)
  obtain new where new: "mg_history (w_mgr w) = H0 @ new" "new_records_ok H0 w new"
    using inv by (auto simp: mgr_inv_def)
  have "mg_activeRuns (w_mgr w) (rr_RunID rec) = None \<and> rr_RunID rec \<notin> rr_RunID ` set H0" if "rec \<in> set new" for rec
  proof -
    have "rr_RunID rec \<in> w_used w - rr_RunID ` set H0 - dom (w_stage w)"
      using new(2) that unfolding new_records_ok_def by blast
    moreover have "dom (mg_activeRuns (w_mgr w)) = dom (w_stage w)" using inv by (simp add: mgr_inv_def)
    ultimately show ?thesis using domIff by blast
  qed
  with new running show ?thesis
    by (auto simp: new_records_ok_def exit_record_def Let_def IsTerminal_def split: option.split)
qed

text \<open>C8: An accepted cancel wins: once \<open>CancelRun\<close> has returned without an error, then whatever
  the rest of the program does before the run's exit is evaluated, its final status is
  cancelled, whatever its exit code, its errors and the statuses its script reported.\<close>

theorem accepted_cancel_wins:
  assumes "reach (mgr_init H0) (mgr_step out) w"
    and "CancelRun out r (w_mgr w) = (None, m1)"
    and "(mgr_step out)\<^sup>*\<^sup>* (w\<lparr>w_mgr := m1\<rparr>) w2" and "w_stage w2 r = Some Waiting"
  shows "deriveFinalStatus r code err (w_mgr w2) = StatusCancelled"
proof -
  have inv: "mgr_inv H0 w" using assms(1) by (rule mgr.reach_inv)
  obtain s where s: "mg_activeRuns (w_mgr w) r = Some s"
    using assms(2) CancelRun_result [of out r "w_mgr w"] by (auto split: if_splits)
  then have "r \<in> w_used w" using inv by (auto simp: mgr_inv_def)
  moreover have "mg_activeRuns m1 r = Some (s\<lparr>rs_cancelRequested := True\<rparr>)"
    using CancelRun_active(1) [of out r "w_mgr w"] assms(2) s by simp
  ultimately have "marked r (w\<lparr>w_mgr := m1\<rparr>)" by (simp add: marked_def)
  with assms(3) have marked: "marked r w2" by (rule marked_steps)
  have "mgr_step out w (w\<lparr>w_mgr := m1\<rparr>)" using w_cancel [of out w r] assms(2) by simp
  with inv have "mgr_inv H0 (w\<lparr>w_mgr := m1\<rparr>)" by (rule mgr_step_inv)
  with assms(3) have "mgr_inv H0 w2" by (rule mgr.steps_inv)
  then have "dom (mg_activeRuns (w_mgr w2)) = dom (w_stage w2)" by (simp add: mgr_inv_def)
  with assms(4) obtain s2 where "mg_activeRuns (w_mgr w2) r = Some s2" by auto
  with marked show ?thesis by (simp add: deriveFinalStatus_cases WasCancelled_def marked_def)
qed

text \<open>\<open>CancelRun\<close> of a run that is not active returns \<open>ErrRunNotActive\<close> and does nothing. Of
  an active run it always succeeds, marks that run and no other, and then does one of two
  things: the cancel message reached the script's stream and the delayed kill is armed, or
  nothing was sent and the process is killed at once.\<close>

theorem cancel_signals_or_kills:
  "case mg_activeRuns m r of
     None \<Rightarrow> CancelRun out r m = (Some ErrRunNotActive, m)
   | Some st \<Rightarrow> fst (CancelRun out r m) = None \<and>
       mg_activeRuns (snd (CancelRun out r m)) = (mg_activeRuns m)(r \<mapsto> st\<lparr>rs_cancelRequested := True\<rparr>) \<and>
       (let m' = snd (CancelRun out r m) in
          (\<exists>a sid. sv_runs m r = Some a \<and> rc_stream (chan_at a m) = Some sid \<and>
             sv_wire m' = sv_wire m @ [(sid, ServerMessage_Cancel)] \<and>
             mg_timers m' = mg_timers m @ [r] \<and> mg_kills m' = mg_kills m) \<or>
          sv_wire m' = sv_wire m \<and> mg_timers m' = mg_timers m \<and>
            mg_kills m' = mg_kills m @ (if rs_cancel st then [r] else []))"
proof (cases "mg_activeRuns m r")
  case None
  then show ?thesis by (simp add: CancelRun_def)
next
  case (Some st)
  then show ?thesis
    using CancelRun_signal [OF Some, of out] CancelRun_result [of out r m] CancelRun_active(1) [of out r m]
    by (simp add: Let_def)
qed

text \<open>\<open>CancelAll\<close> marks every active run, in whatever order the map is ranged over; the set
  of active runs does not change, and every process among them is either killed or has its
  delayed kill armed.\<close>

theorem cancel_all_reaches_everyone:
  assumes "range_order (mg_activeRuns m) order"
  shows "mg_activeRuns (CancelAll out order m) =
           (\<lambda>r. map_option (rs_cancelRequested_update (\<lambda>_. True)) (mg_activeRuns m r)) \<and>
         (\<forall>r s. mg_activeRuns m r = Some s \<and> rs_cancel s \<longrightarrow>
            r \<in> set (mg_kills (CancelAll out order m)) \<union> set (mg_timers (CancelAll out order m)))"
proof
  have order: "set order = dom (mg_activeRuns m)" using assms by (simp add: range_order_def)
  show "mg_activeRuns (CancelAll out order m) =
      (\<lambda>r. map_option (rs_cancelRequested_update (\<lambda>_. True)) (mg_activeRuns m r))"
    by (auto simp: CancelAll_active order fun_eq_iff domIff)
  show "\<forall>r s. mg_activeRuns m r = Some s \<and> rs_cancel s \<longrightarrow>
      r \<in> set (mg_kills (CancelAll out order m)) \<union> set (mg_timers (CancelAll out order m))"
    using CancelAll_signals [of order m out] by (auto simp: order)
qed

text \<open>A start whose process cannot be spawned leaves no run behind: the caller gets the
  wrapped error, nothing is registered or active under the new id, the channel that was
  created is ended, and neither the history, the cache nor the reservoir changed.\<close>

theorem failed_start_leaves_nothing:
  assumes "server_inv m" and "sv_runs m r = None"
  shows "\<exists>m'. StartRun out json (Some e) r t sid ps m =
       Ret (Inl (Errorf (''starting script '' @ sid @ '': '' @ error_text e) (Some e)), m') \<and>
     sv_runs m' = sv_runs m \<and> mg_activeRuns m' = mg_activeRuns m \<and> mg_history m' = mg_history m \<and>
     sv_cache m' = sv_cache m \<and> sv_rsv m' = sv_rsv m \<and>
     rc_phase (chan_at (length (sv_chans m)) m') = PhaseDone"
proof -
  have "(sv_runs m)(r := None) = sv_runs m" using assms(2) by auto
  then show ?thesis
    using StartRun_failed [OF assms(1), of out json e r t sid ps] by (auto simp: mg_same_def)
qed

text \<open>Loading the history keeps every row of the query that scans, in the order the query
  returned them, and reports one warning for each row that does not, so one broken row never
  hides another; a failed query loads nothing and is reported once.\<close>

theorem load_history_rows:
  "case sd_query (ox_sql out) history_query [] db of
     (Inl e, db') \<Rightarrow> mg_history (loadHistory out db m) = mg_history m \<and>
       length (rv_log (sv_rsv (loadHistory out db m))) = Suc (length (rv_log (sv_rsv m)))
   | (Inr rows, db') \<Rightarrow>
       mg_history (loadHistory out db m) = mg_history m @ List.map_filter (scanned out) (rw_Rows rows) \<and>
       length (rv_log (sv_rsv (loadHistory out db m))) =
         length (rv_log (sv_rsv m)) + length (filter (\<lambda>row. scanned out row = None) (rw_Rows rows))"
proof -
  obtain res db' where q: "sd_query (ox_sql out) history_query [] db = (res, db')" by force
  show ?thesis
  proof (cases res)
    case (Inl e)
    then show ?thesis by (simp add: q loadHistory_def report_log_length del: report_frame)
  next
    case (Inr rows)
    then show ?thesis
      using load_rows_history [of out "rw_Rows rows" "m\<lparr>sv_db := Some db'\<rparr>"] by (simp add: q loadHistory_def)
  qed
qed

subsection \<open>Witnesses\<close>

definition test_manager :: "unit manager" where
  "test_manager = NewManager test_out fresh_server"

text \<open>Run \<open>r1\<close> of script \<open>s\<close>, started.\<close>

definition started_manager :: "unit manager" where
  "started_manager = (case StartRun test_out (\<lambda>_. ''{}'') None ''r1'' 5 ''s'' [] test_manager of
     Ret (_, m) \<Rightarrow> m | _ \<Rightarrow> test_manager)"

lemma test_manager_fields:
  "sv_runs test_manager = Map.empty" "sv_chans test_manager = []" "sv_cache test_manager = NewCacheManager False {}"
  "sv_db test_manager = Some ()" "mg_activeRuns test_manager = Map.empty" "mg_history test_manager = []"
  by (simp_all add: test_manager_def NewManager_def fresh_server_def NewGRPCServer_def server.defs Let_def
      loadHistory_def test_out_def test_sql_def report_def)

lemma test_manager_inv: "server_inv test_manager"
  by (simp add: server_inv_def test_manager_fields NewCacheManager_ok)

lemma started_manager_start:
  "StartRun test_out (\<lambda>_. ''{}'') None ''r1'' 5 ''s'' [] test_manager = Ret (Inr (''r1'', 0), started_manager)"
  using StartRun_started [of test_out "\<lambda>_. ''{}''" "''r1''" 5 "''s''" "[]" test_manager]
  by (auto simp: started_manager_def test_manager_fields)

lemma started_manager_fields:
  "sv_runs started_manager = [''r1'' \<mapsto> 0]" "sv_chans started_manager = [newRunChannel]"
  "mg_activeRuns started_manager = [''r1'' \<mapsto> \<lparr>rs_RunID = ''r1'', rs_ScriptID = ''s'', rs_Status = StatusRunning,
       rs_messages = Some 0, rs_cancel = True, rs_cancelRequested = False\<rparr>]"
  "mg_history started_manager = []" "sv_cache started_manager = NewCacheManager False {}"
  "sv_db started_manager \<noteq> None"
  using StartRun_started [of test_out "\<lambda>_. ''{}''" "''r1''" 5 "''s''" "[]" test_manager]
  by (auto simp: started_manager_start test_manager_fields)

lemma started_manager_chan: "chan_at 0 started_manager = newRunChannel"
  by (simp add: chan_at_def started_manager_fields)

lemma started_manager_inv: "server_inv started_manager"
  by (auto simp: server_inv_def started_manager_fields NewCacheManager_ok started_manager_chan newRunChannel_inv)
    (simp add: newRunChannel_def)

lemma started_manager_awaiting: "awaiting ''r1'' 0 started_manager"
  using started_manager_inv started_manager_fields(6)
  by (simp add: awaiting_def started_manager_chan started_manager_fields(1)) (simp add: newRunChannel_def)

lemma exit_single_terminal_status_witness:
  "\<exists>m'. waitForExit test_out [] ''r1'' ''s'' 5 (1, ''Traceback'', None) 9 False started_manager = Ret m' \<and>
     mg_history m' = [\<lparr>rr_RunID = ''r1'', rr_ScriptID = ''s'', rr_Status = StatusFailed, rr_StartedAt = 5, rr_EndedAt = 9\<rparr>]"
proof -
  have room: "room_for (chan_at 0 started_manager) 1"
    by (simp add: room_for_def started_manager_chan newRunChannel_def)
  have wait: "WaitStreamDone ''r1'' False started_manager = Ret ()"
    by (simp add: WaitStreamDone_def started_manager_fields started_manager_chan newRunChannel_def)
  have order: "range_order (cm_blocks (sv_cache started_manager)) []"
    by (simp add: range_order_def started_manager_fields NewCacheManager_def)
  have st: "deriveFinalStatus ''r1'' 1 None started_manager = StatusFailed"
    by (simp add: deriveFinalStatus_def WasCancelled_def started_manager_fields)
  have "sv_runs started_manager ''r1'' = Some 0" by (simp add: started_manager_fields)
  note exit = exit_single_terminal_status [OF started_manager_inv this _ _ room wait order]
  obtain m' where "waitForExit test_out [] ''r1'' ''s'' 5 (1, ''Traceback'', None) 9 False started_manager = Ret m'"
    "mg_history m' = mg_history started_manager @ [\<lparr>rr_RunID = ''r1'', rr_ScriptID = ''s'',
       rr_Status = deriveFinalStatus ''r1'' 1 None started_manager, rr_StartedAt = 5, rr_EndedAt = 9\<rparr>]"
    using exit [of "\<lparr>rs_RunID = ''r1'', rs_ScriptID = ''s'', rs_Status = StatusRunning, rs_messages = Some 0,
        rs_cancel = True, rs_cancelRequested = False\<rparr>" test_out "''s''" 5 1 "''Traceback''" None 9]
    by (auto simp: started_manager_fields(3) IsTerminal_def Let_def)
  then show ?thesis by (simp add: st started_manager_fields)
qed

definition quiet_msgs :: "ClientMessage list" where
  "quiet_msgs = [ClientMessage_Output ''hello'', ClientMessage_Status ''completed'']"

lemma quiet_session:
  "\<exists>m'. Execute test_out 5 (Some [''r1'']) quiet_msgs (Errorf ''EOF'' None) started_manager = Ret (None, m')"
proof -
  obtain res m' where e: "Execute test_out 5 (Some [''r1'']) quiet_msgs (Errorf ''EOF'' None) started_manager = Ret (res, m')"
    using Execute_Ret [OF started_manager_awaiting, of quiet_msgs test_out 5 "[]" "Errorf ''EOF'' None"]
    by (auto simp: started_manager_chan newRunChannel_def quiet_msgs_def)
  obtain handled rest where h: "quiet_msgs = handled @ rest"
    and r: "res \<noteq> None \<longrightarrow> handled \<noteq> [] \<and> is_request (last handled)"
    using Execute_session [OF started_manager_awaiting e] by (metis (no_types, lifting))
  have "\<not> is_request (last handled)" if "handled \<noteq> []"
  proof -
    from that have "last handled \<in> set handled" by (rule last_in_set)
    then have "last handled \<in> set quiet_msgs" by (simp add: h)
    then show ?thesis by (auto simp: quiet_msgs_def)
  qed
  with r e show ?thesis by auto
qed

lemma status_from_messages_witness:
  "\<exists>m'. Execute test_out 5 (Some [''r1'']) quiet_msgs (Errorf ''EOF'' None) started_manager = Ret (None, m') \<and>
     deriveFinalStatus ''r1'' 0 None m' = (if WasCancelled ''r1'' m' then StatusCancelled else StatusCompleted)"
proof -
  obtain m' where e: "Execute test_out 5 (Some [''r1'']) quiet_msgs (Errorf ''EOF'' None) started_manager = Ret (None, m')"
    using quiet_session by blast
  have "rc_pythonStatus (chan_at 0 started_manager) = None" "\<not> rc_gotError (chan_at 0 started_manager)"
    by (simp_all add: started_manager_chan newRunChannel_def)
  from status_from_messages [OF started_manager_awaiting e this, of 0 None] e show ?thesis
    by (auto simp: quiet_msgs_def)
qed

definition test_world :: "unit world" where
  "test_world = \<lparr>w_mgr = test_manager, w_stage = Map.empty, w_used = {}\<rparr>"

definition started_world :: "unit world" where
  "started_world = \<lparr>w_mgr = started_manager, w_stage = [''r1'' \<mapsto> Waiting], w_used = {''r1''}\<rparr>"

lemma started_world_reachable: "reach (mgr_init []) (mgr_step test_out) started_world"
proof -
  have "mgr_init [] test_world" by (simp add: mgr_init_def test_world_def test_manager_fields)
  then have "reach (mgr_init []) (mgr_step test_out) test_world" by (rule reach_init)
  moreover have "mgr_step test_out test_world (test_world\<lparr>w_mgr := started_manager,
      w_stage := (w_stage test_world)(''r1'' \<mapsto> Waiting), w_used := insert ''r1'' (w_used test_world)\<rparr>)"
    by (rule w_start) (simp add: test_world_def, simp only: test_world_def world.simps, rule started_manager_start)
  ultimately show ?thesis by (simp add: test_world_def started_world_def reach_step)
qed

lemma one_record_per_run_witness:
  "mg_activeRuns (w_mgr started_world) ''r1'' \<noteq> None \<and>
   rs_Status (the (mg_activeRuns (w_mgr started_world) ''r1'')) = StatusRunning"
  using one_record_per_run [OF started_world_reachable]
  by (simp add: started_world_def started_manager_fields)

lemma accepted_cancel_wins_witness:
  "deriveFinalStatus ''r1'' 0 None (snd (CancelRun test_out ''r1'' started_manager)) = StatusCancelled"
proof -
  have "CancelRun test_out ''r1'' (w_mgr started_world) = (None, snd (CancelRun test_out ''r1'' started_manager))"
    using CancelRun_result [of test_out "''r1''" started_manager]
    by (simp add: started_world_def started_manager_fields prod_eq_iff)
  from accepted_cancel_wins [OF started_world_reachable this rtranclp.rtrancl_refl] show ?thesis
    by (simp add: started_world_def)
qed

lemma cancel_signals_or_kills_witness:
  "fst (CancelRun test_out ''r1'' started_manager) = None \<and>
   CancelRun test_out ''r2'' started_manager = (Some ErrRunNotActive, started_manager)"
  using cancel_signals_or_kills [where m = started_manager and r = "''r1''" and out = test_out]
    cancel_signals_or_kills [where m = started_manager and r = "''r2''" and out = test_out]
  by (simp add: started_manager_fields)

lemma cancel_all_reaches_everyone_witness:
  "WasCancelled ''r1'' (CancelAll test_out [''r1''] started_manager)"
proof -
  have "range_order (mg_activeRuns started_manager) [''r1'']"
    by (simp add: range_order_def started_manager_fields)
  from cancel_all_reaches_everyone [OF this, of test_out] show ?thesis
    by (simp add: WasCancelled_def started_manager_fields)
qed

lemma failed_start_leaves_nothing_witness:
  "\<exists>m'. StartRun test_out (\<lambda>_. ''{}'') (Some (Errorf ''no python'' None)) ''r2'' 5 ''s'' [] started_manager =
     Ret (Inl (Errorf ''starting script s: no python'' (Some (Errorf ''no python'' None))), m') \<and>
     mg_activeRuns m' = mg_activeRuns started_manager"
  using failed_start_leaves_nothing [OF started_manager_inv, of "''r2''" test_out "\<lambda>_. ''{}''"
      "Errorf ''no python'' None" 5 "''s''" "[]"]
  by (auto simp: started_manager_fields)

end
