(* ===== verification/RunHistory.thy ===== *)
theory RunHistory
  imports Manager
begin

section \<open>RunHistory: the history in memory, in the database, and after a restart\<close>

text \<open>
  No code of its own: the manager of \<^verbatim>\<open>internal/runner/manager.go\<close> over its lifetime, with the \<open>runs\<close> table
  beside it. \<open>StartRun\<close> inserts a row, the last stage of \<open>waitForExit\<close> updates it, and
  \<open>loadHistory\<close> reads the finished rows when the program starts again. \<open>book_step\<close> interleaves the
  starts, the stages of every exit, cancels, and the rest of the program, which may change the
  database as long as it leaves the \<open>runs\<close> table alone. SQLite is a parameter: \<open>runs_table\<close> states
  what its documentation promises of the three statements.
\<close>

subsection \<open>The table\<close>

text \<open>A row: script, status, start, and the end unless it is NULL.\<close>

type_synonym run_row = "script_id \<times> RunStatus \<times> time \<times> time option"

fun row_record :: "run_id \<Rightarrow> run_row \<Rightarrow> RunRecord option" where
  "row_record r (sid, st, t, None) = None"
| "row_record r (sid, st, t, Some e) =
     (if IsTerminal st then Some \<lparr>rr_RunID = r, rr_ScriptID = sid, rr_Status = st, rr_StartedAt = t, rr_EndedAt = e\<rparr> else None)"

definition table_records :: "(run_id \<rightharpoonup> run_row) \<Rightarrow> RunRecord set" where
  "table_records tab = {rec. \<exists>row. tab (rr_RunID rec) = Some row \<and> row_record (rr_RunID rec) row = Some rec}"

text \<open>
  \<open>runs_of\<close> reads the table out of a database state: an insert under a new primary key adds
  the row, an update under a key sets status and end, and the query returns the finished rows,
  each once, newest start first.
\<close>

definition runs_insert :: "'d outside \<Rightarrow> ('d \<Rightarrow> run_id \<rightharpoonup> run_row) \<Rightarrow> bool" where
  "runs_insert out runs_of \<longleftrightarrow> (\<forall>db r sid st ps t. runs_of db r = None \<longrightarrow>
     runs_of (snd (sd_exec (ox_sql out) insert_run [SqlText r, SqlText sid, SqlText st, SqlText ps, SqlTime t] db)) =
       (runs_of db)(r \<mapsto> (sid, st, t, None)))"

definition runs_update :: "'d outside \<Rightarrow> ('d \<Rightarrow> run_id \<rightharpoonup> run_row) \<Rightarrow> bool" where
  "runs_update out runs_of \<longleftrightarrow> (\<forall>db st e code msg r.
     runs_of (snd (sd_exec (ox_sql out) update_run [SqlText st, SqlTime e, SqlInt code, SqlText msg, SqlText r] db)) =
       (case runs_of db r of
          None \<Rightarrow> runs_of db
        | Some (sid, st0, t, e0) \<Rightarrow> (runs_of db)(r \<mapsto> (sid, st, t, Some e))))"

definition runs_query :: "'d outside \<Rightarrow> ('d \<Rightarrow> run_id \<rightharpoonup> run_row) \<Rightarrow> bool" where
  "runs_query out runs_of \<longleftrightarrow> (\<forall>db. \<exists>rows db'. sd_query (ox_sql out) history_query [] db = (Inr rows, db') \<and>
     runs_of db' = runs_of db \<and>
     (let recs = List.map_filter (scanned out) (rw_Rows rows) in
        set recs = table_records (runs_of db) \<and> distinct recs \<and>
        sorted_wrt (\<lambda>a b. rr_StartedAt b \<le> rr_StartedAt a) recs))"

definition runs_table :: "'d outside \<Rightarrow> ('d \<Rightarrow> run_id \<rightharpoonup> run_row) \<Rightarrow> bool" where
  "runs_table out runs_of \<longleftrightarrow> runs_insert out runs_of \<and> runs_update out runs_of \<and> runs_query out runs_of"

subsection \<open>The manager over its lifetime\<close>

text \<open>
  Where the \<open>waitForExit\<close> goroutine of a run stands, with its locals: the status and error message
  derived, then what was recorded and is still to be written.
\<close>

datatype exit_pc =
    ExitWaiting
  | ExitAnnounced RunStatus string int
  | ExitCleaned RunStatus string int
  | ExitRecorded RunStatus string int time

text \<open>\<open>bk_exits\<close> are these goroutines with the script and start time they were called with.\<close>

record 'd book =
  bk_mgr :: "'d manager"
  bk_exits :: "run_id \<rightharpoonup> script_id \<times> time \<times> exit_pc"
  bk_used :: "run_id set"

definition exit_at :: "run_id \<Rightarrow> script_id \<times> time \<times> exit_pc \<Rightarrow> 'd manager \<Rightarrow> 'd book \<Rightarrow> 'd book" where
  "exit_at r g m b = b\<lparr>bk_mgr := m, bk_exits := (bk_exits b)(r \<mapsto> g)\<rparr>"

inductive book_step :: "'d outside \<Rightarrow> ('d \<Rightarrow> run_id \<rightharpoonup> run_row) \<Rightarrow> 'd book \<Rightarrow> 'd book \<Rightarrow> bool"
  for out :: "'d outside" and runs_of :: "'d \<Rightarrow> run_id \<rightharpoonup> run_row"
where
  b_start: "r \<notin> bk_used b \<Longrightarrow> StartRun out json res r t sid ps (bk_mgr b) = Ret (Inr (r', a), m') \<Longrightarrow>
    book_step out runs_of b ((exit_at r (sid, t, ExitWaiting) m' b)\<lparr>bk_used := insert r (bk_used b)\<rparr>)"
| b_start_failed: "r \<notin> bk_used b \<Longrightarrow> StartRun out json res r t sid ps (bk_mgr b) = Ret (Inl e, m') \<Longrightarrow>
    book_step out runs_of b (b\<lparr>bk_mgr := m', bk_used := insert r (bk_used b)\<rparr>)"
| b_announce: "bk_exits b r = Some (sid, t, ExitWaiting) \<Longrightarrow>
    exit_announce out r sid exit (bk_mgr b) = Ret ((st, msg), m') \<Longrightarrow>
    book_step out runs_of b (exit_at r (sid, t, ExitAnnounced st msg (fst exit)) m' b)"
| b_cleanup: "bk_exits b r = Some (sid, t, ExitAnnounced st msg code) \<Longrightarrow> exit_cleanup order r (bk_mgr b) = Ret m' \<Longrightarrow>
    book_step out runs_of b (exit_at r (sid, t, ExitCleaned st msg code) m' b)"
| b_record: "bk_exits b r = Some (sid, t, ExitCleaned st msg code) \<Longrightarrow>
    exit_record out r sid t t' st (bk_mgr b) = (rst, m') \<Longrightarrow>
    book_step out runs_of b (exit_at r (sid, t, ExitRecorded rst msg code t') m' b)"
| b_persist: "bk_exits b r = Some (sid, t, ExitRecorded rst msg code t') \<Longrightarrow>
    book_step out runs_of b (b\<lparr>bk_mgr := exit_persist out r sid t' rst msg code (bk_mgr b), bk_exits := (bk_exits b)(r := None)\<rparr>)"
| b_cancel: "book_step out runs_of b (b\<lparr>bk_mgr := snd (CancelRun out r (bk_mgr b))\<rparr>)"
| b_other: "mg_same (bk_mgr b) m' \<Longrightarrow> sv_db (bk_mgr b) = Some db \<Longrightarrow> sv_db m' = Some db' \<Longrightarrow> runs_of db' = runs_of db \<Longrightarrow>
    book_step out runs_of b (b\<lparr>bk_mgr := m'\<rparr>)"

text \<open>The program starts on whatever earlier lives left in the table.\<close>

definition book_init :: "'d outside \<Rightarrow> ('d \<Rightarrow> run_id \<rightharpoonup> run_row) \<Rightarrow> 'd book \<Rightarrow> bool" where
  "book_init out runs_of b \<longleftrightarrow> (\<exists>sv db. sv_db sv = Some db \<and> bk_mgr b = NewManager out sv \<and>
     dom (runs_of db) \<subseteq> bk_used b \<and> bk_exits b = Map.empty)"

subsection \<open>Invariant\<close>

fun exit_recorded :: "run_id \<Rightarrow> script_id \<times> time \<times> exit_pc \<Rightarrow> RunRecord option" where
  "exit_recorded r (sid, t, ExitRecorded st msg code e) =
     Some \<lparr>rr_RunID = r, rr_ScriptID = sid, rr_Status = st, rr_StartedAt = t, rr_EndedAt = e\<rparr>"
| "exit_recorded r (sid, t, ExitWaiting) = None"
| "exit_recorded r (sid, t, ExitAnnounced st msg code) = None"
| "exit_recorded r (sid, t, ExitCleaned st msg code) = None"

fun pc_terminal :: "exit_pc \<Rightarrow> bool" where
  "pc_terminal ExitWaiting = True"
| "pc_terminal (ExitAnnounced st msg code) = IsTerminal st"
| "pc_terminal (ExitCleaned st msg code) = IsTerminal st"
| "pc_terminal (ExitRecorded st msg code e) = IsTerminal st"

text \<open>
  A run with a goroutine has its row as the start wrote it, and in memory the record of its
  goroutine, if that has recorded; any other run has the same record in both.
\<close>

definition book_inv :: "('d \<Rightarrow> run_id \<rightharpoonup> run_row) \<Rightarrow> 'd book \<Rightarrow> bool" where
  "book_inv runs_of b \<longleftrightarrow> (\<exists>db. sv_db (bk_mgr b) = Some db \<and>
     dom (runs_of db) \<subseteq> bk_used b \<and> dom (bk_exits b) \<subseteq> bk_used b \<and> distinct (mg_history (bk_mgr b)) \<and>
     (\<forall>r sid t pc. bk_exits b r = Some (sid, t, pc) \<longrightarrow> runs_of db r = Some (sid, StatusRunning, t, None) \<and> pc_terminal pc) \<and>
     (\<forall>rec. rec \<in> set (mg_history (bk_mgr b)) \<longleftrightarrow>
        (case bk_exits b (rr_RunID rec) of
           Some g \<Rightarrow> exit_recorded (rr_RunID rec) g = Some rec
         | None \<Rightarrow> rec \<in> table_records (runs_of db))))"

lemma row_record_id: "row_record r row = Some rec \<Longrightarrow> rr_RunID rec = r"
  by (cases "(r, row)" rule: row_record.cases) (auto split: if_splits)

lemma exit_recorded_id: "exit_recorded r g = Some rec \<Longrightarrow> rr_RunID rec = r"
  by (cases "(r, g)" rule: exit_recorded.cases) auto

lemma table_records_upd:
  "rec \<in> table_records (tab(r \<mapsto> row)) \<longleftrightarrow>
     (if rr_RunID rec = r then row_record r row = Some rec else rec \<in> table_records tab)"
  by (cases row) (auto simp: table_records_def)

lemma table_recordsI:
  "tab (rr_RunID rec) = Some row \<Longrightarrow> row_record (rr_RunID rec) row = Some rec \<Longrightarrow> rec \<in> table_records tab"
  unfolding table_records_def by (rule CollectI, rule exI [of _ row], rule conjI)

lemma table_records_None: "tab (rr_RunID rec) = None \<Longrightarrow> rec \<notin> table_records tab"
  by (simp add: table_records_def)

text \<open>What each operation does to the database.\<close>

lemma db_exec_db [simp]: "sv_db (snd (db_exec out q args db m)) = Some (snd (sd_exec (ox_sql out) q args db))"
  by (simp add: db_exec_def split: prod.split sum.split)

lemma chan_op_db: "chan_op a f m = Ret (x, m') \<Longrightarrow> sv_db m' = sv_db m"
  by (auto simp: chan_op_def set_chan_def go_bind_eq_Ret split: prod.splits)

lemma UnregisterRun_db: "UnregisterRun r m = Ret m' \<Longrightarrow> sv_db m' = sv_db m"
  by (auto simp: UnregisterRun_def go_bind_eq_Ret split: option.splits prod.splits dest!: chan_op_db)

lemma TrySendStatus_db: "TrySendStatus r st m = Ret m' \<Longrightarrow> sv_db m' = sv_db m"
  by (auto simp: TrySendStatus_def try_send_at_def go_bind_eq_Ret split: option.splits prod.splits dest!: chan_op_db)

lemma exit_announce_db: "exit_announce out r sid exit m = Ret (x, m') \<Longrightarrow> sv_db m' = sv_db m"
  by (auto simp: exit_announce_def Let_def go_bind_eq_Ret split: prod.splits if_splits dest!: TrySendStatus_db)

lemma exit_cleanup_db: "exit_cleanup order r m = Ret m' \<Longrightarrow> sv_db m' = sv_db m"
  unfolding exit_cleanup_def by (drule UnregisterRun_db) simp

lemma exit_record_db: "exit_record out r sid t t' st m = (rst, m') \<Longrightarrow> sv_db m' = sv_db m"
  by (auto simp: exit_record_def Let_def split: option.splits if_splits)

lemma exit_persist_db:
  "sv_db m = Some db \<Longrightarrow> sv_db (exit_persist out r sid e st msg code m) =
     Some (snd (sd_exec (ox_sql out) update_run [SqlText st, SqlTime e, SqlInt code, SqlText msg, SqlText r] db))"
  by (simp add: exit_persist_def db_exec_def Let_def split: prod.split sum.split)

lemma CancelRun_db: "sv_db (snd (CancelRun out r m)) = sv_db m"
proof (cases "mg_activeRuns m r")
  case None
  then show ?thesis by (simp add: CancelRun_def)
next
  case (Some s)
  define m1 where "m1 = m\<lparr>mg_activeRuns := (mg_activeRuns m)(r \<mapsto> s\<lparr>rs_cancelRequested := True\<rparr>)\<rparr>"
  obtain res m2 where c: "SendCancel out r m1 = (res, m2)" by fastforce
  have "sv_db (snd (SendCancel out r m1)) = sv_db m1"
    by (simp add: SendCancel_def send_imperative_def stream_Send_def split: option.split)
  then have "sv_db m2 = sv_db m1" by (simp add: c)
  then have "sv_db m2 = sv_db m" by (simp add: m1_def)
  then show ?thesis
    by (cases res) (simp_all add: CancelRun_def Some Let_def m1_def [symmetric] c proc_Cancel_def)
qed

lemma StartRun_Inr_db:
  assumes "StartRun out json res r t sid ps m = Ret (Inr (r', a), m')" "sv_db m = Some db"
  shows "sv_db m' = Some (snd (sd_exec (ox_sql out) insert_run
     [SqlText r, SqlText sid, SqlText StatusRunning, SqlText (json ps), SqlTime t] db))"
  using assms by (auto simp: StartRun_def RegisterRun_def Let_def db_exec_def go_bind_eq_Ret
      split: option.splits prod.splits sum.splits)

lemma StartRun_Inl_db:
  assumes "StartRun out json res r t sid ps m = Ret (Inl e, m')"
  shows "sv_db m' = sv_db m"
  using assms by (auto simp: StartRun_def RegisterRun_def Let_def go_bind_eq_Ret
      split: option.splits prod.splits dest!: UnregisterRun_db)

text \<open>A stage of one run's exit: its row stays, and its own record is all the history may gain.\<close>

lemma book_inv_exit:
  assumes "book_inv runs_of b" "bk_exits b r = Some (sid, t, pc)" "sv_db m' = sv_db (bk_mgr b)" "pc_terminal pc'"
    and "distinct (mg_history m')"
    and "\<And>rec. rec \<in> set (mg_history m') \<longleftrightarrow>
      (if rr_RunID rec = r then exit_recorded r (sid, t, pc') = Some rec else rec \<in> set (mg_history (bk_mgr b)))"
  shows "book_inv runs_of (exit_at r (sid, t, pc') m' b)"
proof -
  obtain db where db: "sv_db (bk_mgr b) = Some db"
    and inv: "dom (runs_of db) \<subseteq> bk_used b" "dom (bk_exits b) \<subseteq> bk_used b"
      "\<forall>r sid t pc. bk_exits b r = Some (sid, t, pc) \<longrightarrow> runs_of db r = Some (sid, StatusRunning, t, None) \<and> pc_terminal pc"
      "\<forall>rec. rec \<in> set (mg_history (bk_mgr b)) \<longleftrightarrow> (case bk_exits b (rr_RunID rec) of
         Some g \<Rightarrow> exit_recorded (rr_RunID rec) g = Some rec | None \<Rightarrow> rec \<in> table_records (runs_of db))"
    using assms(1) unfolding book_inv_def by blast
  have "r \<in> bk_used b" using inv(2) assms(2) by blast
  moreover have "runs_of db r = Some (sid, StatusRunning, t, None)" using inv(3) assms(2) by blast
  ultimately show ?thesis
    unfolding book_inv_def
    by (intro exI [of _ db]) (use assms(3-6) db inv in \<open>auto simp: exit_at_def\<close>)
qed

lemma book_inv_mgr:
  assumes "book_inv runs_of b" "mg_history m' = mg_history (bk_mgr b)" "bk_used b \<subseteq> U"
    and "sv_db (bk_mgr b) = Some db" "sv_db m' = Some db'" "runs_of db' = runs_of db"
  shows "book_inv runs_of (b\<lparr>bk_mgr := m', bk_used := U\<rparr>)"
  using assms unfolding book_inv_def by (auto cong: option.case_cong)

lemma book_inv_start:
  assumes tab: "runs_insert out runs_of" and inv: "book_inv runs_of b" and r: "r \<notin> bk_used b"
    and s: "StartRun out json res r t sid ps (bk_mgr b) = Ret (Inr (r', a), m')"
  shows "book_inv runs_of ((exit_at r (sid, t, ExitWaiting) m' b)\<lparr>bk_used := insert r (bk_used b)\<rparr>)"
proof -
  have "res = None" using s by (cases res) (auto simp: StartRun_def go_bind_eq_Ret split: prod.splits)
  then have "r' = r" using s StartRun_started [of out json r t sid ps "bk_mgr b"] by auto
  have hist: "mg_history m' = mg_history (bk_mgr b)" using StartRun_Inr [OF s [unfolded \<open>r' = r\<close>]] by simp
  obtain db where db: "sv_db (bk_mgr b) = Some db" and i: "dom (runs_of db) \<subseteq> bk_used b" "dom (bk_exits b) \<subseteq> bk_used b"
    using inv unfolding book_inv_def by blast
  have none: "runs_of db r = None" "bk_exits b r = None" using i r by auto
  define db' where "db' = snd (sd_exec (ox_sql out) insert_run
     [SqlText r, SqlText sid, SqlText StatusRunning, SqlText (json ps), SqlTime t] db)"
  have db': "sv_db m' = Some db'" unfolding db'_def by (rule StartRun_Inr_db [OF s db])
  have tab': "runs_of db' = (runs_of db)(r \<mapsto> (sid, StatusRunning, t, None))"
    using tab none(1) unfolding runs_insert_def db'_def by blast
  have new: "rec \<notin> set (mg_history (bk_mgr b))" if "rr_RunID rec = r" for rec
    using inv db none that table_records_None [of "runs_of db" rec] unfolding book_inv_def by auto
  have "rec \<in> set (mg_history m') \<longleftrightarrow> (case ((bk_exits b)(r \<mapsto> (sid, t, ExitWaiting))) (rr_RunID rec) of
       Some g \<Rightarrow> exit_recorded (rr_RunID rec) g = Some rec | None \<Rightarrow> rec \<in> table_records (runs_of db'))" for rec
  proof (cases "rr_RunID rec = r")
    case True
    with new show ?thesis by (simp add: hist)
  next
    case False
    with inv db show ?thesis unfolding book_inv_def by (simp add: hist tab' table_records_upd cong: option.case_cong)
  qed
  then show ?thesis
    using inv db db' i tab' none unfolding book_inv_def by (auto simp: exit_at_def hist)
qed

lemma book_inv_persist:
  assumes tab: "runs_update out runs_of" and inv: "book_inv runs_of b"
    and g: "bk_exits b r = Some (sid, t, ExitRecorded rst msg code t')"
  shows "book_inv runs_of (b\<lparr>bk_mgr := exit_persist out r sid t' rst msg code (bk_mgr b), bk_exits := (bk_exits b)(r := None)\<rparr>)"
proof -
  obtain db where db: "sv_db (bk_mgr b) = Some db" and i: "dom (runs_of db) \<subseteq> bk_used b" "dom (bk_exits b) \<subseteq> bk_used b"
      "runs_of db r = Some (sid, StatusRunning, t, None)" "IsTerminal rst"
    using inv g unfolding book_inv_def by fastforce
  define db' where "db' = snd (sd_exec (ox_sql out) update_run
     [SqlText rst, SqlTime t', SqlInt code, SqlText msg, SqlText r] db)"
  have db': "sv_db (exit_persist out r sid t' rst msg code (bk_mgr b)) = Some db'"
    unfolding db'_def by (rule exit_persist_db [OF db])
  have "runs_of db' = (case runs_of db r of None \<Rightarrow> runs_of db
      | Some (sid, st0, t, e0) \<Rightarrow> (runs_of db)(r \<mapsto> (sid, rst, t, Some t')))"
    using tab unfolding runs_update_def db'_def by blast
  then have tab': "runs_of db' = (runs_of db)(r \<mapsto> (sid, rst, t, Some t'))" by (simp add: i(3))
  have "rec \<in> set (mg_history (bk_mgr b)) \<longleftrightarrow> (case ((bk_exits b)(r := None)) (rr_RunID rec) of
       Some g \<Rightarrow> exit_recorded (rr_RunID rec) g = Some rec | None \<Rightarrow> rec \<in> table_records (runs_of db'))" for rec
  proof (cases "rr_RunID rec = r")
    case True
    with inv db g i(4) show ?thesis unfolding book_inv_def by (simp add: tab' table_records_upd)
  next
    case False
    with inv db show ?thesis unfolding book_inv_def by (simp add: tab' table_records_upd cong: option.case_cong)
  qed
  then show ?thesis
    using inv db db' i tab' unfolding book_inv_def by (auto split: if_splits)
qed

lemma exit_record_terminal:
  "exit_record out r sid t t' st m = (rst, m') \<Longrightarrow> IsTerminal st \<Longrightarrow> IsTerminal rst"
  by (auto simp: exit_record_def Let_def split: option.splits if_splits)

lemma book_inv_step:
  assumes tab: "runs_table out runs_of" and inv: "book_inv runs_of b" and step: "book_step out runs_of b b'"
  shows "book_inv runs_of b'"
proof -
  obtain db where db: "sv_db (bk_mgr b) = Some db" using inv unfolding book_inv_def by blast
  have pc: "pc_terminal pc" if "bk_exits b r = Some (sid, t, pc)" for r sid t pc
    using inv that unfolding book_inv_def by auto
  have exits: "rec \<in> set (mg_history (bk_mgr b)) \<longleftrightarrow> exit_recorded r (sid, t, pc) = Some rec"
    if "bk_exits b r = Some (sid, t, pc)" "rr_RunID rec = r" for r sid t pc rec
    using inv that unfolding book_inv_def by auto
  have dist: "distinct (mg_history (bk_mgr b))" using inv unfolding book_inv_def by blast
  show ?thesis
    using step
  proof cases
    case (b_start r json res t sid ps r' a m')
    have "runs_insert out runs_of" using tab by (simp add: runs_table_def)
    from book_inv_start [OF this inv b_start(2,3)] show ?thesis unfolding b_start(1) .
  next
    case (b_start_failed r json res t sid ps e m')
    have "mg_history m' = mg_history (bk_mgr b)" using StartRun_Inl [OF b_start_failed(3)] by (simp add: mg_same_def)
    moreover have "sv_db m' = Some db" using StartRun_Inl_db [OF b_start_failed(3)] db by simp
    ultimately show ?thesis
      unfolding b_start_failed(1) by (intro book_inv_mgr [OF inv _ _ db]) auto
  next
    case (b_announce r sid t exit st msg m')
    have m': "mg_history m' = mg_history (bk_mgr b)" "IsTerminal st" "sv_db m' = sv_db (bk_mgr b)"
      using exit_announce_mg [OF b_announce(3)] exit_announce_db [OF b_announce(3)] by (simp_all add: mg_same_def)
    show ?thesis unfolding b_announce(1)
      by (rule book_inv_exit [OF inv b_announce(2)]) (use m' dist exits [OF b_announce(2)] in auto)
  next
    case (b_cleanup r sid t st msg code order m')
    have m': "mg_history m' = mg_history (bk_mgr b)" "sv_db m' = sv_db (bk_mgr b)"
      using exit_cleanup_mg [OF b_cleanup(3)] exit_cleanup_db [OF b_cleanup(3)] by (simp_all add: mg_same_def)
    show ?thesis unfolding b_cleanup(1)
      by (rule book_inv_exit [OF inv b_cleanup(2)])
        (use m' dist pc [OF b_cleanup(2)] exits [OF b_cleanup(2)] in auto)
  next
    case (b_record r sid t st msg code t' rst m')
    let ?rec = "\<lparr>rr_RunID = r, rr_ScriptID = sid, rr_Status = rst, rr_StartedAt = t, rr_EndedAt = t'\<rparr>"
    have st: "IsTerminal st" using pc [OF b_record(2)] by simp
    have m': "mg_history m' = mg_history (bk_mgr b) @ [?rec]" "sv_db m' = sv_db (bk_mgr b)" "IsTerminal rst"
      using exit_record_effect [of out r sid t t' st "bk_mgr b"] exit_record_db [OF b_record(3)]
        exit_record_terminal [OF b_record(3) st] b_record(3) by simp_all
    show ?thesis unfolding b_record(1)
      by (rule book_inv_exit [OF inv b_record(2)]) (use m' dist exits [OF b_record(2)] in auto)
  next
    case (b_persist r sid t rst msg code t')
    have "runs_update out runs_of" using tab by (simp add: runs_table_def)
    from book_inv_persist [OF this inv b_persist(2)] show ?thesis unfolding b_persist(1) .
  next
    case (b_cancel r)
    have "mg_history (snd (CancelRun out r (bk_mgr b))) = mg_history (bk_mgr b)" by (rule CancelRun_active(2))
    then show ?thesis unfolding b_cancel
      using book_inv_mgr [OF inv _ order_refl db, of "snd (CancelRun out r (bk_mgr b))" db] by (simp add: CancelRun_db db)
  next
    case (b_other m' db1 db')
    then show ?thesis
      using book_inv_mgr [OF inv _ order_refl b_other(3), of m' db'] by (simp add: mg_same_def)
  qed
qed

lemma load_rows_db: "sv_db (load_rows out rows m) = sv_db m"
  by (induction rows arbitrary: m) (auto split: sum.split)

text \<open>A program that starts reads the table back.\<close>

lemma NewManager_loaded:
  assumes "runs_query out runs_of" "sv_db sv = Some db"
  shows "\<exists>db'. sv_db (NewManager out sv) = Some db' \<and> runs_of db' = runs_of db \<and>
    set (mg_history (NewManager out sv)) = table_records (runs_of db) \<and> distinct (mg_history (NewManager out sv)) \<and>
    sorted_wrt (\<lambda>a b. rr_StartedAt b \<le> rr_StartedAt a) (mg_history (NewManager out sv))"
proof -
  obtain rows db' where q: "sd_query (ox_sql out) history_query [] db = (Inr rows, db')" "runs_of db' = runs_of db"
      "set (List.map_filter (scanned out) (rw_Rows rows)) = table_records (runs_of db)"
      "distinct (List.map_filter (scanned out) (rw_Rows rows))"
      "sorted_wrt (\<lambda>a b. rr_StartedAt b \<le> rr_StartedAt a) (List.map_filter (scanned out) (rw_Rows rows))"
    using assms(1) unfolding runs_query_def Let_def by metis
  have "sv_db (NewManager out sv) = Some db'"
    "mg_history (NewManager out sv) = List.map_filter (scanned out) (rw_Rows rows)"
    using load_rows_history [of out "rw_Rows rows"]
    by (simp_all add: NewManager_def Let_def assms(2) loadHistory_def q(1) load_rows_db server.defs)
  with q show ?thesis by simp
qed

lemma book_inv_init:
  assumes "runs_table out runs_of" "book_init out runs_of b"
  shows "book_inv runs_of b"
proof -
  obtain sv db where i: "sv_db sv = Some db" "bk_mgr b = NewManager out sv" "dom (runs_of db) \<subseteq> bk_used b" "bk_exits b = Map.empty"
    using assms(2) unfolding book_init_def by blast
  have "runs_query out runs_of" using assms(1) by (simp add: runs_table_def)
  from NewManager_loaded [OF this i(1)] i show ?thesis by (auto simp: book_inv_def)
qed

text \<open>A run whose row was left unfinished by an earlier life.\<close>

definition stranded :: "('d \<Rightarrow> run_id \<rightharpoonup> run_row) \<Rightarrow> run_id \<Rightarrow> 'd book \<Rightarrow> bool" where
  "stranded runs_of r b \<longleftrightarrow> book_inv runs_of b \<and> r \<in> bk_used b \<and> bk_exits b r = None \<and>
     (\<exists>db row. sv_db (bk_mgr b) = Some db \<and> runs_of db r = Some row \<and> row_record r row = None)"

lemma stranded_db:
  assumes "stranded runs_of r b" "book_inv runs_of b'" "bk_used b \<subseteq> bk_used b'" "bk_exits b' r = None"
    and "\<And>db. sv_db (bk_mgr b) = Some db \<Longrightarrow> \<exists>db'. sv_db (bk_mgr b') = Some db' \<and> runs_of db' r = runs_of db r"
  shows "stranded runs_of r b'"
  using assms unfolding stranded_def by (metis subsetD)

lemma stranded_step:
  assumes tab: "runs_table out runs_of" and r: "stranded runs_of r b" and step: "book_step out runs_of b b'"
  shows "stranded runs_of r b'"
proof -
  have inv: "book_inv runs_of b" and used: "r \<in> bk_used b" and none: "bk_exits b r = None"
    using r by (simp_all add: stranded_def)
  have inv': "book_inv runs_of b'" by (rule book_inv_step [OF tab inv step])
  show ?thesis
    using step
  proof cases
    case (b_start q json res t sid ps q' a m')
    have "runs_of (snd (sd_exec (ox_sql out) insert_run
        [SqlText q, SqlText sid, SqlText StatusRunning, SqlText (json ps), SqlTime t] db)) r = runs_of db r"
      if "sv_db (bk_mgr b) = Some db" for db
    proof -
      have "runs_of db q = None" using inv that b_start(2) unfolding book_inv_def by auto
      then show ?thesis using tab used b_start(2) by (auto simp: runs_table_def runs_insert_def)
    qed
    then show ?thesis
      using used none b_start(2) StartRun_Inr_db [OF b_start(3)]
      by (intro stranded_db [OF r inv']) (auto simp: b_start(1) exit_at_def)
  next
    case (b_start_failed q json res t sid ps e m')
    then show ?thesis using none StartRun_Inl_db [OF b_start_failed(3)]
      by (intro stranded_db [OF r inv']) auto
  next
    case (b_announce q sid t exit st msg m')
    then show ?thesis using none exit_announce_db [OF b_announce(3)]
      by (intro stranded_db [OF r inv']) (auto simp: exit_at_def)
  next
    case (b_cleanup q sid t st msg code order m')
    then show ?thesis using none exit_cleanup_db [OF b_cleanup(3)]
      by (intro stranded_db [OF r inv']) (auto simp: exit_at_def)
  next
    case (b_record q sid t st msg code t' rst m')
    then show ?thesis using none exit_record_db [OF b_record(3)]
      by (intro stranded_db [OF r inv']) (auto simp: exit_at_def)
  next
    case (b_persist q sid t rst msg code t')
    then have "q \<noteq> r" using none by auto
    then have "runs_of (snd (sd_exec (ox_sql out) update_run [SqlText rst, SqlTime t', SqlInt code, SqlText msg, SqlText q] db)) r =
        runs_of db r" for db
      using tab by (auto simp: runs_table_def runs_update_def split: option.split)
    then show ?thesis using none \<open>q \<noteq> r\<close>
      by (intro stranded_db [OF r inv']) (auto simp: b_persist(1) exit_persist_db)
  next
    case (b_cancel q)
    then show ?thesis using none by (intro stranded_db [OF r inv']) (auto simp: CancelRun_db)
  next
    case (b_other m' db1 db2)
    then show ?thesis using none by (intro stranded_db [OF r inv']) auto
  qed
qed

lemma stranded_hidden: "stranded runs_of r b \<Longrightarrow> r \<notin> rr_RunID ` set (mg_history (bk_mgr b))"
  unfolding stranded_def book_inv_def table_records_def by auto

lemma reach_book:
  assumes "runs_table out runs_of" "reach (book_init out runs_of) (book_step out runs_of) b"
  shows "book_inv runs_of b"
  using assms(2)
proof (induction rule: reach.induct)
  case (reach_init b)
  then show ?case by (rule book_inv_init [OF assms(1)])
next
  case (reach_step b b')
  show ?case by (rule book_inv_step [OF assms(1) reach_step.IH reach_step.hyps(2)])
qed

subsection \<open>Properties\<close>


text \<open>A run that is not over when the program ends is lost. Nothing waits for the exits at the
  end of \<^verbatim>\<open>main\<close>; the row of such a run keeps its status \<open>running\<close>, no later life of the program writes it
  again, and none ever shows the run.\<close>

theorem unfinished_run_is_lost:
  assumes "runs_table out runs_of" "reach (book_init out runs_of) (book_step out runs_of) b" "bk_exits b r \<noteq> None"
    and "sv_db sv = sv_db (bk_mgr b)"
    and "(book_step out runs_of)\<^sup>*\<^sup>* \<lparr>bk_mgr = NewManager out sv, bk_exits = Map.empty, bk_used = bk_used b\<rparr> b'"
  shows "r \<notin> rr_RunID ` set (History (bk_mgr b'))"
proof -
  let ?b = "\<lparr>bk_mgr = NewManager out sv, bk_exits = Map.empty, bk_used = bk_used b\<rparr>"
  have inv: "book_inv runs_of b" by (rule reach_book [OF assms(1,2)])
  obtain sid t pc where g: "bk_exits b r = Some (sid, t, pc)" using assms(3) by auto
  obtain db where db: "sv_db (bk_mgr b) = Some db" "dom (runs_of db) \<subseteq> bk_used b" "r \<in> bk_used b"
      "runs_of db r = Some (sid, StatusRunning, t, None)"
    using inv g unfolding book_inv_def by blast
  have "book_init out runs_of ?b" unfolding book_init_def using assms(4) db(1,2) by (intro exI [of _ sv] exI [of _ db]) simp
  from book_inv_init [OF assms(1) this] have inv': "book_inv runs_of ?b" .
  have "runs_query out runs_of" using assms(1) by (simp add: runs_table_def)
  from NewManager_loaded [OF this, of sv db] obtain db' where "sv_db (NewManager out sv) = Some db'" "runs_of db' = runs_of db"
    using assms(4) db(1) by auto
  with inv' db(3,4) have "stranded runs_of r ?b" by (simp add: stranded_def)
  with assms(5) have "stranded runs_of r b'"
    by (induction rule: rtranclp_induct) (auto intro: stranded_step [OF assms(1)])
  then show ?thesis unfolding History_def by (rule stranded_hidden)
qed

subsection \<open>A table in memory\<close>

text \<open>The three statements on an association list, newest row first; times are written in strokes.\<close>

definition strokes :: "nat \<Rightarrow> string" where
  "strokes n = replicate n (CHR ''I'')"

definition record_row :: "RunRecord \<Rightarrow> sqlrow" where
  "record_row rec = [Some (rr_RunID rec), Some (rr_ScriptID rec), Some (rr_Status rec),
     Some (strokes (rr_StartedAt rec)), Some (strokes (rr_EndedAt rec))]"

definition finished_rows :: "(run_id \<times> run_row) list \<Rightarrow> RunRecord list" where
  "finished_rows tab = rev (sort_key rr_StartedAt
     (concat (map (\<lambda>r. case row_record r (the (map_of tab r)) of None \<Rightarrow> [] | Some rec \<Rightarrow> [rec]) (remdups (map fst tab)))))"

fun table_exec :: "string \<Rightarrow> sqlarg list \<Rightarrow> (run_id \<times> run_row) list \<Rightarrow> (goerror + ExecResult) \<times> (run_id \<times> run_row) list" where
  "table_exec q [SqlText r, SqlText sid, SqlText st, SqlText ps, SqlTime t] tab =
     (if q = insert_run \<and> map_of tab r = None
      then (Inr \<lparr>er_RowsAffected = Inr 1, er_LastInsertId = Inr 1\<rparr>, (r, sid, st, t, None) # tab)
      else (Inl (Errorf ''UNIQUE constraint failed'' None), tab))"
| "table_exec q [SqlText st, SqlTime e, SqlInt code, SqlText msg, SqlText r] tab =
     (if q = update_run
      then (Inr \<lparr>er_RowsAffected = Inr 1, er_LastInsertId = Inr 1\<rparr>,
        case map_of tab r of None \<Rightarrow> tab | Some (sid, st0, t, e0) \<Rightarrow> (r, sid, st, t, Some e) # tab)
      else (Inl (Errorf ''syntax error'' None), tab))"
| "table_exec q args tab = (Inl (Errorf ''syntax error'' None), tab)"

definition table_scan :: "sqlrow \<Rightarrow> goerror + (string \<times> string \<times> string \<times> time \<times> time)" where
  "table_scan row = (case row of
     [Some r, Some sid, Some st, Some t, Some e] \<Rightarrow> Inr (r, sid, st, length t, length e)
   | _ \<Rightarrow> Inl (Errorf ''converting NULL'' None))"

definition table_out :: "(run_id \<times> run_row) list outside" where
  "table_out = \<lparr>ox_env = test_env,
     ox_sql = \<lparr>sd_open = (\<lambda>_. Inr []), sd_exec = table_exec,
       sd_query = (\<lambda>q args tab. (Inr \<lparr>rw_Columns = Inr [], rw_Rows = map record_row (finished_rows tab), rw_Err = None\<rparr>, tab)),
       sd_ping = (\<lambda>_. None), sd_close = (\<lambda>d. d), sd_scanTexts = (\<lambda>n row. Inr row), sd_scanTimes = table_scan\<rparr>,
     ox_quote = (\<lambda>s. s), ox_send = (\<lambda>_ _. None), ox_dialog = (\<lambda>_ _. ([], None))\<rparr>"

lemma scanned_row: "scanned table_out (record_row rec) = Some rec"
  by (simp add: scanned_def table_out_def table_scan_def record_row_def strokes_def)

lemma set_found:
  "set (concat (map (\<lambda>r. case g r of None \<Rightarrow> [] | Some x \<Rightarrow> [x]) rs)) = {x. \<exists>r \<in> set rs. g r = Some x}"
  by (induction rs) (auto split: option.split)

lemma distinct_found:
  assumes "\<And>r x. g r = Some x \<Longrightarrow> f x = r" "distinct rs"
  shows "distinct (concat (map (\<lambda>r. case g r of None \<Rightarrow> [] | Some x \<Rightarrow> [x]) rs))"
  using assms(2)
proof (induction rs)
  case (Cons r rs)
  show ?case
  proof (cases "g r")
    case (Some x)
    have "r' \<notin> set rs" if "g r' = Some x" for r'
      using assms(1) [OF Some] assms(1) [OF that] Cons.prems by simp
    then have "x \<notin> {x. \<exists>r \<in> set rs. g r = Some x}" by blast
    then show ?thesis using Cons Some unfolding set_found [symmetric] by simp
  qed (use Cons in simp)
qed simp

lemma set_finished: "set (finished_rows tab) = table_records (map_of tab)"
proof -
  have "rec \<in> set (finished_rows tab) \<longleftrightarrow> rec \<in> table_records (map_of tab)" for rec
  proof
    assume "rec \<in> set (finished_rows tab)"
    then have "\<exists>r \<in> set (remdups (map fst tab)). row_record r (the (map_of tab r)) = Some rec"
      by (simp only: finished_rows_def set_rev set_sort set_found mem_Collect_eq)
    then obtain r where r: "r \<in> fst ` set tab" "row_record r (the (map_of tab r)) = Some rec"
      by (metis set_map set_remdups)
    then obtain row where "map_of tab r = Some row" by (metis map_of_eq_None_iff not_None_eq)
    with r(2) row_record_id [OF r(2)] show "rec \<in> table_records (map_of tab)"
      by (intro table_recordsI [of _ _ row]) simp_all
  next
    assume "rec \<in> table_records (map_of tab)"
    then obtain row where r: "map_of tab (rr_RunID rec) = Some row" "row_record (rr_RunID rec) row = Some rec"
      unfolding table_records_def by blast
    then have "rr_RunID rec \<in> fst ` set tab" by (metis map_of_eq_None_iff option.distinct(1))
    with r have "rec \<in> {x. \<exists>r \<in> set (remdups (map fst tab)). row_record r (the (map_of tab r)) = Some x}" by force
    then show "rec \<in> set (finished_rows tab)" by (simp only: finished_rows_def set_rev set_sort set_found)
  qed
  then show ?thesis by blast
qed

lemma distinct_finished: "distinct (finished_rows tab)"
proof -
  have "distinct (concat (map (\<lambda>r. case row_record r (the (map_of tab r)) of None \<Rightarrow> [] | Some rec \<Rightarrow> [rec])
      (remdups (map fst tab))))"
    by (rule distinct_found [of _ rr_RunID]) (auto intro: row_record_id)
  then show ?thesis by (simp add: finished_rows_def)
qed

lemma sorted_finished: "sorted_wrt (\<lambda>a b. rr_StartedAt b \<le> rr_StartedAt a) (finished_rows tab)"
  using sorted_sort_key [of rr_StartedAt] by (simp add: finished_rows_def sorted_wrt_rev sorted_map)

lemma table_out_runs: "runs_table table_out map_of"
proof -
  have "List.map_filter (scanned table_out) (map record_row recs) = recs" for recs
    by (induction recs) (simp_all add: map_filter_simps scanned_row)
  then have "runs_query table_out map_of"
    using set_finished distinct_finished sorted_finished by (simp add: runs_query_def table_out_def Let_def)
  moreover have "runs_insert table_out map_of" by (simp add: runs_insert_def table_out_def)
  moreover have "runs_update table_out map_of"
    by (auto simp: runs_update_def table_out_def split: option.split)
  ultimately show ?thesis by (simp add: runs_table_def)
qed

subsection \<open>Examples\<close>

text \<open>One run is started, fails and is written; a second is started and the program ends.\<close>

definition book0 :: "(run_id \<times> run_row) list book" where
  "book0 = \<lparr>bk_mgr = NewManager table_out (NewGRPCServer (NewCacheManager False {}) (Some []) newReservoir),
     bk_exits = Map.empty, bk_used = {}\<rparr>"

lemma book0_mgr: "sv_runs (bk_mgr book0) = Map.empty" "sv_chans (bk_mgr book0) = []"
    "sv_cache (bk_mgr book0) = NewCacheManager False {}" "sv_db (bk_mgr book0) = Some []"
    "mg_history (bk_mgr book0) = []" "server_inv (bk_mgr book0)"
  by (simp_all add: book0_def NewManager_def NewGRPCServer_def server.defs Let_def loadHistory_def table_out_def
      finished_rows_def server_inv_def NewCacheManager_ok)

lemma book0_init: "reach (book_init table_out map_of) (book_step table_out map_of) book0"
  by (rule reach_init) (auto simp: book_init_def book0_def NewGRPCServer_def
      intro!: exI [of _ "NewGRPCServer (NewCacheManager False {}) (Some []) newReservoir"])

definition failed_run :: RunRecord where
  "failed_run = \<lparr>rr_RunID = ''r1'', rr_ScriptID = ''s'', rr_Status = StatusFailed, rr_StartedAt = 5, rr_EndedAt = 9\<rparr>"

text \<open>The whole life of a run that ends with exit code 1, from a book without it.\<close>

lemma failed_life:
  assumes b: "reach (book_init table_out map_of) (book_step table_out map_of) b" and r: "''r1'' \<notin> bk_used b"
    and inv: "server_inv (bk_mgr b)"
  shows "\<exists>b'. reach (book_init table_out map_of) (book_step table_out map_of) b' \<and>
    mg_history (bk_mgr b') = mg_history (bk_mgr b) @ [failed_run] \<and> bk_exits b' = (bk_exits b)(''r1'' := None) \<and>
    bk_used b' = insert ''r1'' (bk_used b)"
proof -
  let ?r = "''r1''" and ?x = "(1 :: int, [] :: string, None :: goerror option)" and ?m = "bk_mgr b"
  let ?n = "length (sv_chans ?m)"
  obtain m1 where m1: "StartRun table_out (\<lambda>_. ''{}'') None ?r 5 ''s'' [] ?m = Ret (Inr (?r, ?n), m1)"
      "sv_runs m1 = (sv_runs ?m)(?r \<mapsto> ?n)" "sv_chans m1 = sv_chans ?m @ [newRunChannel]"
      "mg_history m1 = mg_history ?m" "sv_cache m1 = sv_cache ?m"
      "mg_activeRuns m1 ?r = Some \<lparr>rs_RunID = ?r, rs_ScriptID = ''s'', rs_Status = StatusRunning,
         rs_messages = Some ?n, rs_cancel = True, rs_cancelRequested = False\<rparr>"
    using StartRun_started [of table_out "\<lambda>_. ''{}''" ?r 5 "''s''" "[]" ?m] by auto
  let ?b1 = "(exit_at ?r (''s'', 5, ExitWaiting) m1 b)\<lparr>bk_used := insert ?r (bk_used b)\<rparr>"
  have reg: "server_inv (snd (RegisterRun ?r ?m))" by (rule RegisterRun_inv [OF inv])
  have inv1: "server_inv m1"
    by (rule server_inv_cong [OF reg]) (use m1(2,3,5) server_inv_cache [OF inv] in \<open>simp_all add: RegisterRun_def\<close>)
  have run1: "sv_runs m1 ?r = Some ?n" and chan: "chan_at ?n m1 = newRunChannel"
    by (simp_all add: m1 chan_at_def)
  have 1: "reach (book_init table_out map_of) (book_step table_out map_of) ?b1"
    by (rule reach_step [OF b]) (rule b_start [OF r m1(1)])
  have st: "deriveFinalStatus ?r 1 None m1 = StatusFailed" by (simp add: deriveFinalStatus_def WasCancelled_def m1(6))
  have "room_for (chan_at ?n m1) 1" by (simp add: chan newRunChannel_def room_for_def)
  from exit_announce_Ret [OF inv1 run1 this, of table_out "''s''" ?x] obtain msg m2
    where m2: "exit_announce table_out ?r ''s'' ?x m1 = Ret ((StatusFailed, msg), m2)" "server_inv m2"
      "sv_runs m2 = sv_runs m1" "sv_cache m2 = sv_cache m1" "mg_same m1 m2" by (auto simp: st)
  let ?b2 = "exit_at ?r (''s'', 5, ExitAnnounced StatusFailed msg 1) m2 ?b1"
  have 2: "reach (book_init table_out map_of) (book_step table_out map_of) ?b2"
    by (rule reach_step [OF 1]) (use b_announce [of ?b1 ?r "''s''" 5 table_out ?x StatusFailed msg m2] m2(1) in \<open>simp add: exit_at_def\<close>)
  have order: "range_order (cm_blocks (sv_cache m2)) (sorted_keys (cm_blocks (sv_cache m2)))"
    using server_inv_cache [OF m2(2)] by (intro sorted_range.ord_range) (simp add: cache_ok_def cache_inv_def)
  have run2: "sv_runs m2 ?r = Some ?n" by (simp add: m2(3) run1)
  obtain m3 where m3: "exit_cleanup (sorted_keys (cm_blocks (sv_cache m2))) ?r m2 = Ret m3" "mg_same m2 m3"
    using exit_cleanup_Ret [OF m2(2) run2 order] by blast
  let ?b3 = "exit_at ?r (''s'', 5, ExitCleaned StatusFailed msg 1) m3 ?b2"
  have 3: "reach (book_init table_out map_of) (book_step table_out map_of) ?b3"
    by (rule reach_step [OF 2]) (use b_cleanup [of ?b2 ?r "''s''" 5 StatusFailed msg 1 _ m3] m3(1) in \<open>simp add: exit_at_def\<close>)
  obtain rst m4 where m4: "exit_record table_out ?r ''s'' 5 9 StatusFailed m3 = (rst, m4)" by fastforce
  have "mg_activeRuns m3 ?r = mg_activeRuns m1 ?r" using m2(5) m3(2) by (simp add: mg_same_def)
  then have rst: "rst = StatusFailed"
    using exit_record_running [of m3 ?r table_out "''s''" 5 9 StatusFailed] m4 by (simp add: m1(6) IsTerminal_def)
  let ?b4 = "exit_at ?r (''s'', 5, ExitRecorded rst msg 1 9) m4 ?b3"
  have 4: "reach (book_init table_out map_of) (book_step table_out map_of) ?b4"
    by (rule reach_step [OF 3]) (use b_record [of ?b3 ?r "''s''" 5 StatusFailed msg 1 table_out 9 rst m4] m4 in \<open>simp add: exit_at_def\<close>)
  let ?b5 = "?b4\<lparr>bk_mgr := exit_persist table_out ?r ''s'' 9 rst msg 1 (bk_mgr ?b4), bk_exits := (bk_exits ?b4)(?r := None)\<rparr>"
  have 5: "reach (book_init table_out map_of) (book_step table_out map_of) ?b5"
    by (rule reach_step [OF 4]) (rule b_persist, simp add: exit_at_def)
  have "mg_history m4 = mg_history ?m @ [failed_run]"
    using exit_record_effect(2) [of table_out ?r "''s''" 5 9 StatusFailed m3] m4 rst m2(5) m3(2) m1(4)
    by (simp add: mg_same_def failed_run_def)
  then show ?thesis using 5 by (intro exI [of _ ?b5]) (simp add: exit_at_def)
qed


lemma unfinished_run_is_lost_witness:
  "\<exists>b. reach (book_init table_out map_of) (book_step table_out map_of) b \<and> bk_exits b ''r1'' \<noteq> None \<and>
    (\<forall>sv. sv_db sv = sv_db (bk_mgr b) \<longrightarrow> ''r1'' \<notin> rr_RunID ` set (History (NewManager table_out sv)))"
proof -
  have r: "''r1'' \<notin> bk_used book0" by (simp add: book0_def)
  obtain a m1 where m1: "StartRun table_out (\<lambda>_. ''{}'') None ''r1'' 5 ''s'' [] (bk_mgr book0) = Ret (Inr (''r1'', a), m1)"
    using StartRun_started [of table_out "\<lambda>_. ''{}''" "''r1''" 5 "''s''" "[]" "bk_mgr book0"] by auto
  define b where "b = (exit_at ''r1'' (''s'', 5, ExitWaiting) m1 book0)\<lparr>bk_used := insert ''r1'' (bk_used book0)\<rparr>"
  have b: "reach (book_init table_out map_of) (book_step table_out map_of) b"
    unfolding b_def by (rule reach_step [OF book0_init]) (rule b_start [OF r m1])
  have e: "bk_exits b ''r1'' \<noteq> None" by (simp add: b_def exit_at_def)
  have "''r1'' \<notin> rr_RunID ` set (History (NewManager table_out sv))" if "sv_db sv = sv_db (bk_mgr b)" for sv
    using unfinished_run_is_lost [OF table_out_runs b e that rtranclp.rtrancl_refl] by simp
  with b e show ?thesis by blast
qed

end
