(* ===== verification/Paths.thy ===== *)
theory Paths
  imports Prelude
begin

section \<open>Paths: lexical path processing\<close>

text \<open>
  The part of Go's \<^verbatim>\<open>path/filepath\<close> the program relies on, for the slash separator:
  \<open>Clean\<close>, \<open>Join\<close> and \<open>Abs\<close> (over a given working directory). A cleaned rooted path has
  no empty, dot or dot-dot component, which is what makes a prefix test on path texts a
  containment test on directories.
\<close>

abbreviation (input) slash :: char where "slash \<equiv> CHR 0x2F"

fun split_slash :: "string \<Rightarrow> string list" where
  "split_slash [] = [[]]"
| "split_slash (c # cs) =
     (if c = slash then [] # split_slash cs
      else (case split_slash cs of [] \<Rightarrow> [[c]] | w # ws \<Rightarrow> (c # w) # ws))"

definition is_rooted :: "string \<Rightarrow> bool" where
  "is_rooted p \<longleftrightarrow> p \<noteq> [] \<and> hd p = slash"

text \<open>One component against the stack of those kept, innermost first.\<close>

definition clean_step :: "bool \<Rightarrow> string \<Rightarrow> string list \<Rightarrow> string list" where
  "clean_step rooted c stack =
     (if c = [] \<or> c = ''.'' then stack
      else if c = ''..'' then
        (case stack of
           [] \<Rightarrow> if rooted then [] else [c]
         | t # rest \<Rightarrow> if t = ''..'' then c # stack else rest)
      else c # stack)"

definition clean_comps :: "bool \<Rightarrow> string list \<Rightarrow> string list" where
  "clean_comps rooted cs = rev (fold (clean_step rooted) cs [])"

definition path_text :: "bool \<Rightarrow> string list \<Rightarrow> string" where
  "path_text rooted cs =
     (if rooted then slash # join_with [slash] cs
      else if cs = [] then ''.'' else join_with [slash] cs)"

definition Clean :: "string \<Rightarrow> string" where
  "Clean p = path_text (is_rooted p) (clean_comps (is_rooted p) (split_slash p))"

text \<open>\<open>filepath.Join\<close>: leading empty elements are skipped.\<close>

definition Join_all :: "string list \<Rightarrow> string" where
  "Join_all elems =
     (case dropWhile (\<lambda>e. e = []) elems of
        [] \<Rightarrow> []
      | es \<Rightarrow> Clean (join_with [slash] es))"

abbreviation Join :: "string \<Rightarrow> string \<Rightarrow> string" where
  "Join a b \<equiv> Join_all [a, b]"

text \<open>\<open>filepath.Abs\<close>; \<open>cwd\<close> is what \<open>os.Getwd\<close> answers.\<close>

definition Abs :: "(goerror + string) \<Rightarrow> string \<Rightarrow> goerror + string" where
  "Abs cwd p =
     (if is_rooted p then Inr (Clean p)
      else (case cwd of Inl e \<Rightarrow> Inl e | Inr d \<Rightarrow> Inr (Join d p)))"

subsection \<open>Splitting and joining\<close>

definition plain :: "string \<Rightarrow> bool" where
  "plain c \<longleftrightarrow> slash \<notin> set c"

lemma split_slash_ne [simp]: "split_slash p \<noteq> []"
  by (cases p) (auto split: list.split)

lemma split_slash_plain: "plain c \<Longrightarrow> split_slash c = [c]"
  by (induction c) (auto simp: plain_def split: list.split)

lemma split_slash_append: "split_slash (p @ slash # q) = split_slash p @ split_slash q"
  by (induction p) (auto split: list.split)

lemma join_with_Cons: "cs \<noteq> [] \<Longrightarrow> join_with sep (c # cs) = c @ sep @ join_with sep cs"
  by (cases cs) simp_all

lemma split_slash_join: "cs \<noteq> [] \<Longrightarrow> \<forall>c \<in> set cs. plain c \<Longrightarrow> split_slash (join_with [slash] cs) = cs"
proof (induction cs)
  case (Cons c cs)
  then show ?case
    by (cases "cs = []") (simp_all add: split_slash_plain join_with_Cons split_slash_append)
qed simp

lemma split_slash_plain_comps: "\<forall>c \<in> set (split_slash p). plain c"
  by (induction p) (auto simp: plain_def split: list.split)

subsection \<open>Clean\<close>

text \<open>
  What cleaning leaves: proper components, and dot-dots only as the leading components of a
  relative path.
\<close>

definition proper :: "string \<Rightarrow> bool" where
  "proper c \<longleftrightarrow> plain c \<and> c \<noteq> [] \<and> c \<noteq> ''.'' \<and> c \<noteq> ''..''"

definition cleaned :: "bool \<Rightarrow> string list \<Rightarrow> bool" where
  "cleaned rooted cs \<longleftrightarrow>
     (\<exists>n ps. cs = replicate n ''..'' @ ps \<and> (\<forall>c \<in> set ps. proper c) \<and> (rooted \<longrightarrow> n = 0))"

lemma clean_step_cleaned:
  assumes "cleaned rooted (rev stack)" "plain c"
  shows "cleaned rooted (rev (clean_step rooted c stack))"
proof -
  obtain n ps where st: "stack = rev ps @ replicate n ''..''" and ps: "\<forall>c \<in> set ps. proper c"
    and n: "rooted \<longrightarrow> n = 0"
    using assms(1) unfolding cleaned_def by (metis rev_append rev_replicate rev_rev_ident)
  show ?thesis
  proof (cases "c = [] \<or> c = ''.''")
    case True
    then show ?thesis using assms(1) by (simp add: clean_step_def)
  next
    case keep: False
    show ?thesis
    proof (cases "c = ''..''")
      case False
      with keep assms(2) have "proper c" by (simp add: proper_def)
      with st ps n keep False show ?thesis
        unfolding cleaned_def by (intro exI [of _ n] exI [of _ "ps @ [c]"]) (auto simp: clean_step_def)
    next
      case dots: True
      show ?thesis
      proof (cases ps rule: rev_cases)
        case (snoc qs q)
        with ps have "q \<noteq> ''..''" by (simp add: proper_def)
        with snoc st ps n dots show ?thesis
          unfolding cleaned_def by (intro exI [of _ n] exI [of _ qs]) (auto simp: clean_step_def)
      next
        case Nil
        show ?thesis
        proof (cases rooted)
          case True
          with n st Nil dots show ?thesis
            unfolding cleaned_def by (intro exI [of _ 0] exI [of _ "[]"]) (simp add: clean_step_def)
        next
          case False
          have "clean_step rooted c stack = replicate (Suc n) ''..''"
            using st Nil dots False by (cases n) (simp_all add: clean_step_def)
          with False show ?thesis
            unfolding cleaned_def
            by (intro exI [of _ "Suc n"] exI [of _ "[]"]) (simp add: replicate_append_same)
        qed
      qed
    qed
  qed
qed

lemma clean_comps_cleaned: "\<forall>c \<in> set cs. plain c \<Longrightarrow> cleaned rooted (clean_comps rooted cs)"
proof -
  have "cleaned rooted (rev (fold (clean_step rooted) cs stack))"
    if "\<forall>c \<in> set cs. plain c" "cleaned rooted (rev stack)" for stack
    using that by (induction cs arbitrary: stack) (simp_all add: clean_step_cleaned)
  moreover have "cleaned rooted (rev [])" by (simp add: cleaned_def)
  ultimately show "\<forall>c \<in> set cs. plain c \<Longrightarrow> cleaned rooted (clean_comps rooted cs)"
    unfolding clean_comps_def by blast
qed

lemma clean_step_keeps:
  "cleaned rooted (rev stack @ [c]) \<Longrightarrow> clean_step rooted c stack = c # stack"
proof -
  assume "cleaned rooted (rev stack @ [c])"
  then obtain n ps where eq: "rev stack @ [c] = replicate n ''..'' @ ps" and ps: "\<forall>c \<in> set ps. proper c"
    and n: "rooted \<longrightarrow> n = 0" unfolding cleaned_def by blast
  show ?thesis
  proof (cases ps rule: rev_cases)
    case (snoc qs q)
    with eq ps have "proper c" by simp
    then show ?thesis by (simp add: clean_step_def proper_def)
  next
    case Nil
    with eq obtain k where k: "n = Suc k" by (cases n) simp_all
    with eq Nil have c: "c = ''..''" "rev stack = replicate k ''..''"
      by (simp_all add: replicate_append_same [symmetric])
    from arg_cong [OF c(2), of rev] have "stack = replicate k ''..''" by simp
    moreover from k n have "\<not> rooted" by simp
    ultimately show ?thesis using c by (cases k) (simp_all add: clean_step_def)
  qed
qed

lemma cleaned_prefix: "cleaned rooted (xs @ ys) \<Longrightarrow> cleaned rooted xs"
proof -
  assume "cleaned rooted (xs @ ys)"
  then obtain n ps where eq: "xs @ ys = replicate n ''..'' @ ps" and ps: "\<forall>c \<in> set ps. proper c"
    and n: "rooted \<longrightarrow> n = 0" unfolding cleaned_def by blast
  have "xs = take (length xs) (xs @ ys)" by simp
  also have "\<dots> = replicate (min (length xs) n) ''..'' @ take (length xs - n) ps"
    by (simp only: eq take_append take_replicate length_replicate)
  finally have xs: "xs = replicate (min (length xs) n) ''..'' @ take (length xs - n) ps" .
  have "\<forall>c \<in> set (take (length xs - n) ps). proper c" using ps by (meson in_set_takeD)
  with xs n show "cleaned rooted xs" unfolding cleaned_def by fastforce
qed

lemma clean_comps_same: "cleaned rooted cs \<Longrightarrow> clean_comps rooted cs = cs"
proof -
  have "cleaned rooted (rev stack @ cs) \<Longrightarrow> fold (clean_step rooted) cs stack = rev cs @ stack" for stack
  proof (induction cs arbitrary: stack)
    case (Cons c cs)
    then have "cleaned rooted (rev stack @ [c])" using cleaned_prefix [of rooted "rev stack @ [c]" cs] by simp
    then have "clean_step rooted c stack = c # stack" by (rule clean_step_keeps)
    with Cons show ?case by simp
  qed simp
  from this [of "[]"] show "cleaned rooted cs \<Longrightarrow> clean_comps rooted cs = cs" by (simp add: clean_comps_def)
qed

subsection \<open>Texts and components\<close>

text \<open>The text of cleaned components splits into them again (behind the root's slash).\<close>

lemma cleaned_plain: "cleaned rooted cs \<Longrightarrow> c \<in> set cs \<Longrightarrow> plain c \<and> c \<noteq> []"
proof -
  assume "cleaned rooted cs" and c: "c \<in> set cs"
  then obtain n ps where cs: "cs = replicate n ''..'' @ ps" and ps: "\<forall>c \<in> set ps. proper c"
    unfolding cleaned_def by blast
  from c consider "c = ''..''" | "c \<in> set ps" unfolding cs by fastforce
  then show ?thesis using ps by cases (simp_all add: proper_def plain_def)
qed

lemma is_rooted_path_text: "cleaned rooted cs \<Longrightarrow> is_rooted (path_text rooted cs) = rooted"
proof (cases "rooted \<or> cs = []")
  case False
  then obtain c ds where cs: "cs = c # ds" by (cases cs) auto
  assume "cleaned rooted cs"
  with cs have "plain c" "c \<noteq> []" using cleaned_plain [of rooted cs c] by auto
  then obtain x xs where "c = x # xs" "x \<noteq> slash" by (cases c) (auto simp: plain_def)
  with cs False show ?thesis by (cases ds) (simp_all add: path_text_def is_rooted_def)
qed (auto simp: path_text_def is_rooted_def)

lemma split_path_text:
  "cleaned rooted cs \<Longrightarrow>
     split_slash (path_text rooted cs) =
       (if rooted then [] # (if cs = [] then [[]] else cs) else if cs = [] then [''.''] else cs)"
  using cleaned_plain [of rooted cs]
  by (auto simp: path_text_def split_slash_join)

lemma fold_clean_path_text:
  "cleaned rooted cs \<Longrightarrow> clean_comps rooted (split_slash (path_text rooted cs)) = cs"
  using clean_comps_same [of rooted cs]
  by (auto simp: split_path_text clean_comps_def clean_step_def)

definition comps :: "string \<Rightarrow> string list" where
  "comps p = clean_comps (is_rooted p) (split_slash p)"

lemma comps_cleaned: "cleaned (is_rooted p) (comps p)"
  unfolding comps_def by (rule clean_comps_cleaned) (rule split_slash_plain_comps)

lemma Clean_comps: "Clean p = path_text (is_rooted p) (comps p)"
  by (simp add: Clean_def comps_def)

lemma comps_Clean [simp]: "comps (Clean p) = comps p" and is_rooted_Clean [simp]: "is_rooted (Clean p) = is_rooted p"
proof -
  show r: "is_rooted (Clean p) = is_rooted p"
    unfolding Clean_comps by (rule is_rooted_path_text) (rule comps_cleaned)
  show "comps (Clean p) = comps p"
    unfolding comps_def [of "Clean p"] r
    unfolding Clean_comps by (rule fold_clean_path_text) (rule comps_cleaned)
qed

lemma Clean_idem [simp]: "Clean (Clean p) = Clean p"
  by (simp add: Clean_comps [of "Clean p"]) (simp add: Clean_comps)

lemma path_text_inj:
  "cleaned rooted cs \<Longrightarrow> cleaned rooted ds \<Longrightarrow> path_text rooted cs = path_text rooted ds \<longleftrightarrow> cs = ds"
  using fold_clean_path_text by metis

lemma clean_comps_append:
  "clean_comps rooted (xs @ ys) = rev (fold (clean_step rooted) ys (rev (clean_comps rooted xs)))"
  by (simp add: clean_comps_def)

lemma proper_cleaned: "cleaned rooted cs \<Longrightarrow> proper c \<Longrightarrow> cleaned rooted (cs @ [c])"
  unfolding cleaned_def
  by (elim exE) (rename_tac n ps, rule_tac x = n in exI, rule_tac x = "ps @ [c]" in exI, auto)

text \<open>Joining a proper name to a directory adds it as the last component.\<close>

lemma Join_proper:
  assumes "dir \<noteq> []" "proper c"
  shows "Join dir c = path_text (is_rooted dir) (comps dir @ [c])"
proof -
  have "is_rooted (dir @ slash # c) = is_rooted dir"
    using assms(1) by (cases dir) (simp_all add: is_rooted_def)
  moreover have "split_slash c = [c]" using assms(2) by (simp add: split_slash_plain proper_def)
  ultimately show ?thesis
    using assms by (simp add: Join_all_def Clean_def clean_comps_append comps_def split_slash_append
        clean_step_def proper_def)
qed

lemma Join_inj:
  assumes "dir \<noteq> []" "proper a" "proper b"
  shows "Join dir a = Join dir b \<longleftrightarrow> a = b"
  using path_text_inj [OF proper_cleaned [OF comps_cleaned [of dir] assms(2)]
      proper_cleaned [OF comps_cleaned [of dir] assms(3)]]
  by (simp add: Join_proper [OF assms(1)] assms)

text \<open>
  A rooted cleaned text with another and a slash in front: its components extend the other's.
  The root directory's own text ends in a slash already, so no cleaned text extends it so.
\<close>

lemma prefix_text_comps:
  assumes cs: "cleaned True cs" and ds: "cleaned True ds"
    and pre: "prefix (path_text True ds @ [slash]) (path_text True cs)"
  shows "prefix ds cs"
proof -
  obtain rest where "path_text True cs = path_text True ds @ slash # rest"
    using pre unfolding prefix_def by auto
  then have "split_slash (path_text True cs) = split_slash (path_text True ds) @ split_slash rest"
    by (simp add: split_slash_append)
  then have "[] # (if cs = [] then [[]] else cs) = [] # (if ds = [] then [[]] else ds) @ split_slash rest"
    by (simp add: split_path_text cs ds)
  moreover have "[] \<notin> set cs" using cleaned_plain [OF cs] by blast
  ultimately show ?thesis
    by (cases "ds = []"; cases "cs = []") (auto simp: prefix_def Cons_eq_append_conv)
qed

end
