(* ===== verification/Registry.thy ===== *)
theory Registry
  imports Notify Paths "HOL-Library.Multiset" "HOL-Library.Product_Lexorder"
begin

section \<open>Registry: scripts discovered on disk\<close>

text \<open>
  Models \<^verbatim>\<open>internal/registry/registry.go\<close>. The disk and the standard library's decoder are
  the parameter \<open>fs\<close> of the operations that scan (one value of it is what one operation sees
  of the disk), and what Go leaves to the runtime (the order of a map \<open>range\<close>, which of the
  sorted permutations \<open>sort.Slice\<close> returns, the digest) is the parameter \<open>runtime\<close>. \<open>r.mu\<close>
  makes each critical section one step; the scans run outside it and read no registry state.
\<close>

abbreviation (input) maxLoadIssues :: nat where "maxLoadIssues \<equiv> 50"

definition loadIssueKeyPrefix :: string where
  "loadIssueKeyPrefix = ''loadIssue:''"

subsection \<open>Data\<close>

record Param =
  pa_Name :: string
  pa_Required :: bool
  pa_Default :: string
  pa_Description :: string

record ParallelConfig =
  pc_DefaultWorkers :: int
  pc_MaxWorkers :: int
  pc_VaryParam :: string
  pc_ChainParam :: string
  pc_Names :: "string list"

text \<open>\<open>sc_Params\<close> tells the nil slice (\<open>None\<close>) from an empty one, as their JSON differs.\<close>

record Script =
  sc_ID :: script_id
  sc_Name :: string
  sc_Description :: string
  sc_Params :: "Param list option"
  sc_Parallel :: "ParallelConfig option"
  sc_Source :: string
  sc_Dir :: string

record LoadIssue =
  li_Dir :: string
  li_Source :: string
  li_Error :: string
  li_Timestamp :: time

record registry =
  rg_scripts :: "script_id \<rightharpoonup> Script"
  rg_issues :: "LoadIssue list"
  rg_fingerprint :: string
  rg_pluginDir :: string
  rg_rsv :: reservoir

definition New :: "reservoir \<Rightarrow> registry" where
  "New rsv = \<lparr>rg_scripts = Map.empty, rg_issues = [], rg_fingerprint = [], rg_pluginDir = [],
     rg_rsv = rsv\<rparr>"

record overrideNotice =
  ov_scriptID :: script_id
  ov_builtinDir :: string
  ov_pluginDir :: string

text \<open>
  The disk as one operation sees it: \<open>os.ReadDir\<close> (names and whether they are directories),
  \<open>os.ReadFile\<close>, \<open>os.Stat\<close> (\<open>None\<close> is success) and \<open>os.IsNotExist\<close>; \<open>json.Unmarshal\<close> into a
  zero \<open>Script\<close>; the clock's \<open>n\<close>-th reading in the scan of a source; \<open>%q\<close>.
\<close>

record fs =
  fs_ReadDir :: "string \<Rightarrow> goerror + (string \<times> bool) list"
  fs_ReadFile :: "string \<Rightarrow> goerror + string"
  fs_Unmarshal :: "string \<Rightarrow> goerror + Script"
  fs_Stat :: "string \<Rightarrow> goerror option"
  fs_IsNotExist :: "goerror \<Rightarrow> bool"
  fs_Now :: "string \<Rightarrow> nat \<Rightarrow> time"
  fs_Quote :: "string \<Rightarrow> string"

subsection \<open>Scanning a directory\<close>

definition loadScript :: "fs \<Rightarrow> string \<Rightarrow> string \<Rightarrow> goerror + Script" where
  "loadScript f dir source =
     (case fs_ReadFile f (Join dir ''script.json'') of
        Inl e \<Rightarrow> Inl (Errorf (''reading script.json: '' @ error_text e) (Some e))
      | Inr bytes \<Rightarrow>
     (case fs_Unmarshal f bytes of
        Inl e \<Rightarrow> Inl (Errorf (''parsing script.json: '' @ error_text e) (Some e))
      | Inr script \<Rightarrow>
          if sc_ID script = [] then Inl (Errorf ''script.json missing id field'' None)
          else if (case fs_Stat f (Join dir ''main.py'') of
                     None \<Rightarrow> False | Some e \<Rightarrow> fs_IsNotExist f e)
          then Inl (Errorf ''missing main.py'' None)
          else Inr (script\<lparr>sc_Source := source, sc_Dir := dir\<rparr>)))"

definition duplicate_text :: "fs \<Rightarrow> script_id \<Rightarrow> string \<Rightarrow> string" where
  "duplicate_text f i dir =
     ''duplicate script ID '' @ fs_Quote f i @ '' (already loaded from '' @ dir @ '')''"

text \<open>
  The loop of \<open>buildFromDir\<close>: what one script directory adds to the scripts and issues found
  so far, and the pass over the entries. One reading of the clock is taken per issue, so the
  number of issues so far counts them.
\<close>

type_synonym found = "(script_id \<rightharpoonup> Script) \<times> LoadIssue list"

definition scan_entry :: "fs \<Rightarrow> string \<Rightarrow> string \<Rightarrow> string \<Rightarrow> found \<Rightarrow> found" where
  "scan_entry f dir source name found =
     (case found of (scripts, issues) \<Rightarrow>
        let scriptDir = Join dir name;
            issue = (\<lambda>msg. \<lparr>li_Dir = scriptDir, li_Source = source, li_Error = msg,
                           li_Timestamp = fs_Now f source (length issues)\<rparr>)
        in case loadScript f scriptDir source of
             Inl e \<Rightarrow> (scripts, issues @ [issue (error_text e)])
           | Inr script \<Rightarrow>
               (case scripts (sc_ID script) of
                  Some existing \<Rightarrow>
                    (scripts, issues @ [issue (duplicate_text f (sc_ID script) (sc_Dir existing))])
                | None \<Rightarrow> (scripts(sc_ID script \<mapsto> script), issues)))"

fun scan_entries :: "fs \<Rightarrow> string \<Rightarrow> string \<Rightarrow> (string \<times> bool) list \<Rightarrow> found \<Rightarrow> found" where
  "scan_entries f dir source [] found = found"
| "scan_entries f dir source ((name, is_dir) # entries) found =
     (if \<not> is_dir then scan_entries f dir source entries found
      else if name = ''_lib'' then scan_entries f dir source entries found
      else scan_entries f dir source entries (scan_entry f dir source name found))"

definition buildFromDir :: "fs \<Rightarrow> string \<Rightarrow> string \<Rightarrow> goerror + found" where
  "buildFromDir f dir source =
     (case fs_ReadDir f dir of
        Inl e \<Rightarrow> Inl (Errorf (''reading directory '' @ dir @ '': '' @ error_text e) (Some e))
      | Inr entries \<Rightarrow> Inr (scan_entries f dir source entries (Map.empty, [])))"

subsection \<open>Issues\<close>

definition appendIssuesCapped :: "LoadIssue list \<Rightarrow> LoadIssue list \<Rightarrow> LoadIssue list" where
  "appendIssuesCapped existing additions =
     (let combined = existing @ additions
      in if length combined > maxLoadIssues then drop (length combined - maxLoadIssues) combined
         else combined)"

definition issue_event :: "LoadIssue \<Rightarrow> Event" where
  "issue_event iss = Event0\<lparr>ev_Severity := SeverityWarn, ev_Persistence := PersistenceOngoing,
     ev_Source := SourceBackend, ev_Key := loadIssueKeyPrefix @ li_Dir iss,
     ev_Title := ''Plugin load issue'', ev_Message := li_Dir iss @ '': '' @ li_Error iss,
     ev_Timestamp := li_Timestamp iss\<rparr>"

definition loadIssuesToEvents :: "LoadIssue list \<Rightarrow> Event list" where
  "loadIssuesToEvents issues = map issue_event issues"

subsection \<open>The fingerprint\<close>

text \<open>
  The JSON of a value, by the struct tags: \<open>sc_Dir\<close> is \<^verbatim>\<open>json:"-"\<close>, a nil pointer or an
  empty slice or string under \<^verbatim>\<open>omitempty\<close> is left out, a nil slice is \<open>null\<close>.
\<close>

datatype json =
    JsNull
  | JsStr string
  | JsInt int
  | JsBool bool
  | JsTime time
  | JsArr "json list"
  | JsObj "(string \<times> json) list"

definition Param_json :: "Param \<Rightarrow> json" where
  "Param_json p = JsObj [(''name'', JsStr (pa_Name p)), (''required'', JsBool (pa_Required p)),
     (''default'', JsStr (pa_Default p)), (''description'', JsStr (pa_Description p))]"

definition ParallelConfig_json :: "ParallelConfig \<Rightarrow> json" where
  "ParallelConfig_json c = JsObj
     ([(''default_workers'', JsInt (pc_DefaultWorkers c)), (''max_workers'', JsInt (pc_MaxWorkers c)),
       (''vary_param'', JsStr (pc_VaryParam c))]
      @ (if pc_ChainParam c = [] then [] else [(''chain_param'', JsStr (pc_ChainParam c))])
      @ (if pc_Names c = [] then [] else [(''names'', JsArr (map JsStr (pc_Names c)))]))"

definition Script_json :: "Script \<Rightarrow> json" where
  "Script_json s = JsObj
     ([(''id'', JsStr (sc_ID s)), (''name'', JsStr (sc_Name s)),
       (''description'', JsStr (sc_Description s)),
       (''params'', case sc_Params s of None \<Rightarrow> JsNull | Some ps \<Rightarrow> JsArr (map Param_json ps))]
      @ (case sc_Parallel s of None \<Rightarrow> [] | Some c \<Rightarrow> [(''parallel'', ParallelConfig_json c)])
      @ [(''source'', JsStr (sc_Source s))])"

definition LoadIssue_json :: "LoadIssue \<Rightarrow> json" where
  "LoadIssue_json i = JsObj [(''dir'', JsStr (li_Dir i)), (''source'', JsStr (li_Source i)),
     (''error'', JsStr (li_Error i)), (''timestamp'', JsTime (li_Timestamp i))]"

text \<open>
  \<open>rt_digest\<close> is the hex SHA-256 of the values' encodings, one per line; \<open>rt_sortIssues\<close> and
  \<open>rt_sortScripts\<close> are \<open>sort.Slice\<close> at the two types, given the \<open>less\<close> function.
\<close>

record runtime =
  rt_digest :: "json list \<Rightarrow> string"
  rt_sortIssues :: "(LoadIssue \<Rightarrow> LoadIssue \<Rightarrow> bool) \<Rightarrow> LoadIssue list \<Rightarrow> LoadIssue list"
  rt_sortScripts :: "(Script \<Rightarrow> Script \<Rightarrow> bool) \<Rightarrow> Script list \<Rightarrow> Script list"
  rt_range :: "(script_id \<rightharpoonup> Script) \<Rightarrow> script_id list"
  rt_env :: env

definition issue_less :: "LoadIssue \<Rightarrow> LoadIssue \<Rightarrow> bool" where
  "issue_less a b =
     (if li_Dir a \<noteq> li_Dir b then li_Dir a < li_Dir b else li_Error a < li_Error b)"

definition computeFingerprint ::
  "runtime \<Rightarrow> (script_id \<rightharpoonup> Script) \<Rightarrow> LoadIssue list \<Rightarrow> string" where
  "computeFingerprint rt scripts issues =
     rt_digest rt
       (map (\<lambda>i. Script_json (the (scripts i))) (sorted_list_of_set (dom scripts))
        @ map (\<lambda>i. LoadIssue_json (i\<lparr>li_Timestamp := 0\<rparr>)) (rt_sortIssues rt issue_less issues))"

subsection \<open>Loading\<close>

definition publish :: "runtime \<Rightarrow> registry \<Rightarrow> registry" where
  "publish rt g = g\<lparr>rg_rsv :=
     ReplaceBannersByPrefix (rt_env rt) loadIssueKeyPrefix (loadIssuesToEvents (rg_issues g)) (rg_rsv g)\<rparr>"

definition LoadBuiltin :: "runtime \<Rightarrow> fs \<Rightarrow> string \<Rightarrow> registry \<Rightarrow> goerror option \<times> registry" where
  "LoadBuiltin rt f scriptsDir g =
     (case buildFromDir f scriptsDir ''builtin'' of
        Inl e \<Rightarrow> (Some e, g)
      | Inr (scripts, issues) \<Rightarrow>
          let scripts' = rg_scripts g ++ scripts;
              issues' = appendIssuesCapped (rg_issues g) issues
          in (None, publish rt (g\<lparr>rg_scripts := scripts', rg_issues := issues',
                rg_fingerprint := computeFingerprint rt scripts' issues'\<rparr>)))"

text \<open>The overrides noted while the map of new scripts is ranged over.\<close>

definition overrides_of ::
  "runtime \<Rightarrow> (script_id \<rightharpoonup> Script) \<Rightarrow> (script_id \<rightharpoonup> Script) \<Rightarrow> overrideNotice list" where
  "overrides_of rt old new =
     concat (map (\<lambda>i. case (old i, new i) of
         (Some existing, Some s) \<Rightarrow>
           [\<lparr>ov_scriptID = i, ov_builtinDir = sc_Dir existing, ov_pluginDir = sc_Dir s\<rparr>]
       | _ \<Rightarrow> []) (rt_range rt new))"

definition override_event :: "overrideNotice \<Rightarrow> Event" where
  "override_event ov = Event0\<lparr>ev_Severity := SeverityWarn, ev_Persistence := PersistenceOneShot,
     ev_Source := SourceBackend, ev_Title := ''Plugin overriding builtin script'',
     ev_Message := ''plugin '' @ ov_scriptID ov @ '' at '' @ ov_pluginDir ov
       @ '' overrides builtin at '' @ ov_builtinDir ov,
     ev_ScriptID := ov_scriptID ov\<rparr>"

definition reportOverride :: "runtime \<Rightarrow> overrideNotice \<Rightarrow> registry \<Rightarrow> registry" where
  "reportOverride rt ov g = g\<lparr>rg_rsv := Report (rt_env rt) (override_event ov) (rg_rsv g)\<rparr>"

definition LoadPlugins :: "runtime \<Rightarrow> fs \<Rightarrow> string \<Rightarrow> registry \<Rightarrow> goerror option \<times> registry" where
  "LoadPlugins rt f pluginDir g0 =
     (let g = g0\<lparr>rg_pluginDir := pluginDir\<rparr>
      in if (case fs_Stat f pluginDir of None \<Rightarrow> False | Some e \<Rightarrow> fs_IsNotExist f e) then (None, g)
         else
           (case buildFromDir f pluginDir ''plugin'' of
              Inl e \<Rightarrow> (Some e, g)
            | Inr (scripts, issues) \<Rightarrow>
                let overrides = overrides_of rt (rg_scripts g) scripts;
                    scripts' = rg_scripts g ++ scripts;
                    issues' = appendIssuesCapped (rg_issues g) issues;
                    g' = g\<lparr>rg_scripts := scripts', rg_issues := issues',
                           rg_fingerprint := computeFingerprint rt scripts' issues'\<rparr>
                in (None, publish rt (fold (reportOverride rt) overrides g'))))"

text \<open>
  The two scans of \<open>Reload\<close>, each skipped for an empty directory name, the second also when
  the plugin directory cannot be looked up.
\<close>

definition reload_builtin :: "fs \<Rightarrow> string \<Rightarrow> goerror + found" where
  "reload_builtin f scriptsDir =
     (if scriptsDir = [] then Inr (Map.empty, [])
      else (case buildFromDir f scriptsDir ''builtin'' of
              Inl e \<Rightarrow> Inl (Errorf (''scanning builtin dir: '' @ error_text e) (Some e))
            | Inr found \<Rightarrow> Inr found))"

definition reload_plugins :: "fs \<Rightarrow> string \<Rightarrow> goerror + found" where
  "reload_plugins f pluginDir =
     (if pluginDir = [] \<or> fs_Stat f pluginDir \<noteq> None then Inr (Map.empty, [])
      else (case buildFromDir f pluginDir ''plugin'' of
              Inl e \<Rightarrow> Inl (Errorf (''scanning plugin dir: '' @ error_text e) (Some e))
            | Inr found \<Rightarrow> Inr found))"

definition Reload ::
  "runtime \<Rightarrow> fs \<Rightarrow> string \<Rightarrow> string \<Rightarrow> registry \<Rightarrow> (bool \<times> goerror option) \<times> registry" where
  "Reload rt f scriptsDir pluginDir g =
     (case reload_builtin f scriptsDir of
        Inl e \<Rightarrow> ((False, Some e), g)
      | Inr (builtin, builtinIssues) \<Rightarrow>
     (case reload_plugins f pluginDir of
        Inl e \<Rightarrow> ((False, Some e), g)
      | Inr (plugins, pluginIssues) \<Rightarrow>
          let overrides = overrides_of rt builtin plugins;
              newScripts = builtin ++ plugins;
              allIssues = builtinIssues @ pluginIssues;
              newIssues = (if length allIssues > maxLoadIssues
                           then drop (length allIssues - maxLoadIssues) allIssues else allIssues);
              newFingerprint = computeFingerprint rt newScripts newIssues
          in if newFingerprint = rg_fingerprint g then ((False, None), g)
             else ((True, None),
               publish rt (fold (reportOverride rt) overrides
                 (g\<lparr>rg_scripts := newScripts, rg_issues := newIssues,
                    rg_fingerprint := newFingerprint\<rparr>)))))"

subsection \<open>Reading\<close>

definition script_less :: "Script \<Rightarrow> Script \<Rightarrow> bool" where
  "script_less a b =
     (if sc_Source a \<noteq> sc_Source b then sc_Source a < sc_Source b else sc_Name a < sc_Name b)"

definition Registry_List :: "runtime \<Rightarrow> registry \<Rightarrow> Script list" where
  "Registry_List rt g =
     rt_sortScripts rt script_less (map (\<lambda>i. the (rg_scripts g i)) (rt_range rt (rg_scripts g)))"

definition Registry_Get :: "script_id \<Rightarrow> registry \<Rightarrow> Script option" where
  "Registry_Get i g = rg_scripts g i"

definition Registry_Issues :: "registry \<Rightarrow> LoadIssue list" where
  "Registry_Issues g = rg_issues g"

text \<open>\<open>getenv\<close> and \<open>userConfigDir\<close> are what \<open>os.Getenv\<close> and \<open>os.UserConfigDir\<close> answer.\<close>

definition DefaultPluginDir :: "(string \<Rightarrow> string) \<Rightarrow> goerror + string \<Rightarrow> string" where
  "DefaultPluginDir getenv userConfigDir =
     (if getenv ''PYRUNNER_PLUGIN_DIR'' \<noteq> [] then getenv ''PYRUNNER_PLUGIN_DIR''
      else Join_all [case userConfigDir of Inl e \<Rightarrow> ''.'' | Inr d \<Rightarrow> d, ''go-python-runner'', ''scripts''])"

definition PluginDir :: "(string \<Rightarrow> string) \<Rightarrow> goerror + string \<Rightarrow> registry \<Rightarrow> string" where
  "PluginDir getenv userConfigDir g =
     (if rg_pluginDir g \<noteq> [] then rg_pluginDir g else DefaultPluginDir getenv userConfigDir)"

subsection \<open>What a scan finds\<close>

definition candidates :: "(string \<times> bool) list \<Rightarrow> string list" where
  "candidates entries = map fst (filter (\<lambda>(name, is_dir). is_dir \<and> name \<noteq> ''_lib'') entries)"

lemma scan_entries_fold:
  "scan_entries f dir source entries found = fold (scan_entry f dir source) (candidates entries) found"
proof (induction entries arbitrary: found)
  case (Cons e entries)
  obtain name is_dir where "e = (name, is_dir)" by (cases e)
  with Cons.IH show ?case by (simp add: candidates_def)
qed (simp add: candidates_def)

text \<open>The directories of the scripts of a catalog, with multiplicity.\<close>

definition script_dirs :: "(script_id \<rightharpoonup> Script) \<Rightarrow> string multiset" where
  "script_dirs m = image_mset (\<lambda>i. sc_Dir (the (m i))) (mset_set (dom m))"

definition scripts_ok :: "string set \<Rightarrow> (script_id \<rightharpoonup> Script) \<Rightarrow> bool" where
  "scripts_ok sources m \<longleftrightarrow>
     finite (dom m) \<and> (\<forall>i s. m i = Some s \<longrightarrow> sc_ID s = i \<and> i \<noteq> [] \<and> sc_Source s \<in> sources)"

lemma scripts_ok_update:
  "scripts_ok S m \<Longrightarrow> sc_ID s \<noteq> [] \<Longrightarrow> sc_Source s \<in> S \<Longrightarrow> scripts_ok S (m(sc_ID s \<mapsto> s))"
  unfolding scripts_ok_def by (intro conjI allI impI) (auto split: if_splits)

lemma script_dirs_update:
  "finite (dom m) \<Longrightarrow> m i = None \<Longrightarrow> script_dirs (m(i \<mapsto> s)) = add_mset (sc_Dir s) (script_dirs m)"
proof -
  assume fin: "finite (dom m)" and "m i = None"
  then have i: "i \<notin> dom m" by auto
  have "image_mset (\<lambda>j. sc_Dir (the ((m(i \<mapsto> s)) j))) (mset_set (dom m)) = script_dirs m"
    unfolding script_dirs_def by (rule image_mset_cong) (use fin i in auto)
  with fin i show ?thesis by (simp add: script_dirs_def)
qed

lemma loadScript_Inr:
  "loadScript f dir source = Inr s \<Longrightarrow> sc_ID s \<noteq> [] \<and> sc_Source s = source \<and> sc_Dir s = dir"
  by (auto simp: loadScript_def split: sum.splits if_splits)

lemma scan_entry_cases:
  obtains (issue) i where "scan_entry f dir source name (m, is) = (m, is @ [i])"
      "li_Dir i = Join dir name" "li_Source i = source"
  | (script) s where "scan_entry f dir source name (m, is) = (m(sc_ID s \<mapsto> s), is)"
      "m (sc_ID s) = None" "loadScript f (Join dir name) source = Inr s"
proof (cases "loadScript f (Join dir name) source")
  case (Inl e)
  then show thesis by (intro issue) (simp add: scan_entry_def Let_def, simp_all)
next
  case (Inr s)
  show thesis
  proof (cases "m (sc_ID s)")
    case None
    with Inr show thesis by (intro script) (simp_all add: scan_entry_def Let_def)
  next
    case (Some x)
    with Inr show thesis by (intro issue) (simp add: scan_entry_def Let_def, simp_all)
  qed
qed

lemma dirs_snoc:
  "mset (map li_Dir (is @ [i])) + d + mset (map g names) =
     mset (map li_Dir is) + d + (mset (map g names) + {#li_Dir i#})"
  by simp

lemma dirs_add: "a + add_mset x d + c = a + d + (c + {#x#})"
  by simp

lemma mset_Cons: "mset (map g (n # names)) = mset (map g names) + {#g n#}"
  by simp

lemma scan_fold:
  assumes "fold (scan_entry f dir source) names (m, is) = (m', is')" "scripts_ok {source} m"
    and "\<forall>i \<in> set is. li_Source i = source"
  shows "scripts_ok {source} m' \<and> (\<forall>i \<in> set is'. li_Source i = source) \<and>
    mset (map li_Dir is') + script_dirs m' =
      mset (map li_Dir is) + script_dirs m + mset (map (Join dir) names)"
  using assms
proof (induction names arbitrary: m "is")
  case (Cons n names)
  show ?case
  proof (cases rule: scan_entry_cases [of f dir source n m "is"])
    case (issue i)
    have f: "fold (scan_entry f dir source) names (m, is @ [i]) = (m', is')"
      using Cons.prems(1) by (simp only: fold_simps issue(1))
    have "\<forall>j \<in> set (is @ [i]). li_Source j = source" using Cons.prems(3) issue(3) by simp
    from Cons.IH [OF f Cons.prems(2) this] show ?thesis unfolding dirs_snoc issue(2) mset_Cons .
  next
    case (script s)
    have s: "sc_ID s \<noteq> []" "sc_Source s = source" "sc_Dir s = Join dir n"
      using loadScript_Inr [OF script(3)] by simp_all
    have f: "fold (scan_entry f dir source) names (m(sc_ID s \<mapsto> s), is) = (m', is')"
      using Cons.prems(1) by (simp only: fold_simps script(1))
    have ok: "scripts_ok {source} (m(sc_ID s \<mapsto> s))"
      by (rule scripts_ok_update [OF Cons.prems(2) s(1)]) (simp only: s(2) singleton_iff)
    have d: "script_dirs (m(sc_ID s \<mapsto> s)) = add_mset (Join dir n) (script_dirs m)"
      using script_dirs_update [of m "sc_ID s" s] Cons.prems(2) script(2) s(3)
      by (simp only: scripts_ok_def)
    from Cons.IH [OF f ok Cons.prems(3)] show ?thesis unfolding d dirs_add mset_Cons .
  qed
qed simp

lemma buildFromDir_Inr:
  "buildFromDir f dir source = Inr (m, is) \<longleftrightarrow>
     (\<exists>entries. fs_ReadDir f dir = Inr entries \<and>
        fold (scan_entry f dir source) (candidates entries) (Map.empty, []) = (m, is))"
  by (cases "fs_ReadDir f dir") (simp_all add: buildFromDir_def scan_entries_fold)

lemma buildFromDir_found:
  assumes "buildFromDir f dir source = Inr (m, is)"
  shows "\<exists>entries. fs_ReadDir f dir = Inr entries \<and> scripts_ok {source} m \<and>
    (\<forall>i \<in> set is. li_Source i = source) \<and>
    mset (map li_Dir is) + script_dirs m = mset (map (Join dir) (candidates entries))"
proof -
  obtain entries where e: "fs_ReadDir f dir = Inr entries"
    and fold: "fold (scan_entry f dir source) (candidates entries) (Map.empty, []) = (m, is)"
    using iffD1 [OF buildFromDir_Inr assms] by (elim exE conjE) (rule that)
  have "scripts_ok {source} Map.empty" "script_dirs Map.empty = {#}"
    by (simp_all add: scripts_ok_def script_dirs_def)
  from scan_fold [OF fold this(1)] this(2) have "scripts_ok {source} m \<and>
      (\<forall>i \<in> set is. li_Source i = source) \<and>
      mset (map li_Dir is) + script_dirs m = mset (map (Join dir) (candidates entries))" by simp
  with e show ?thesis by (intro exI [of _ entries] conjI) simp_all
qed

subsection \<open>Sorting a slice\<close>

text \<open>
  What \<open>sort.Slice\<close> promises for a strict weak order: a permutation in which nothing comes
  after something it is less than. Go's own insertion sort (used for short slices) is one.
\<close>

definition weak_order :: "('a \<Rightarrow> 'a \<Rightarrow> bool) \<Rightarrow> bool" where
  "weak_order lt \<longleftrightarrow>
     (\<forall>x y. lt x y \<longrightarrow> \<not> lt y x) \<and> (\<forall>x y z. \<not> lt x y \<longrightarrow> \<not> lt y z \<longrightarrow> \<not> lt x z)"

locale slice_sort =
  fixes srt :: "('a \<Rightarrow> 'a \<Rightarrow> bool) \<Rightarrow> 'a list \<Rightarrow> 'a list"
  assumes mset_srt: "mset (srt lt xs) = mset xs"
    and sorted_srt: "weak_order lt \<Longrightarrow> sorted_wrt (\<lambda>x y. \<not> lt y x) (srt lt xs)"
begin

lemma set_srt: "set (srt lt xs) = set xs"
  by (metis mset_srt set_mset_mset)

lemma sorted_key:
  fixes k :: "'a \<Rightarrow> 'k::linorder"
  assumes "\<And>a b. lt a b \<longleftrightarrow> k a < k b"
  shows "sorted (map k (srt lt xs))"
proof -
  have "weak_order lt" unfolding weak_order_def assms by auto
  then show ?thesis using sorted_srt [of lt xs] by (simp add: assms sorted_wrt_map not_less)
qed

end

fun ins_back :: "('a \<Rightarrow> 'a \<Rightarrow> bool) \<Rightarrow> 'a \<Rightarrow> 'a list \<Rightarrow> 'a list" where
  "ins_back lt x [] = [x]"
| "ins_back lt x (y # ys) = (if lt x y then y # ins_back lt x ys else x # y # ys)"

definition insertion_sort :: "('a \<Rightarrow> 'a \<Rightarrow> bool) \<Rightarrow> 'a list \<Rightarrow> 'a list" where
  "insertion_sort lt xs = rev (fold (ins_back lt) xs [])"

lemma mset_ins_back: "mset (ins_back lt x ys) = add_mset x (mset ys)"
  by (induction ys) auto

lemma sorted_ins_back:
  assumes "weak_order lt"
  shows "sorted_wrt (\<lambda>a b. \<not> lt a b) ys \<Longrightarrow> sorted_wrt (\<lambda>a b. \<not> lt a b) (ins_back lt x ys)"
proof (induction ys)
  case (Cons y ys)
  have elems: "set (ins_back lt x ys) = insert x (set ys)"
    using mset_ins_back [of lt x ys] by (metis set_mset_mset set_mset_add_mset_insert)
  from Cons.prems have y: "\<forall>z \<in> set ys. \<not> lt y z" and ys: "sorted_wrt (\<lambda>a b. \<not> lt a b) ys" by simp_all
  show ?case
  proof (cases "lt x y")
    case True
    then have "\<not> lt y x" using assms unfolding weak_order_def by blast
    with True y Cons.IH [OF ys] show ?thesis by (simp add: elems)
  next
    case False
    then have "\<forall>z \<in> set ys. \<not> lt x z" using assms y unfolding weak_order_def by blast
    with False Cons.prems show ?thesis by simp
  qed
qed simp

lemma fold_ins_back:
  assumes "weak_order lt"
  shows "sorted_wrt (\<lambda>a b. \<not> lt a b) ys \<Longrightarrow> sorted_wrt (\<lambda>a b. \<not> lt a b) (fold (ins_back lt) xs ys)"
  by (induction xs arbitrary: ys) (simp_all add: sorted_ins_back [OF assms])

lemma mset_fold_ins_back: "mset (fold (ins_back lt) xs ys) = mset xs + mset ys"
  by (induction xs arbitrary: ys) (simp_all add: mset_ins_back)

interpretation insertion: slice_sort insertion_sort
proof
  fix lt :: "'a \<Rightarrow> 'a \<Rightarrow> bool" and xs
  show "mset (insertion_sort lt xs) = mset xs" by (simp add: insertion_sort_def mset_fold_ins_back)
  assume "weak_order lt"
  from fold_ins_back [OF this, of "[]" xs]
  show "sorted_wrt (\<lambda>x y. \<not> lt y x) (insertion_sort lt xs)"
    by (simp add: insertion_sort_def sorted_wrt_rev)
qed

subsection \<open>The fingerprint sees no order and no time\<close>

locale registry_runtime =
  issues: slice_sort "rt_sortIssues rt" + scripts: slice_sort "rt_sortScripts rt" +
  order: map_range "rt_range rt" for rt :: runtime

definition issue_key :: "LoadIssue \<Rightarrow> string \<times> string" where
  "issue_key i = (li_Dir i, li_Error i)"

lemma issue_less_key: "issue_less a b \<longleftrightarrow> issue_key a < issue_key b"
  by (auto simp: issue_less_def issue_key_def)

definition script_key :: "Script \<Rightarrow> string \<times> string" where
  "script_key s = (sc_Source s, sc_Name s)"

lemma script_less_key: "script_less a b \<longleftrightarrow> script_key a < script_key b"
  by (auto simp: script_less_def script_key_def)

abbreviation untimed :: "LoadIssue \<Rightarrow> LoadIssue" where
  "untimed i \<equiv> i\<lparr>li_Timestamp := 0\<rparr>"

lemma issue_key_untimed: "issue_key (untimed i) = issue_key i"
  by (simp add: issue_key_def)

text \<open>
  A map of scripts up to their directories, which the JSON leaves out.
\<close>

definition undir :: "(script_id \<rightharpoonup> Script) \<Rightarrow> (script_id \<rightharpoonup> Script)" where
  "undir m = (\<lambda>i. map_option (\<lambda>s. s\<lparr>sc_Dir := []\<rparr>) (m i))"

lemma Script_json_undir: "Script_json (s\<lparr>sc_Dir := d\<rparr>) = Script_json s"
  by (simp add: Script_json_def)

lemma undir_dom: "undir m = undir m' \<Longrightarrow> dom m = dom m'"
proof -
  assume "undir m = undir m'"
  then have "map_option (\<lambda>s. s\<lparr>sc_Dir := []\<rparr>) (m i) = map_option (\<lambda>s. s\<lparr>sc_Dir := []\<rparr>) (m' i)" for i
    unfolding undir_def by metis
  then have "m i = None \<longleftrightarrow> m' i = None" for i by (metis map_option_is_None)
  then show ?thesis unfolding dom_def by simp
qed

lemma undir_json:
  assumes "undir m = undir m'" "m i \<noteq> None"
  shows "Script_json (the (m i)) = Script_json (the (m' i))"
proof -
  from assms(1) have "map_option (\<lambda>s. s\<lparr>sc_Dir := []\<rparr>) (m i) = map_option (\<lambda>s. s\<lparr>sc_Dir := []\<rparr>) (m' i)"
    unfolding undir_def by metis
  with assms(2) obtain s t where st: "m i = Some s" "m' i = Some t" "s\<lparr>sc_Dir := []\<rparr> = t\<lparr>sc_Dir := []\<rparr>"
    by (cases "m i"; cases "m' i") simp_all
  from st(3) have "Script_json s = Script_json t" by (metis Script_json_undir)
  with st show ?thesis by simp
qed

context registry_runtime
begin

lemma sorted_issues_unique:
  assumes same: "mset (map untimed xs) = mset (map untimed ys)" and dist: "distinct (map issue_key xs)"
  shows "map untimed (rt_sortIssues rt issue_less xs) = map untimed (rt_sortIssues rt issue_less ys)"
proof -
  let ?A = "map untimed (rt_sortIssues rt issue_less xs)" and ?B = "map untimed (rt_sortIssues rt issue_less ys)"
  have keys: "map issue_key (map untimed zs) = map issue_key zs" for zs
    by (simp add: comp_def issue_key_untimed)
  have sorted: "sorted (map issue_key (map untimed (rt_sortIssues rt issue_less zs)))" for zs
    unfolding keys by (rule issues.sorted_key) (rule issue_less_key)
  have AB: "mset ?A = mset ?B"
    using same by (simp only: mset_map issues.mset_srt)
  have "mset (map issue_key ?A) = mset (map issue_key xs)"
    unfolding keys by (simp only: mset_map issues.mset_srt)
  with dist have dA: "distinct (map issue_key ?A)" by (metis mset_eq_imp_distinct_iff)
  have "mset (map issue_key ?A) = mset (map issue_key ?B)" using AB by (simp only: mset_map)
  with dA have dB: "distinct (map issue_key ?B)" by (metis mset_eq_imp_distinct_iff)
  have sets: "set ?A = set ?B" using AB by (rule mset_eq_setD)
  have "inj_on issue_key (set ?A \<union> set ?B)" 
    using dA unfolding sets [symmetric] distinct_map by simp
  from map_sorted_distinct_set_unique [OF this sorted dA sorted dB sets] show ?thesis .
qed

lemma computeFingerprint_same:
  assumes "undir m = undir m'" "mset (map untimed xs) = mset (map untimed ys)"
    and "distinct (map issue_key xs)" "finite (dom m)"
  shows "computeFingerprint rt m xs = computeFingerprint rt m' ys"
proof -
  have "map (\<lambda>i. Script_json (the (m i))) (sorted_list_of_set (dom m)) =
      map (\<lambda>i. Script_json (the (m' i))) (sorted_list_of_set (dom m))"
    using assms(4) by (intro map_cong refl undir_json [OF assms(1)]) auto
  moreover have "map LoadIssue_json (map untimed (rt_sortIssues rt issue_less xs)) =
      map LoadIssue_json (map untimed (rt_sortIssues rt issue_less ys))"
    using sorted_issues_unique [OF assms(2,3)] by (rule arg_cong)
  ultimately show ?thesis
    by (simp only: computeFingerprint_def undir_dom [OF assms(1), symmetric] map_map comp_def)
qed

end

subsection \<open>Publishing\<close>

abbreviation issue_banners :: "reservoir \<Rightarrow> Event list" where
  "issue_banners r \<equiv> filter (\<lambda>b. hasPrefix (ev_Key b) loadIssueKeyPrefix) (rv_banners r)"

lemma issue_event_key: "hasPrefix (ev_Key (issue_event i)) loadIssueKeyPrefix"
  by (simp add: issue_event_def hasPrefix_iff_prefix)

lemma log_view_fold_logSlog: "log_view (fold logSlog evs r) = log_view r @ map event_view evs"
  by (induction evs arbitrary: r) (simp_all add: logSlog_def event_view_def)

lemma log_view_Replace: "log_view (ReplaceBannersByPrefix en p evs r) = log_view r @ map event_view evs"
  using fillEvents_same [of en evs r]
  by (cases "fillEvents en evs r")
    (simp add: ReplaceBannersByPrefix_def Let_def wailsEmit_frame log_view_fold_logSlog)

lemma Replace_banners:
  assumes "\<forall>ev \<in> set evs. hasPrefix (ev_Key ev) p"
  shows "map banner_content (filter (\<lambda>b. hasPrefix (ev_Key b) p) (rv_banners (ReplaceBannersByPrefix en p evs r)))
           = map banner_content evs"
    and "filter (\<lambda>b. \<not> hasPrefix (ev_Key b) p) (rv_banners (ReplaceBannersByPrefix en p evs r))
           = filter (\<lambda>b. \<not> hasPrefix (ev_Key b) p) (rv_banners r)"
proof -
  let ?f = "fst (fillEvents en evs r)"
  have keys: "map ev_Key ?f = map ev_Key evs" and c: "map banner_content ?f = map banner_content evs"
    using fillEvents_same [of en evs r] by auto
  have "\<forall>k \<in> set (map ev_Key ?f). hasPrefix k p" unfolding keys using assms by simp
  then have "\<forall>b \<in> set ?f. hasPrefix (ev_Key b) p" by simp
  then have "filter (\<lambda>b. hasPrefix (ev_Key b) p) ?f = ?f" "filter (\<lambda>b. \<not> hasPrefix (ev_Key b) p) ?f = []"
    by (simp_all add: filter_id_conv filter_empty_conv)
  then show "map banner_content (filter (\<lambda>b. hasPrefix (ev_Key b) p) (rv_banners (ReplaceBannersByPrefix en p evs r)))
           = map banner_content evs"
    and "filter (\<lambda>b. \<not> hasPrefix (ev_Key b) p) (rv_banners (ReplaceBannersByPrefix en p evs r))
           = filter (\<lambda>b. \<not> hasPrefix (ev_Key b) p) (rv_banners r)"
    by (simp_all add: ReplaceBannersByPrefix_fields c)
qed

lemma publish_fields [simp]:
  "rg_scripts (publish rt g) = rg_scripts g" "rg_issues (publish rt g) = rg_issues g"
  "rg_fingerprint (publish rt g) = rg_fingerprint g" "rg_pluginDir (publish rt g) = rg_pluginDir g"
  by (simp_all add: publish_def)

lemma publish_banners:
  "map banner_content (issue_banners (rg_rsv (publish rt g))) =
     map (\<lambda>i. banner_content (issue_event i)) (rg_issues g)"
  "filter (\<lambda>b. \<not> hasPrefix (ev_Key b) loadIssueKeyPrefix) (rv_banners (rg_rsv (publish rt g))) =
     filter (\<lambda>b. \<not> hasPrefix (ev_Key b) loadIssueKeyPrefix) (rv_banners (rg_rsv g))"
  using Replace_banners [of "loadIssuesToEvents (rg_issues g)" loadIssueKeyPrefix "rt_env rt" "rg_rsv g"]
  by (simp_all add: publish_def loadIssuesToEvents_def issue_event_key comp_def)

lemma reportOverrides_fields:
  "rg_scripts (fold (reportOverride rt) os g) = rg_scripts g"
  "rg_issues (fold (reportOverride rt) os g) = rg_issues g"
  "rg_fingerprint (fold (reportOverride rt) os g) = rg_fingerprint g"
  "rg_pluginDir (fold (reportOverride rt) os g) = rg_pluginDir g"
  "rg_rsv (fold (reportOverride rt) os g) =
     fold (Report (rt_env rt)) (map override_event os) (rg_rsv g)"
  by (induction os arbitrary: g) (simp_all add: reportOverride_def)

lemma override_banners:
  "rv_banners (fold (Report en) (map override_event os) r) = rv_banners r"
  by (induction os arbitrary: r) (simp_all add: Report_fields override_event_def)

subsection \<open>The registry's invariant\<close>

text \<open>
  The catalog is keyed by id, the issues stay within their cap, the fingerprint is that of the
  state (once something was loaded), and the load-issue banners shown are the issues.
\<close>

definition registry_inv :: "runtime \<Rightarrow> registry \<Rightarrow> bool" where
  "registry_inv rt g \<longleftrightarrow>
     scripts_ok {''builtin'', ''plugin''} (rg_scripts g) \<and>
     length (rg_issues g) \<le> maxLoadIssues \<and>
     (rg_scripts g = Map.empty \<and> rg_issues g = [] \<or>
      rg_fingerprint g = computeFingerprint rt (rg_scripts g) (rg_issues g)) \<and>
     map banner_content (issue_banners (rg_rsv g)) =
       map (\<lambda>i. banner_content (issue_event i)) (rg_issues g)"

lemma appendIssuesCapped_last: "appendIssuesCapped xs ys = last_n maxLoadIssues (xs @ ys)"
  by (simp add: appendIssuesCapped_def last_n_def Let_def)

lemma scripts_ok_add: "scripts_ok S m \<Longrightarrow> scripts_ok S m' \<Longrightarrow> scripts_ok S (m ++ m')"
  unfolding scripts_ok_def by (simp add: map_add_Some_iff) blast

lemma scripts_ok_mono: "scripts_ok S m \<Longrightarrow> S \<subseteq> T \<Longrightarrow> scripts_ok T m"
  unfolding scripts_ok_def by blast

lemma buildFromDir_ok:
  assumes "buildFromDir f dir source = Inr (m, is)" "source \<in> {''builtin'', ''plugin''}"
  shows "scripts_ok {''builtin'', ''plugin''} m"
proof -
  from buildFromDir_found [OF assms(1)] have "scripts_ok {source} m" by blast
  then show ?thesis by (rule scripts_ok_mono) (use assms(2) in blast)
qed

lemma scripts_ok_empty: "scripts_ok S Map.empty"
  by (simp add: scripts_ok_def)

lemma reload_builtin_ok:
  "reload_builtin f dir = Inr (m, is) \<Longrightarrow> scripts_ok {''builtin'', ''plugin''} m"
  by (auto simp: reload_builtin_def scripts_ok_empty split: if_splits sum.splits intro: buildFromDir_ok)

lemma reload_plugins_ok:
  "reload_plugins f dir = Inr (m, is) \<Longrightarrow> scripts_ok {''builtin'', ''plugin''} m"
  by (auto simp: reload_plugins_def scripts_ok_empty split: if_splits sum.splits intro: buildFromDir_ok)

text \<open>Every load ends in the same way: a new catalog, the overrides reported, the issues published.\<close>

lemma installed_inv:
  assumes "scripts_ok {''builtin'', ''plugin''} m" "length is \<le> maxLoadIssues"
  shows "registry_inv rt (publish rt (fold (reportOverride rt) os
     (g\<lparr>rg_scripts := m, rg_issues := is, rg_fingerprint := computeFingerprint rt m is\<rparr>)))"
  using assms unfolding registry_inv_def by (simp add: publish_banners reportOverrides_fields)

lemma LoadBuiltin_inv [inv_intros]:
  assumes "registry_inv rt g"
  shows "registry_inv rt (snd (LoadBuiltin rt f dir g))"
proof (cases "buildFromDir f dir ''builtin''")
  case (Inl e)
  with assms show ?thesis by (simp add: LoadBuiltin_def)
next
  case (Inr found)
  obtain m "is" where found: "found = (m, is)" by (cases found)
  have "scripts_ok {''builtin'', ''plugin''} (rg_scripts g ++ m)"
    using assms buildFromDir_ok [OF Inr [unfolded found]]
    by (intro scripts_ok_add) (simp_all add: registry_inv_def)
  from installed_inv [OF this, of "appendIssuesCapped (rg_issues g) is" rt "[]" g] show ?thesis
    by (simp add: LoadBuiltin_def Inr found Let_def appendIssuesCapped_last)
qed

lemma LoadPlugins_inv [inv_intros]:
  assumes "registry_inv rt g"
  shows "registry_inv rt (snd (LoadPlugins rt f dir g))"
proof -
  have g: "registry_inv rt (g\<lparr>rg_pluginDir := dir\<rparr>)" using assms by (simp add: registry_inv_def)
  show ?thesis
  proof (cases "case fs_Stat f dir of None \<Rightarrow> False | Some e \<Rightarrow> fs_IsNotExist f e")
    case True
    with g show ?thesis by (simp add: LoadPlugins_def Let_def)
  next
    case exists: False
    show ?thesis
    proof (cases "buildFromDir f dir ''plugin''")
      case (Inl e)
      with g exists show ?thesis by (simp add: LoadPlugins_def Let_def)
    next
      case (Inr found)
      obtain m "is" where found: "found = (m, is)" by (cases found)
      have "scripts_ok {''builtin'', ''plugin''} (rg_scripts g ++ m)"
        using assms buildFromDir_ok [OF Inr [unfolded found]]
        by (intro scripts_ok_add) (simp_all add: registry_inv_def)
      from installed_inv [OF this, of "appendIssuesCapped (rg_issues g) is" rt
          "overrides_of rt (rg_scripts g) m" "g\<lparr>rg_pluginDir := dir\<rparr>"] exists show ?thesis
        by (simp add: LoadPlugins_def Inr found Let_def appendIssuesCapped_last)
    qed
  qed
qed

text \<open>\<open>Reload\<close>, once both scans are through.\<close>

lemma Reload_scanned:
  assumes "reload_builtin f sd = Inr (b, bi)" "reload_plugins f pd = Inr (p, pi)"
  shows "Reload rt f sd pd g =
     (let issues = last_n maxLoadIssues (bi @ pi); fp = computeFingerprint rt (b ++ p) issues
      in if fp = rg_fingerprint g then ((False, None), g)
         else ((True, None), publish rt (fold (reportOverride rt) (overrides_of rt b p)
                (g\<lparr>rg_scripts := b ++ p, rg_issues := issues, rg_fingerprint := fp\<rparr>))))"
  by (simp add: Reload_def assms Let_def last_n_def)

lemma Reload_changed:
  assumes "Reload rt f sd pd g = ((changed, err), g')" "g' \<noteq> g \<or> changed"
  obtains b bi p pi where "reload_builtin f sd = Inr (b, bi)" "reload_plugins f pd = Inr (p, pi)"
    "changed" "err = None"
    "g' = publish rt (fold (reportOverride rt) (overrides_of rt b p)
        (g\<lparr>rg_scripts := b ++ p, rg_issues := last_n maxLoadIssues (bi @ pi),
           rg_fingerprint := computeFingerprint rt (b ++ p) (last_n maxLoadIssues (bi @ pi))\<rparr>))"
proof (cases "reload_builtin f sd")
  case (Inl e)
  with assms show thesis by (auto simp: Reload_def)
next
  case b: (Inr bf)
  obtain bm bi where bf: "bf = (bm, bi)" by (cases bf)
  show thesis
  proof (cases "reload_plugins f pd")
    case (Inl e)
    with assms b bf show thesis by (auto simp: Reload_def)
  next
    case p: (Inr pf)
    obtain pm pi where pf: "pf = (pm, pi)" by (cases pf)
    from assms show thesis
      by (intro that [OF b [unfolded bf] p [unfolded pf]])
        (auto simp: Reload_scanned [OF b [unfolded bf] p [unfolded pf]] Let_def split: if_splits)
  qed
qed

lemma Reload_inv [inv_intros]:
  assumes "registry_inv rt g"
  shows "registry_inv rt (snd (Reload rt f sd pd g))"
proof -
  obtain c e g' where R: "Reload rt f sd pd g = ((c, e), g')" by (metis prod.exhaust)
  show ?thesis
  proof (cases "g' = g")
    case True
    with R assms show ?thesis by simp
  next
    case False
    then obtain b bi p pi where s: "reload_builtin f sd = Inr (b, bi)" "reload_plugins f pd = Inr (p, pi)"
      and g': "g' = publish rt (fold (reportOverride rt) (overrides_of rt b p)
        (g\<lparr>rg_scripts := b ++ p, rg_issues := last_n maxLoadIssues (bi @ pi),
           rg_fingerprint := computeFingerprint rt (b ++ p) (last_n maxLoadIssues (bi @ pi))\<rparr>))"
      using Reload_changed [OF R] by metis
    have "scripts_ok {''builtin'', ''plugin''} (b ++ p)"
      by (intro scripts_ok_add reload_builtin_ok [OF s(1)] reload_plugins_ok [OF s(2)])
    from installed_inv [OF this] show ?thesis by (simp add: R g')
  qed
qed

inductive registry_step :: "runtime \<Rightarrow> registry \<Rightarrow> registry \<Rightarrow> bool" for rt :: runtime where
  step_builtin: "registry_step rt g (snd (LoadBuiltin rt f dir g))"
| step_plugins: "registry_step rt g (snd (LoadPlugins rt f dir g))"
| step_reload: "registry_step rt g (snd (Reload rt f sd pd g))"

definition registry_init :: "registry \<Rightarrow> bool" where
  "registry_init g \<longleftrightarrow> (\<exists>rsv. g = New rsv \<and> issue_banners rsv = [])"

interpretation loads: inv_system registry_init "registry_step rt" "registry_inv rt" for rt
proof
  fix g :: registry
  assume "registry_init g"
  then show "registry_inv rt g" by (auto simp: registry_init_def registry_inv_def New_def scripts_ok_empty)
next
  fix g h
  assume "registry_inv rt g" "registry_step rt g h"
  then show "registry_inv rt h" by (auto elim!: registry_step.cases intro: inv_intros)
qed

subsection \<open>Scanning again\<close>

text \<open>What \<open>os.ReadDir\<close> promises of its names: they are distinct, and single path components.\<close>

definition listing_ok :: "fs \<Rightarrow> string \<Rightarrow> bool" where
  "listing_ok f dir \<longleftrightarrow>
     (case fs_ReadDir f dir of Inl e \<Rightarrow> True
      | Inr entries \<Rightarrow> distinct (map fst entries) \<and> (\<forall>n \<in> set (map fst entries). proper n))"

abbreviation same_found :: "found \<Rightarrow> found \<Rightarrow> bool" where
  "same_found x y \<equiv> fst x = fst y \<and> map untimed (snd x) = map untimed (snd y)"

lemma loadScript_retime [simp]: "loadScript (f\<lparr>fs_Now := now\<rparr>) dir source = loadScript f dir source"
  by (simp add: loadScript_def split: sum.split option.split)

lemma scan_entry_retime:
  assumes "same_found x y"
  shows "same_found (scan_entry f dir source n x) (scan_entry (f\<lparr>fs_Now := now\<rparr>) dir source n y)"
proof -
  obtain m xs ys where xy: "x = (m, xs)" "y = (m, ys)" and same: "map untimed xs = map untimed ys"
    using assms by (cases x; cases y) simp
  show ?thesis
  proof (cases "loadScript f (Join dir n) source")
    case (Inl e)
    with same show ?thesis by (simp add: xy scan_entry_def Let_def)
  next
    case (Inr s)
    with same show ?thesis
      by (cases "m (sc_ID s)") (simp_all add: xy scan_entry_def Let_def duplicate_text_def)
  qed
qed

lemma scan_retime:
  "same_found x y \<Longrightarrow>
     same_found (fold (scan_entry f dir source) ns x) (fold (scan_entry (f\<lparr>fs_Now := now\<rparr>) dir source) ns y)"
proof (induction ns arbitrary: x y)
  case (Cons n ns)
  from Cons.IH [OF scan_entry_retime [OF Cons.prems]] show ?case by (simp only: fold_simps)
qed simp

lemma buildFromDir_retime:
  assumes "buildFromDir f dir source = Inr (m, is)"
  shows "\<exists>is'. buildFromDir (f\<lparr>fs_Now := now\<rparr>) dir source = Inr (m, is') \<and> map untimed is' = map untimed is"
proof -
  obtain entries where e: "fs_ReadDir f dir = Inr entries"
    and fold: "fold (scan_entry f dir source) (candidates entries) (Map.empty, []) = (m, is)"
    using iffD1 [OF buildFromDir_Inr assms] by (elim exE conjE) (rule that)
  obtain m' is' where fold': "fold (scan_entry (f\<lparr>fs_Now := now\<rparr>) dir source) (candidates entries) (Map.empty, []) = (m', is')"
    by (metis prod.exhaust)
  have "same_found (m, is) (m', is')"
    using scan_retime [of "(Map.empty, [])" "(Map.empty, [])" f dir source "candidates entries" now]
    unfolding fold fold' by simp
  with fold' e show ?thesis by (simp add: buildFromDir_def scan_entries_fold)
qed

lemma reload_builtin_retime:
  assumes "reload_builtin f dir = Inr (m, is)"
  shows "\<exists>is'. reload_builtin (f\<lparr>fs_Now := now\<rparr>) dir = Inr (m, is') \<and> map untimed is' = map untimed is"
proof (cases "dir = []")
  case True
  with assms show ?thesis by (simp add: reload_builtin_def)
next
  case False
  with assms have "buildFromDir f dir ''builtin'' = Inr (m, is)"
    by (simp add: reload_builtin_def split: sum.splits)
  from buildFromDir_retime [OF this, of now] False show ?thesis by (auto simp: reload_builtin_def)
qed

lemma reload_plugins_retime:
  assumes "reload_plugins f dir = Inr (m, is)"
  shows "\<exists>is'. reload_plugins (f\<lparr>fs_Now := now\<rparr>) dir = Inr (m, is') \<and> map untimed is' = map untimed is"
proof (cases "dir = [] \<or> fs_Stat f dir \<noteq> None")
  case True
  with assms show ?thesis by (simp add: reload_plugins_def)
next
  case False
  with assms have "buildFromDir f dir ''plugin'' = Inr (m, is)"
    by (simp add: reload_plugins_def split: sum.splits)
  from buildFromDir_retime [OF this, of now] False show ?thesis by (auto simp: reload_plugins_def)
qed

lemma candidates_names: "set (candidates entries) \<subseteq> set (map fst entries)"
    "distinct (map fst entries) \<Longrightarrow> distinct (candidates entries)"
  unfolding candidates_def by (auto simp: distinct_map_filter)

text \<open>The issues of one scan are of distinct directories, all directly below the scanned one.\<close>

lemma issue_dirs:
  assumes "buildFromDir f dir source = Inr (m, is)" "listing_ok f dir" "dir \<noteq> []"
  shows "distinct (map li_Dir is)" "\<forall>d \<in> set (map li_Dir is). \<exists>n. proper n \<and> d = Join dir n"
proof -
  obtain entries where e: "fs_ReadDir f dir = Inr entries"
    and acc: "mset (map li_Dir is) + script_dirs m = mset (map (Join dir) (candidates entries))"
    using buildFromDir_found [OF assms(1)] by blast
  have names: "distinct (candidates entries)" "\<forall>n \<in> set (candidates entries). proper n"
    using assms(2) candidates_names [of entries] by (auto simp: listing_ok_def e)
  have "inj_on (Join dir) (set (candidates entries))"
    using names(2) by (intro inj_onI) (simp add: Join_inj [OF assms(3)])
  with names(1) have dist: "distinct (map (Join dir) (candidates entries))" by (simp add: distinct_map)
  obtain rest where "mset rest = script_dirs m" using ex_mset by blast
  with acc have perm: "mset (map li_Dir is @ rest) = mset (map (Join dir) (candidates entries))"
    by (simp only: mset_append)
  with dist have "distinct (map li_Dir is @ rest)" by (metis mset_eq_imp_distinct_iff)
  then show "distinct (map li_Dir is)" by (simp only: distinct_append)
  from mset_eq_setD [OF perm] have sub: "set (map li_Dir is) \<subseteq> Join dir ` set (candidates entries)"
    unfolding set_append set_map by blast
  show "\<forall>d \<in> set (map li_Dir is). \<exists>n. proper n \<and> d = Join dir n"
  proof
    fix d
    assume "d \<in> set (map li_Dir is)"
    with sub obtain n where "n \<in> set (candidates entries)" "d = Join dir n" by blast
    with names(2) show "\<exists>n. proper n \<and> d = Join dir n" by blast
  qed
qed

lemma Join_same_dir:
  assumes "Join d a = Join e b" "d \<noteq> []" "e \<noteq> []" "proper a" "proper b"
  shows "Clean d = Clean e"
proof -
  have cl: "cleaned (is_rooted d) (comps d @ [a])" "cleaned (is_rooted e) (comps e @ [b])"
    using assms(4,5) comps_cleaned by (simp_all add: proper_cleaned)
  have eq: "path_text (is_rooted d) (comps d @ [a]) = path_text (is_rooted e) (comps e @ [b])"
    using assms(1) unfolding Join_proper [OF assms(2,4)] Join_proper [OF assms(3,5)] .
  then have r: "is_rooted d = is_rooted e"
    using is_rooted_path_text [OF cl(1)] is_rooted_path_text [OF cl(2)] by simp
  from path_text_inj [OF cl(1) [unfolded r] cl(2)] eq [unfolded r] have "comps d @ [a] = comps e @ [b]"
    by blast
  with r show ?thesis by (simp add: Clean_comps)
qed

lemma reload_issue_keys:
  assumes "reload_builtin f sd = Inr (b, bi)" "reload_plugins f pd = Inr (p, pi)"
    and "listing_ok f sd" "listing_ok f pd" "Clean sd \<noteq> Clean pd"
  shows "distinct (map issue_key (bi @ pi))"
proof -
  have B: "distinct (map li_Dir bi) \<and> (\<forall>d \<in> set (map li_Dir bi). sd \<noteq> [] \<and> (\<exists>n. proper n \<and> d = Join sd n))"
    using assms(1) issue_dirs [of f sd "''builtin''" b bi, OF _ assms(3)]
    by (auto simp: reload_builtin_def split: if_splits sum.splits)
  have P: "distinct (map li_Dir pi) \<and> (\<forall>d \<in> set (map li_Dir pi). pd \<noteq> [] \<and> (\<exists>n. proper n \<and> d = Join pd n))"
    using assms(2) issue_dirs [of f pd "''plugin''" p pi, OF _ assms(4)]
    by (auto simp: reload_plugins_def split: if_splits sum.splits)
  have "set (map li_Dir bi) \<inter> set (map li_Dir pi) = {}"
  proof (rule equals0I)
    fix d
    assume "d \<in> set (map li_Dir bi) \<inter> set (map li_Dir pi)"
    then have "d \<in> set (map li_Dir bi)" "d \<in> set (map li_Dir pi)" by simp_all
    with B P obtain n k where "sd \<noteq> []" "pd \<noteq> []" "proper n" "proper k" "d = Join sd n" "d = Join pd k"
      by metis
    then show False using Join_same_dir [of sd n pd k] assms(5) by simp
  qed
  with B P have "distinct (map li_Dir (bi @ pi))" by (simp only: map_append distinct_append)
  moreover have "map li_Dir (bi @ pi) = map fst (map issue_key (bi @ pi))"
    by (simp add: issue_key_def comp_def)
  ultimately show ?thesis by (metis distinct_map)
qed

subsection \<open>Concrete disks\<close>

text \<open>
  A runtime that follows Go's promises, and a disk: two script directories, \<open>''good''\<close> which
  parses to a script and \<open>''bad''\<close> whose metadata cannot be read, next to \<open>''_lib''\<close> and a
  plain entry.
\<close>

definition test_runtime :: runtime where
  "test_runtime = \<lparr>rt_digest = (\<lambda>js. CHR ''#'' # dec_nat (length js)), rt_sortIssues = insertion_sort,
     rt_sortScripts = insertion_sort, rt_range = sorted_keys, rt_env = test_env\<rparr>"

interpretation test_rt: registry_runtime test_runtime
  by (simp add: registry_runtime_def test_runtime_def insertion.slice_sort_axioms
      sorted_range.map_range_axioms)

definition Script0 :: Script where
  "Script0 = \<lparr>sc_ID = [], sc_Name = [], sc_Description = [], sc_Params = None, sc_Parallel = None,
     sc_Source = [], sc_Dir = []\<rparr>"

definition test_disk :: "(string \<Rightarrow> (string \<times> bool) list) \<Rightarrow> string list \<Rightarrow> fs" where
  "test_disk dirs metas = \<lparr>fs_ReadDir = (\<lambda>d. Inr (dirs d)),
     fs_ReadFile = (\<lambda>p. if p \<in> set metas then Inr ''meta'' else Inl (Errorf ''no such file'' None)),
     fs_Unmarshal = (\<lambda>_. Inr (Script0\<lparr>sc_ID := ''id'', sc_Name := ''A''\<rparr>)),
     fs_Stat = (\<lambda>_. None), fs_IsNotExist = (\<lambda>_. True), fs_Now = (\<lambda>_ _. 7), fs_Quote = (\<lambda>s. s)\<rparr>"

text \<open>
  A builtin directory with one script and one broken directory, and a plugin directory whose
  one plugin, in \<open>sub\<close>, has the same id.
\<close>

definition test_dirs :: "string \<Rightarrow> string \<Rightarrow> (string \<times> bool) list" where
  "test_dirs sub d =
     (if d = ''/s'' then [(''bad'', True), (''good'', True), (''_lib'', True), (''x'', False)]
      else if d = ''/p'' then [(sub, True)] else [])"

definition two_dirs :: "string \<Rightarrow> fs" where
  "two_dirs sub = test_disk (test_dirs sub) [''/s/good/script.json'', ''/p/'' @ sub @ ''/script.json'']"

definition test_script :: "string \<Rightarrow> string \<Rightarrow> Script" where
  "test_script source dir = Script0\<lparr>sc_ID := ''id'', sc_Name := ''A'', sc_Source := source, sc_Dir := dir\<rparr>"

definition test_issue :: LoadIssue where
  "test_issue = \<lparr>li_Dir = ''/s/bad'', li_Source = ''builtin'',
     li_Error = ''reading script.json: no such file'', li_Timestamp = 7\<rparr>"

lemmas scan_eval = buildFromDir_def two_dirs_def test_dirs_def test_disk_def scan_entry_def
  loadScript_def Let_def Join_all_def Clean_def path_text_def clean_comps_def clean_step_def
  is_rooted_def Script0_def test_script_def test_issue_def

lemma test_scan_builtin:
  "buildFromDir (two_dirs sub) ''/s'' ''builtin'' =
     Inr ([''id'' \<mapsto> test_script ''builtin'' ''/s/good''], [test_issue])"
  by (simp add: scan_eval)

lemma test_scan_plugins:
  "buildFromDir (two_dirs ''a'') ''/p'' ''plugin'' = Inr ([''id'' \<mapsto> test_script ''plugin'' ''/p/a''], [])"
  "buildFromDir (two_dirs ''b'') ''/p'' ''plugin'' = Inr ([''id'' \<mapsto> test_script ''plugin'' ''/p/b''], [])"
  by (simp_all add: scan_eval)

lemma test_reload_scans:
  "reload_builtin (two_dirs sub) ''/s'' = Inr ([''id'' \<mapsto> test_script ''builtin'' ''/s/good''], [test_issue])"
  "reload_plugins (two_dirs ''a'') ''/p'' = Inr ([''id'' \<mapsto> test_script ''plugin'' ''/p/a''], [])"
  "reload_plugins (two_dirs ''b'') ''/p'' = Inr ([''id'' \<mapsto> test_script ''plugin'' ''/p/b''], [])"
  by (simp_all add: reload_builtin_def reload_plugins_def test_scan_builtin test_scan_plugins)
    (simp_all add: two_dirs_def test_disk_def)

definition loaded :: registry where
  "loaded = snd (Reload test_runtime (two_dirs ''a'') ''/s'' ''/p'' (New newReservoir))"

lemma digest_nonempty: "computeFingerprint test_runtime m is \<noteq> []"
  by (simp add: computeFingerprint_def test_runtime_def)

lemma test_reload: "Reload test_runtime (two_dirs ''a'') ''/s'' ''/p'' (New newReservoir) = ((True, None), loaded)"
  unfolding loaded_def
  by (simp add: Reload_scanned [OF test_reload_scans(1,2)] Let_def New_def digest_nonempty)

lemma loaded_reach: "reach registry_init (registry_step test_runtime) loaded"
  unfolding loaded_def
proof (rule reach_step)
  show "reach registry_init (registry_step test_runtime) (New newReservoir)"
    by (rule reach_init) (auto simp: registry_init_def newReservoir_def)
qed (rule step_reload)

lemma loaded_state:
  "rg_scripts loaded = [''id'' \<mapsto> test_script ''plugin'' ''/p/a'']" "rg_issues loaded = [test_issue]"
  by (simp_all add: loaded_def Reload_scanned [OF test_reload_scans(1,2)] Let_def New_def
      digest_nonempty reportOverrides_fields last_n_def)

lemma test_listing: "listing_ok (two_dirs ''a'') ''/s''" "listing_ok (two_dirs ''a'') ''/p''"
  by (simp_all add: listing_ok_def two_dirs_def test_disk_def test_dirs_def proper_def plain_def)

subsection \<open>Properties\<close>

text \<open>No script directory disappears in a scan. Each directory of the listing, \<open>_lib\<close> aside,
  ends up exactly once, either as the directory of a registered script or as that of a load
  issue; the scripts are keyed by their own non-empty ids and carry the scan's source.\<close>

theorem scan_accounts_for_every_directory:
  assumes "buildFromDir f dir source = Inr (scripts, issues)"
  shows "\<exists>entries. fs_ReadDir f dir = Inr entries \<and>
     script_dirs scripts + mset (map li_Dir issues) = mset (map (Join dir) (candidates entries)) \<and>
     scripts_ok {source} scripts \<and> (\<forall>i \<in> set issues. li_Source i = source)"
proof -
  obtain entries where e: "fs_ReadDir f dir = Inr entries" "scripts_ok {source} scripts"
      "\<forall>i \<in> set issues. li_Source i = source"
    and acc: "mset (map li_Dir issues) + script_dirs scripts = mset (map (Join dir) (candidates entries))"
    using buildFromDir_found [OF assms] by (elim exE conjE) (rule that)
  show ?thesis by (rule exI [of _ entries]) (simp only: acc [symmetric] add.commute e simp_thms, rule e(3))
qed

lemma scan_accounts_for_every_directory_witness:
  "script_dirs [''id'' \<mapsto> test_script ''builtin'' ''/s/good''] + mset (map li_Dir [test_issue]) =
     {#''/s/bad'', ''/s/good''#}"
proof -
  have "candidates (test_dirs ''a'' ''/s'') = [''bad'', ''good'']"
    by (simp add: candidates_def test_dirs_def)
  moreover have "fs_ReadDir (two_dirs ''a'') ''/s'' = Inr (test_dirs ''a'' ''/s'')"
    by (simp add: two_dirs_def test_disk_def)
  moreover have "map (Join ''/s'') [''bad'', ''good''] = [''/s/bad'', ''/s/good'']"
    by (simp add: scan_eval)
  ultimately show ?thesis
    using scan_accounts_for_every_directory [OF test_scan_builtin [of "''a''"]] by (simp only:) simp
qed

text \<open>C19: a reload is all or nothing. When a scan fails, or the fingerprint is unchanged, the
  registry and everything it publishes stay as they were. Otherwise the catalog is the builtin
  one with the plugins laid over it, the issues are the newest 50 of both scans, every plugin
  that hides a builtin is warned about, the load-issue banners become exactly the issues and
  the other banners stay.\<close>

theorem reload_swaps_or_keeps:
  assumes "Reload rt f sd pd g = ((changed, err), g')"
  shows "if changed then err = None \<and>
      (\<exists>b bi p pi. reload_builtin f sd = Inr (b, bi) \<and> reload_plugins f pd = Inr (p, pi) \<and>
         rg_scripts g' = b ++ p \<and> rg_issues g' = last_n 50 (bi @ pi) \<and>
         log_view (rg_rsv g') = log_view (rg_rsv g)
           @ map (\<lambda>ov. event_view (override_event ov)) (overrides_of rt b p)
           @ map (\<lambda>i. event_view (issue_event i)) (rg_issues g')) \<and>
      map banner_content (issue_banners (rg_rsv g')) = map (\<lambda>i. banner_content (issue_event i)) (rg_issues g') \<and>
      filter (\<lambda>b. \<not> hasPrefix (ev_Key b) loadIssueKeyPrefix) (rv_banners (rg_rsv g')) =
        filter (\<lambda>b. \<not> hasPrefix (ev_Key b) loadIssueKeyPrefix) (rv_banners (rg_rsv g))
    else g' = g"
proof (cases changed)
  case False
  then show ?thesis using Reload_changed [OF assms] by (metis (full_types))
next
  case True
  then obtain b bi p pi where s: "reload_builtin f sd = Inr (b, bi)" "reload_plugins f pd = Inr (p, pi)"
    and err: "err = None"
    and g': "g' = publish rt (fold (reportOverride rt) (overrides_of rt b p)
        (g\<lparr>rg_scripts := b ++ p, rg_issues := last_n maxLoadIssues (bi @ pi),
           rg_fingerprint := computeFingerprint rt (b ++ p) (last_n maxLoadIssues (bi @ pi))\<rparr>))"
    using Reload_changed [OF assms disjI2 [OF True]] by metis
  let ?h = "fold (reportOverride rt) (overrides_of rt b p)
        (g\<lparr>rg_scripts := b ++ p, rg_issues := last_n maxLoadIssues (bi @ pi),
           rg_fingerprint := computeFingerprint rt (b ++ p) (last_n maxLoadIssues (bi @ pi))\<rparr>)"
  have log: "log_view (rg_rsv g') = log_view (rg_rsv ?h) @ map event_view (loadIssuesToEvents (rg_issues g'))"
    unfolding g' by (simp add: publish_def log_view_Replace)
  have "log_view (rg_rsv ?h) = log_view (rg_rsv g) @ map event_view (map override_event (overrides_of rt b p))"
    by (simp only: reportOverrides_fields rsv.seen_reports) simp
  with log have "log_view (rg_rsv g') = log_view (rg_rsv g)
       @ map (\<lambda>ov. event_view (override_event ov)) (overrides_of rt b p)
       @ map (\<lambda>i. event_view (issue_event i)) (rg_issues g')"
    by (simp add: loadIssuesToEvents_def comp_def)
  moreover have "rg_scripts g' = b ++ p" "rg_issues g' = last_n 50 (bi @ pi)"
    unfolding g' by (simp_all add: reportOverrides_fields)
  moreover have "filter (\<lambda>b. \<not> hasPrefix (ev_Key b) loadIssueKeyPrefix) (rv_banners (rg_rsv g')) =
        filter (\<lambda>b. \<not> hasPrefix (ev_Key b) loadIssueKeyPrefix) (rv_banners (rg_rsv g))"
    unfolding g' publish_banners by (simp add: reportOverrides_fields override_banners)
  moreover have "map banner_content (issue_banners (rg_rsv g')) = map (\<lambda>i. banner_content (issue_event i)) (rg_issues g')"
    unfolding g' publish_banners by simp
  ultimately show ?thesis using True err s by simp
qed

lemma reload_swaps_or_keeps_witness:
  "rg_scripts loaded ''id'' = Some (test_script ''plugin'' ''/p/a'') \<and> rg_issues loaded = [test_issue] \<and>
   map banner_content (issue_banners (rg_rsv loaded)) = [banner_content (issue_event test_issue)]"
  using reload_swaps_or_keeps [OF test_reload] by (simp add: loaded_state)

text \<open>C35: from an empty registry, and whatever the disk shows to any sequence of loads and reloads,
  there are at most 50 load issues, the load-issue banners shown are exactly the current issues
  in order, and the catalog is keyed by the ids of its scripts, all of them builtin or plugin.\<close>

theorem registry_stays_coherent:
  assumes "reach registry_init (registry_step rt) g"
  shows "length (Registry_Issues g) \<le> 50 \<and>
     map banner_content (issue_banners (rg_rsv g)) =
       map (\<lambda>i. banner_content (issue_event i)) (Registry_Issues g) \<and>
     scripts_ok {''builtin'', ''plugin''} (rg_scripts g)"
  using loads.reach_inv [OF assms] by (simp add: registry_inv_def Registry_Issues_def)

lemma registry_stays_coherent_witness:
  "map banner_content (issue_banners (rg_rsv loaded)) = [banner_content (issue_event test_issue)] \<and>
   length (Registry_Issues loaded) = 1"
  using registry_stays_coherent [OF loaded_reach] by (simp add: loaded_state Registry_Issues_def)

text \<open>A rescan is idempotent. After a reload that changed the registry, reloading the same disk,
  only the clock being different, reports no change and touches nothing: the fingerprint
  depends neither on the time stamps of the issues nor on what the runtime leaves open.\<close>

theorem rescan_is_idempotent:
  assumes "registry_runtime rt" and "listing_ok f sd" "listing_ok f pd" "Clean sd \<noteq> Clean pd"
    and "Reload rt f sd pd g = ((True, None), g')"
  shows "Reload rt (f\<lparr>fs_Now := now\<rparr>) sd pd g' = ((False, None), g')"
proof -
  obtain b bi p pi where s: "reload_builtin f sd = Inr (b, bi)" "reload_plugins f pd = Inr (p, pi)"
    and g': "g' = publish rt (fold (reportOverride rt) (overrides_of rt b p)
        (g\<lparr>rg_scripts := b ++ p, rg_issues := last_n maxLoadIssues (bi @ pi),
           rg_fingerprint := computeFingerprint rt (b ++ p) (last_n maxLoadIssues (bi @ pi))\<rparr>))"
    using Reload_changed [OF assms(5)] by metis
  obtain bi' pi' where s': "reload_builtin (f\<lparr>fs_Now := now\<rparr>) sd = Inr (b, bi')"
      "reload_plugins (f\<lparr>fs_Now := now\<rparr>) pd = Inr (p, pi')"
    and same: "map untimed bi' = map untimed bi" "map untimed pi' = map untimed pi"
    using reload_builtin_retime [OF s(1)] reload_plugins_retime [OF s(2)] by metis
  have "map untimed (bi @ pi) = map untimed (bi' @ pi')" by (simp add: same)
  then have same_all: "map untimed (last_n 50 (bi @ pi)) = map untimed (last_n 50 (bi' @ pi'))"
    by (metis last_n_def drop_map length_map)
  have "distinct (map issue_key (last_n 50 (bi @ pi)))"
    using reload_issue_keys [OF s assms(2-4)] by (metis distinct_drop drop_map last_n_def)
  moreover have "finite (dom (b ++ p))"
    using scripts_ok_add [OF reload_builtin_ok [OF s(1)] reload_plugins_ok [OF s(2)]]
    by (simp add: scripts_ok_def)
  ultimately have "computeFingerprint rt (b ++ p) (last_n 50 (bi @ pi)) =
      computeFingerprint rt (b ++ p) (last_n 50 (bi' @ pi'))"
    using registry_runtime.computeFingerprint_same [OF assms(1) refl] same_all by metis
  then show ?thesis
    by (simp add: Reload_scanned [OF s'] Let_def g' reportOverrides_fields)
qed

lemma rescan_is_idempotent_witness:
  "Reload test_runtime ((two_dirs ''a'')\<lparr>fs_Now := \<lambda>_ _. 9\<rparr>) ''/s'' ''/p'' loaded = ((False, None), loaded)"
proof -
  have "Clean ''/s'' \<noteq> Clean ''/p''"
    by (simp add: Clean_def path_text_def clean_comps_def clean_step_def is_rooted_def)
  from rescan_is_idempotent [OF test_rt.registry_runtime_axioms test_listing this test_reload]
  show ?thesis .
qed

text \<open>The fingerprint is blind to the directories of the scripts. When a rescan finds the same
  scripts in other directories (a plugin directory was renamed) and the same issues, the reload
  reports no change and the registry keeps handing out the old directories.\<close>

theorem reload_keeps_stale_dirs:
  assumes "registry_runtime rt" "registry_inv rt g" "rg_scripts g \<noteq> Map.empty"
    and "reload_builtin f sd = Inr (b, bi)" "reload_plugins f pd = Inr (p, pi)"
    and "undir (b ++ p) = undir (rg_scripts g)"
    and "map untimed (last_n 50 (bi @ pi)) = map untimed (rg_issues g)" "distinct (map issue_key (rg_issues g))"
  shows "Reload rt f sd pd g = ((False, None), g)"
proof -
  have "map issue_key (last_n 50 (bi @ pi)) = map issue_key (map untimed (last_n 50 (bi @ pi)))"
    by (simp add: comp_def issue_key_untimed)
  also have "\<dots> = map issue_key (rg_issues g)" unfolding assms(7) by (simp add: comp_def issue_key_untimed)
  finally have dist: "distinct (map issue_key (last_n 50 (bi @ pi)))" using assms(8) by simp
  have "finite (dom (b ++ p))"
    using scripts_ok_add [OF reload_builtin_ok [OF assms(4)] reload_plugins_ok [OF assms(5)]]
    by (simp add: scripts_ok_def)
  from registry_runtime.computeFingerprint_same [OF assms(1,6) _ dist this] assms(2,3,7)
  have "computeFingerprint rt (b ++ p) (last_n 50 (bi @ pi)) = rg_fingerprint g"
    unfolding registry_inv_def by metis
  then show ?thesis by (simp add: Reload_scanned [OF assms(4,5)] Let_def)
qed

lemma reload_keeps_stale_dirs_witness:
  "Reload test_runtime (two_dirs ''b'') ''/s'' ''/p'' loaded = ((False, None), loaded) \<and>
   map_option sc_Dir (Registry_Get ''id'' loaded) = Some ''/p/a'' \<and>
   loadScript (two_dirs ''b'') ''/p/a'' ''plugin'' =
     Inl (Errorf ''reading script.json: no such file'' (Some (Errorf ''no such file'' None)))"
proof -
  have "undir ([''id'' \<mapsto> test_script ''builtin'' ''/s/good''] ++ [''id'' \<mapsto> test_script ''plugin'' ''/p/b'']) =
      undir (rg_scripts loaded)"
    by (simp add: undir_def loaded_state test_script_def fun_eq_iff)
  moreover have "registry_inv test_runtime loaded" by (rule loads.reach_inv [OF loaded_reach])
  ultimately have "Reload test_runtime (two_dirs ''b'') ''/s'' ''/p'' loaded = ((False, None), loaded)"
    using reload_keeps_stale_dirs [OF test_rt.registry_runtime_axioms _ _ test_reload_scans(1,3), of loaded]
    by (simp add: loaded_state last_n_def)
  then show ?thesis
    by (simp add: Registry_Get_def loaded_state) (simp add: scan_eval)
qed

text \<open>\<open>List\<close> returns every registered script exactly once, sorted by source and then by name,
  so that the builtin ones come first, for every order in which the map is ranged over and
  every sorting \<open>sort.Slice\<close> may use.\<close>

theorem list_is_sorted_catalog:
  assumes "registry_runtime rt" "finite (dom (rg_scripts g))"
  shows "mset (Registry_List rt g) = image_mset (\<lambda>i. the (Registry_Get i g)) (mset_set (dom (rg_scripts g))) \<and>
     sorted (map script_key (Registry_List rt g))"
proof -
  have ord: "map_range (rt_range rt)" and srt: "slice_sort (rt_sortScripts rt)"
    using assms(1) by (simp_all add: registry_runtime_def)
  have "range_order (rg_scripts g) (rt_range rt (rg_scripts g))"
    by (rule map_range.ord_range [OF ord assms(2)])
  then have "mset (rt_range rt (rg_scripts g)) = mset_set (dom (rg_scripts g))"
    by (metis range_order_def mset_set_set)
  then show ?thesis
    by (simp add: Registry_List_def Registry_Get_def slice_sort.mset_srt [OF srt]
        slice_sort.sorted_key [OF srt script_less_key])
qed

lemma list_is_sorted_catalog_witness:
  "mset (Registry_List test_runtime loaded) = {#test_script ''plugin'' ''/p/a''#}"
  using list_is_sorted_catalog [OF test_rt.registry_runtime_axioms, of loaded]
  by (simp add: loaded_state Registry_Get_def)

end
