(* ===== verification/Reloads.thy ===== *)
theory Reloads
  imports Registry
begin

section \<open>Reloads: overlapping calls of Reload\<close>

text \<open>
  \<^verbatim>\<open>Registry.Reload\<close> holds the lock only while it compares and swaps: the disk is scanned before,
  and the overrides and the banners are published after it. The watcher's timer runs \<open>fire\<close> in a
  goroutine of its own and \<open>pending.Stop()\<close> does not wait for one that has begun, so two calls
  can overlap. Here the stages of a call are definitions of their own (\<open>Reload_stages\<close>: one after
  the other they are \<open>Reload\<close>), \<open>reload_step\<close> interleaves the stages of any number of calls,
  and the theorems say what survives: the catalog is always one whole scan, but only calls whose
  publications do not overlap leave the banners in agreement with it.
\<close>

subsection \<open>The stages of a call\<close>

text \<open>What the call has computed when it takes the lock.\<close>

record scan =
  sn_scripts :: "script_id \<rightharpoonup> Script"
  sn_issues :: "LoadIssue list"
  sn_overrides :: "overrideNotice list"
  sn_fingerprint :: string

definition reload_scan :: "runtime \<Rightarrow> fs \<Rightarrow> string \<Rightarrow> string \<Rightarrow> goerror + scan" where
  "reload_scan rt f scriptsDir pluginDir =
     (case reload_builtin f scriptsDir of
        Inl e \<Rightarrow> Inl e
      | Inr (builtin, builtinIssues) \<Rightarrow>
     (case reload_plugins f pluginDir of
        Inl e \<Rightarrow> Inl e
      | Inr (plugins, pluginIssues) \<Rightarrow>
          let newScripts = builtin ++ plugins;
              allIssues = builtinIssues @ pluginIssues;
              newIssues = (if length allIssues > maxLoadIssues
                           then drop (length allIssues - maxLoadIssues) allIssues else allIssues)
          in Inr \<lparr>sn_scripts = newScripts, sn_issues = newIssues, sn_overrides = overrides_of rt builtin plugins,
               sn_fingerprint = computeFingerprint rt newScripts newIssues\<rparr>))"

text \<open>The locked section: the snapshot of the issues, if the scan was installed.\<close>

definition reload_swap :: "scan \<Rightarrow> registry \<Rightarrow> LoadIssue list option \<times> registry" where
  "reload_swap sn g =
     (if sn_fingerprint sn = rg_fingerprint g then (None, g)
      else (Some (sn_issues sn),
        g\<lparr>rg_scripts := sn_scripts sn, rg_issues := sn_issues sn, rg_fingerprint := sn_fingerprint sn\<rparr>))"

definition publish_snapshot :: "runtime \<Rightarrow> LoadIssue list \<Rightarrow> registry \<Rightarrow> registry" where
  "publish_snapshot rt snapshot g = g\<lparr>rg_rsv :=
     ReplaceBannersByPrefix (rt_env rt) loadIssueKeyPrefix (loadIssuesToEvents snapshot) (rg_rsv g)\<rparr>"

lemma Reload_stages:
  "Reload rt f sd pd g =
     (case reload_scan rt f sd pd of
        Inl e \<Rightarrow> ((False, Some e), g)
      | Inr sn \<Rightarrow>
          (case reload_swap sn g of
             (None, g1) \<Rightarrow> ((False, None), g1)
           | (Some snapshot, g1) \<Rightarrow>
               ((True, None), publish_snapshot rt snapshot (fold (reportOverride rt) (sn_overrides sn) g1))))"
proof (cases "reload_builtin f sd")
  case (Inl e)
  then show ?thesis by (simp add: Reload_def reload_scan_def)
next
  case b: (Inr bf)
  obtain bm bi where bf: "bf = (bm, bi)" by (cases bf)
  show ?thesis
  proof (cases "reload_plugins f pd")
    case (Inl e)
    with b bf show ?thesis by (simp add: Reload_def reload_scan_def)
  next
    case p: (Inr pf)
    obtain pm pi where pf: "pf = (pm, pi)" by (cases pf)
    show ?thesis
      unfolding Reload_scanned [OF b [unfolded bf] p [unfolded pf]]
      by (simp add: reload_scan_def b p bf pf Let_def reload_swap_def last_n_def publish_snapshot_def
          publish_def reportOverrides_fields)
  qed
qed

subsection \<open>Interleaving\<close>

text \<open>
  Where a call is: it has scanned and is about to take the lock, it has swapped and has these
  overrides left to report before it publishes its snapshot, or it has returned.
\<close>

datatype reload_pc =
    Scanned scan
  | Reporting "overrideNotice list" "LoadIssue list"
  | Returned bool "goerror option"

record reload_world =
  lw_reg :: registry
  lw_calls :: "reload_pc list"

definition at_call :: "reload_world \<Rightarrow> nat \<Rightarrow> reload_pc \<Rightarrow> bool" where
  "at_call w i pc \<longleftrightarrow> i < length (lw_calls w) \<and> lw_calls w ! i = pc"

definition goto :: "nat \<Rightarrow> reload_pc \<Rightarrow> registry \<Rightarrow> reload_world \<Rightarrow> reload_world" where
  "goto i pc g w = w\<lparr>lw_reg := g, lw_calls := (lw_calls w)[i := pc]\<rparr>"

text \<open>
  \<open>D\<close> holds the disks the calls may see. \<open>rl_other\<close> is everybody else who reports: it
  leaves the registry and the issue banners alone.
\<close>

inductive reload_step :: "runtime \<Rightarrow> fs set \<Rightarrow> string \<Rightarrow> string \<Rightarrow> reload_world \<Rightarrow> reload_world \<Rightarrow> bool"
  for rt :: runtime and D :: "fs set" and sd pd :: string
where
  rl_scan: "f \<in> D \<Longrightarrow> reload_scan rt f sd pd = Inr sn \<Longrightarrow>
    reload_step rt D sd pd w (w\<lparr>lw_calls := lw_calls w @ [Scanned sn]\<rparr>)"
| rl_fail: "f \<in> D \<Longrightarrow> reload_scan rt f sd pd = Inl e \<Longrightarrow>
    reload_step rt D sd pd w (w\<lparr>lw_calls := lw_calls w @ [Returned False (Some e)]\<rparr>)"
| rl_same: "at_call w i (Scanned sn) \<Longrightarrow> reload_swap sn (lw_reg w) = (None, g) \<Longrightarrow>
    reload_step rt D sd pd w (goto i (Returned False None) g w)"
| rl_swap: "at_call w i (Scanned sn) \<Longrightarrow> reload_swap sn (lw_reg w) = (Some snapshot, g) \<Longrightarrow>
    reload_step rt D sd pd w (goto i (Reporting (sn_overrides sn) snapshot) g w)"
| rl_override: "at_call w i (Reporting (ov # ovs) snapshot) \<Longrightarrow>
    reload_step rt D sd pd w (goto i (Reporting ovs snapshot) (reportOverride rt ov (lw_reg w)) w)"
| rl_publish: "at_call w i (Reporting [] snapshot) \<Longrightarrow>
    reload_step rt D sd pd w (goto i (Returned True None) (publish_snapshot rt snapshot (lw_reg w)) w)"
| rl_other: "map banner_content (issue_banners r) = map banner_content (issue_banners (rg_rsv (lw_reg w))) \<Longrightarrow>
    reload_step rt D sd pd w (w\<lparr>lw_reg := (lw_reg w)\<lparr>rg_rsv := r\<rparr>\<rparr>)"

inductive_cases reload_stepE: "reload_step rt D sd pd w w'"

text \<open>Before the first call: a registry the loads at start-up have left.\<close>

definition reload_init :: "runtime \<Rightarrow> registry \<Rightarrow> reload_world \<Rightarrow> bool" where
  "reload_init rt g0 w \<longleftrightarrow> w = \<lparr>lw_reg = g0, lw_calls = []\<rparr> \<and> registry_inv rt g0"

subsection \<open>What every interleaving keeps\<close>

definition scanned_from :: "runtime \<Rightarrow> fs set \<Rightarrow> string \<Rightarrow> string \<Rightarrow> scan \<Rightarrow> bool" where
  "scanned_from rt D sd pd sn \<longleftrightarrow> (\<exists>f \<in> D. reload_scan rt f sd pd = Inr sn)"

definition installed :: "scan \<Rightarrow> registry \<Rightarrow> bool" where
  "installed sn g \<longleftrightarrow> rg_scripts g = sn_scripts sn \<and> rg_issues g = sn_issues sn \<and> rg_fingerprint g = sn_fingerprint sn"

definition shows_issues :: "LoadIssue list \<Rightarrow> registry \<Rightarrow> bool" where
  "shows_issues is g \<longleftrightarrow>
     map banner_content (issue_banners (rg_rsv g)) = map (\<lambda>i. banner_content (issue_event i)) is"

definition whole_inv :: "runtime \<Rightarrow> fs set \<Rightarrow> string \<Rightarrow> string \<Rightarrow> registry \<Rightarrow> reload_world \<Rightarrow> bool" where
  "whole_inv rt D sd pd g0 w \<longleftrightarrow>
     (\<exists>sn. installed sn (lw_reg w) \<and> (installed sn g0 \<or> scanned_from rt D sd pd sn)) \<and>
     (\<exists>is. shows_issues is (lw_reg w) \<and> (is = rg_issues g0 \<or> (\<exists>sn. scanned_from rt D sd pd sn \<and> is = sn_issues sn))) \<and>
     (\<forall>i sn. at_call w i (Scanned sn) \<longrightarrow> scanned_from rt D sd pd sn) \<and>
     (\<forall>i ovs snapshot. at_call w i (Reporting ovs snapshot) \<longrightarrow>
        (\<exists>sn. scanned_from rt D sd pd sn \<and> snapshot = sn_issues sn))"

lemma reload_scan_ok:
  assumes "reload_scan rt f sd pd = Inr sn"
  shows "scripts_ok {''builtin'', ''plugin''} (sn_scripts sn) \<and> length (sn_issues sn) \<le> maxLoadIssues \<and>
    sn_fingerprint sn = computeFingerprint rt (sn_scripts sn) (sn_issues sn)"
proof -
  obtain b bi p pi where found: "reload_builtin f sd = Inr (b, bi)" "reload_plugins f pd = Inr (p, pi)"
    and sn: "sn_scripts sn = b ++ p" "length (sn_issues sn) \<le> maxLoadIssues"
      "sn_fingerprint sn = computeFingerprint rt (sn_scripts sn) (sn_issues sn)"
    using assms by (auto simp: reload_scan_def Let_def split: sum.splits if_splits)
  show ?thesis
    unfolding sn(1) by (intro conjI scripts_ok_add reload_builtin_ok [OF found(1)] reload_plugins_ok [OF found(2)])
      (simp_all add: sn)
qed

lemma at_call_goto:
  "at_call (goto i pc g w) j pc' \<longleftrightarrow> j < length (lw_calls w) \<and> (if j = i then pc' = pc else at_call w j pc')"
  by (auto simp: at_call_def goto_def nth_list_update)

lemma at_call_append:
  "at_call (w\<lparr>lw_calls := lw_calls w @ [pc]\<rparr>) j pc' \<longleftrightarrow> at_call w j pc' \<or> j = length (lw_calls w) \<and> pc' = pc"
  by (auto simp: at_call_def nth_append)

lemma at_call_reg [simp]: "at_call (w\<lparr>lw_reg := g\<rparr>) = at_call w"
  by (simp add: at_call_def fun_eq_iff)

lemma lw_reg_goto [simp]: "lw_reg (goto i pc g w) = g"
  by (simp add: goto_def)

lemma publish_snapshot_state:
  "installed sn (publish_snapshot rt is g) = installed sn g" "shows_issues is (publish_snapshot rt is g)"
  using Replace_banners(1) [of "loadIssuesToEvents is" loadIssueKeyPrefix "rt_env rt" "rg_rsv g"]
  by (simp_all add: publish_snapshot_def installed_def shows_issues_def loadIssuesToEvents_def issue_event_key comp_def)

lemma reportOverride_state:
  "installed sn (reportOverride rt ov g) = installed sn g" "shows_issues is (reportOverride rt ov g) = shows_issues is g"
  by (simp_all add: reportOverride_def installed_def shows_issues_def Report_fields override_event_def)

lemma reload_swap_None: "reload_swap sn g = (None, g') \<Longrightarrow> g' = g"
  by (simp add: reload_swap_def split: if_splits)

lemma reload_swap_Some:
  "reload_swap sn g = (Some snapshot, g') \<Longrightarrow>
     snapshot = sn_issues sn \<and> installed sn g' \<and> shows_issues is g' = shows_issues is g \<and> rg_rsv g' = rg_rsv g"
  by (auto simp: reload_swap_def installed_def shows_issues_def split: if_splits)

lemma whole_inv_step:
  assumes inv: "whole_inv rt D sd pd g0 w" and step: "reload_step rt D sd pd w w'"
  shows "whole_inv rt D sd pd g0 w'"
  using step
proof cases
  case (rl_scan f sn)
  then have "scanned_from rt D sd pd sn" by (auto simp: scanned_from_def)
  with inv rl_scan show ?thesis by (auto simp: whole_inv_def at_call_append)
next
  case (rl_fail f e)
  with inv rl_fail show ?thesis by (simp add: whole_inv_def at_call_append)
next
  case (rl_same i sn g)
  with inv rl_same show ?thesis by (auto simp: whole_inv_def at_call_goto dest!: reload_swap_None)
next
  case (rl_swap i sn snapshot g)
  note swap = reload_swap_Some [OF rl_swap(3)]
  have sn: "scanned_from rt D sd pd sn" using inv rl_swap(2) by (simp add: whole_inv_def)
  with swap have "\<exists>sn. installed sn g \<and> (installed sn g0 \<or> scanned_from rt D sd pd sn)" by blast
  moreover have "\<exists>is. shows_issues is g \<and> (is = rg_issues g0 \<or> (\<exists>sn. scanned_from rt D sd pd sn \<and> is = sn_issues sn))"
    using inv swap by (simp add: whole_inv_def)
  ultimately show ?thesis using inv sn swap unfolding rl_swap(1) by (auto simp: whole_inv_def at_call_goto)
next
  case (rl_override i ov ovs snapshot)
  with inv rl_override show ?thesis by (simp add: whole_inv_def at_call_goto reportOverride_state) blast
next
  case (rl_publish i snapshot)
  obtain sn where "scanned_from rt D sd pd sn" "snapshot = sn_issues sn"
    using inv rl_publish(2) by (simp add: whole_inv_def) blast
  then have "\<exists>is. shows_issues is (publish_snapshot rt snapshot (lw_reg w)) \<and>
      (is = rg_issues g0 \<or> (\<exists>sn. scanned_from rt D sd pd sn \<and> is = sn_issues sn))"
    by (intro exI [of _ snapshot]) (auto simp: publish_snapshot_state)
  with inv show ?thesis unfolding rl_publish(1) by (auto simp: whole_inv_def at_call_goto publish_snapshot_state)
next
  case (rl_other r)
  with inv rl_other show ?thesis by (simp add: whole_inv_def installed_def shows_issues_def)
qed

interpretation overlap: inv_system "reload_init rt g0" "reload_step rt D sd pd" "whole_inv rt D sd pd g0"
  for rt :: runtime and g0 :: registry and D :: "fs set" and sd pd :: string
proof
  fix w assume w: "reload_init rt g0 w"
  have "installed \<lparr>sn_scripts = rg_scripts g0, sn_issues = rg_issues g0, sn_overrides = [],
      sn_fingerprint = rg_fingerprint g0\<rparr> g0" by (simp add: installed_def)
  with w show "whole_inv rt D sd pd g0 w"
    by (auto simp: reload_init_def whole_inv_def registry_inv_def at_call_def shows_issues_def)
qed (rule whole_inv_step)

subsection \<open>Publications that do not overlap\<close>

definition reporting :: "reload_world \<Rightarrow> nat \<Rightarrow> bool" where
  "reporting w i \<longleftrightarrow> (\<exists>ovs snapshot. at_call w i (Reporting ovs snapshot))"

text \<open>Scans may overlap in any way, but no call swaps while another has still to publish.\<close>

definition orderly_step :: "runtime \<Rightarrow> fs set \<Rightarrow> string \<Rightarrow> string \<Rightarrow> reload_world \<Rightarrow> reload_world \<Rightarrow> bool" where
  "orderly_step rt D sd pd w w' \<longleftrightarrow>
     reload_step rt D sd pd w w' \<and> (\<forall>i j. reporting w' i \<longrightarrow> reporting w' j \<longrightarrow> i = j)"

definition mirror_inv :: "reload_world \<Rightarrow> bool" where
  "mirror_inv w \<longleftrightarrow> (\<forall>i j. reporting w i \<longrightarrow> reporting w j \<longrightarrow> i = j) \<and>
     ((\<forall>i. \<not> reporting w i) \<longrightarrow> shows_issues (rg_issues (lw_reg w)) (lw_reg w)) \<and>
     (\<forall>i ovs snapshot. at_call w i (Reporting ovs snapshot) \<longrightarrow> snapshot = rg_issues (lw_reg w))"

lemma reporting_goto:
  "reporting (goto i pc g w) j \<longleftrightarrow>
     j < length (lw_calls w) \<and> (if j = i then (\<exists>ovs snapshot. pc = Reporting ovs snapshot) else reporting w j)"
  by (auto simp: reporting_def at_call_goto)

lemma reporting_append:
  "reporting (w\<lparr>lw_calls := lw_calls w @ [pc]\<rparr>) j \<longleftrightarrow>
     reporting w j \<or> j = length (lw_calls w) \<and> (\<exists>ovs snapshot. pc = Reporting ovs snapshot)"
  by (auto simp: reporting_def at_call_append)

lemma reportingI: "at_call w i (Reporting ovs snapshot) \<Longrightarrow> reporting w i"
  by (auto simp: reporting_def)

lemma at_call_bound: "at_call w i pc \<Longrightarrow> i < length (lw_calls w)"
  by (simp add: at_call_def)

lemma reporting_bound: "reporting w i \<Longrightarrow> i < length (lw_calls w)"
  by (auto simp: reporting_def at_call_def)

lemma mirror_inv_step:
  assumes inv: "mirror_inv w" and step: "orderly_step rt D sd pd w w'"
  shows "mirror_inv w'"
proof -
  from step have one: "\<forall>i j. reporting w' i \<longrightarrow> reporting w' j \<longrightarrow> i = j" by (simp add: orderly_step_def)
  from step have "reload_step rt D sd pd w w'" by (simp add: orderly_step_def)
  then show ?thesis
  proof cases
    case (rl_scan f sn)
    with inv one show ?thesis by (auto simp: mirror_inv_def reporting_append at_call_append)
  next
    case (rl_fail f e)
    with inv one show ?thesis by (auto simp: mirror_inv_def reporting_append at_call_append)
  next
    case (rl_same i sn g)
    have "\<not> reporting w i" using rl_same(2) by (auto simp: reporting_def at_call_def)
    then have "reporting w' = reporting w"
      using rl_same(1) reporting_bound by (auto simp: reporting_goto fun_eq_iff)
    with inv one rl_same show ?thesis by (auto simp: mirror_inv_def at_call_goto dest!: reload_swap_None)
  next
    case (rl_swap i sn snapshot g)
    note swap = reload_swap_Some [OF rl_swap(3)]
    have i: "reporting w' i" using rl_swap(1) at_call_bound [OF rl_swap(2)] by (simp add: reporting_goto)
    have "snap = rg_issues g" if "at_call w' j (Reporting ovs snap)" for j ovs snap
    proof -
      have "j = i" using one i reportingI [OF that] by blast
      with that swap show ?thesis using rl_swap(1) by (simp add: at_call_goto installed_def)
    qed
    with one i show ?thesis unfolding rl_swap(1) by (auto simp: mirror_inv_def)
  next
    case (rl_override i ov ovs snapshot)
    have i: "reporting w i" by (rule reportingI [OF rl_override(2)])
    have same: "reporting w' = reporting w"
      unfolding rl_override(1) using i reporting_bound by (auto simp: reporting_goto fun_eq_iff)
    have "rg_issues (lw_reg w') = rg_issues (lw_reg w)" unfolding rl_override(1) by (simp add: reportOverride_def)
    moreover have "snapshot = rg_issues (lw_reg w)" using inv rl_override(2) by (simp add: mirror_inv_def)
    ultimately have "snap = rg_issues (lw_reg w')" if "at_call w' j (Reporting os snap)" for j os snap
      using that inv unfolding rl_override(1) by (auto simp: mirror_inv_def at_call_goto split: if_splits)
    with one i same show ?thesis by (auto simp: mirror_inv_def)
  next
    case (rl_publish i snapshot)
    have "snapshot = rg_issues (lw_reg w)" using inv rl_publish(2) by (auto simp: mirror_inv_def)
    moreover have "rg_issues (publish_snapshot rt snapshot (lw_reg w)) = rg_issues (lw_reg w)"
      by (simp add: publish_snapshot_def)
    ultimately show ?thesis using inv one unfolding rl_publish(1)
      by (auto simp: mirror_inv_def at_call_goto publish_snapshot_state(2))
  next
    case (rl_other r)
    then have "reporting w' = reporting w" by (simp add: reporting_def fun_eq_iff)
    with inv one rl_other show ?thesis by (auto simp: mirror_inv_def shows_issues_def)
  qed
qed

interpretation orderly: inv_system "reload_init rt g0" "orderly_step rt D sd pd" mirror_inv
  for rt :: runtime and g0 :: registry and D :: "fs set" and sd pd :: string
proof
  fix w assume "reload_init rt g0 w"
  then show "mirror_inv w"
    by (auto simp: reload_init_def mirror_inv_def reporting_def at_call_def shows_issues_def registry_inv_def)
qed (rule mirror_inv_step)

subsection \<open>Schedules\<close>

lemma reach_overrides:
  assumes "reach (reload_init rt g0) (reload_step rt D sd pd) w" "at_call w i (Reporting ovs snapshot)"
  shows "reach (reload_init rt g0) (reload_step rt D sd pd)
    (goto i (Reporting [] snapshot) (fold (reportOverride rt) ovs (lw_reg w)) w)"
  using assms
proof (induction ovs arbitrary: w)
  case Nil
  then have "goto i (Reporting [] snapshot) (lw_reg w) w = w"
    by (simp add: goto_def at_call_def list_update_same_conv)
  with Nil(1) show ?case by simp
next
  case (Cons ov ovs)
  let ?w = "goto i (Reporting ovs snapshot) (reportOverride rt ov (lw_reg w)) w"
  have "reach (reload_init rt g0) (reload_step rt D sd pd) ?w"
    using Cons.prems by (blast intro: reach_step rl_override)
  moreover have "at_call ?w i (Reporting ovs snapshot)"
    using at_call_bound [OF Cons.prems(2)] by (simp add: at_call_goto)
  ultimately have "reach (reload_init rt g0) (reload_step rt D sd pd)
      (goto i (Reporting [] snapshot) (fold (reportOverride rt) ovs (lw_reg ?w)) ?w)" by (rule Cons.IH)
  then show ?case by (simp add: goto_def)
qed

lemma reach_finish:
  assumes "reach (reload_init rt g0) (reload_step rt D sd pd) w" "at_call w i (Reporting ovs snapshot)"
  shows "reach (reload_init rt g0) (reload_step rt D sd pd)
    (goto i (Returned True None) (publish_snapshot rt snapshot (fold (reportOverride rt) ovs (lw_reg w))) w)"
proof -
  let ?w = "goto i (Reporting [] snapshot) (fold (reportOverride rt) ovs (lw_reg w)) w"
  have "at_call ?w i (Reporting [] snapshot)" using at_call_bound [OF assms(2)] by (simp add: at_call_goto)
  from reach_step [OF reach_overrides [OF assms] rl_publish [OF this]] show ?thesis by (simp add: goto_def)
qed

lemma overrides_state:
  "installed sn (fold (reportOverride rt) ovs g) = installed sn g"
  "shows_issues is (fold (reportOverride rt) ovs g) = shows_issues is g"
  by (induction ovs arbitrary: g) (simp_all add: reportOverride_state)

lemma reach_registry_inv: "reach (reload_init rt g0) step w \<Longrightarrow> registry_inv rt g0"
  by (induction rule: reach.induct) (auto simp: reload_init_def)

text \<open>Two calls scan, the first before the second: the point from which the orders below differ.\<close>

definition both_scanned :: "registry \<Rightarrow> scan \<Rightarrow> scan \<Rightarrow> reload_world" where
  "both_scanned g0 a b = \<lparr>lw_reg = g0, lw_calls = [Scanned a, Scanned b]\<rparr>"

definition swapped :: "scan \<Rightarrow> registry \<Rightarrow> registry" where
  "swapped sn g = g\<lparr>rg_scripts := sn_scripts sn, rg_issues := sn_issues sn, rg_fingerprint := sn_fingerprint sn\<rparr>"

lemma reload_swap_new: "sn_fingerprint sn \<noteq> rg_fingerprint g \<Longrightarrow> reload_swap sn g = (Some (sn_issues sn), swapped sn g)"
  by (simp add: reload_swap_def swapped_def)

lemma swapped_state: "installed sn (swapped sn g)" "rg_fingerprint (swapped sn g) = sn_fingerprint sn"
  by (simp_all add: swapped_def installed_def)

lemma reach_both_scanned:
  assumes "registry_inv rt g0" "fa \<in> D" "reload_scan rt fa sd pd = Inr a" "fb \<in> D" "reload_scan rt fb sd pd = Inr b"
  shows "reach (reload_init rt g0) (reload_step rt D sd pd) (both_scanned g0 a b)"
proof -
  have "reach (reload_init rt g0) (reload_step rt D sd pd) \<lparr>lw_reg = g0, lw_calls = []\<rparr>"
    using assms(1) by (intro reach_init) (simp add: reload_init_def)
  from reach_step [OF reach_step [OF this rl_scan [OF assms(2,3)]] rl_scan [OF assms(4,5)]]
  show ?thesis by (simp add: both_scanned_def)
qed

lemma reach_swap:
  assumes "reach (reload_init rt g0) (reload_step rt D sd pd) w" "at_call w i (Scanned sn)"
    and "sn_fingerprint sn \<noteq> rg_fingerprint (lw_reg w)"
  shows "reach (reload_init rt g0) (reload_step rt D sd pd)
    (goto i (Reporting (sn_overrides sn) (sn_issues sn)) (swapped sn (lw_reg w)) w)"
  using reach_step [OF assms(1) rl_swap [OF assms(2) reload_swap_new [OF assms(3)]]] .

lemma fold_override_fingerprint: "rg_fingerprint (fold (reportOverride rt) ovs g) = rg_fingerprint g"
  by (simp add: reportOverrides_fields)

lemma publish_snapshot_fingerprint [simp]: "rg_fingerprint (publish_snapshot rt is g) = rg_fingerprint g"
  by (simp add: publish_snapshot_def)

subsection \<open>Properties\<close>

text \<open>However the calls of \<open>Reload\<close> overlap, the registry is never a mixture. Its scripts, its issues
  and its fingerprint are together those of one scan some call made of one disk (or those it
  started with), the catalog is keyed by the ids of its scripts, there are at most 50 issues, and
  the issue banners shown are together the issues of one scan.\<close>

theorem overlapping_reloads_stay_whole:
  assumes "reach (reload_init rt g0) (reload_step rt D sd pd) w"
  shows "(\<exists>sn. installed sn (lw_reg w) \<and>
       (installed sn g0 \<or> (\<exists>f \<in> D. reload_scan rt f sd pd = Inr sn))) \<and>
     scripts_ok {''builtin'', ''plugin''} (rg_scripts (lw_reg w)) \<and> length (rg_issues (lw_reg w)) \<le> 50 \<and>
     (\<exists>is. shows_issues is (lw_reg w) \<and>
       (is = rg_issues g0 \<or> (\<exists>f \<in> D. \<exists>sn. reload_scan rt f sd pd = Inr sn \<and> is = sn_issues sn)))"
proof -
  have inv: "whole_inv rt D sd pd g0 w" by (rule overlap.reach_inv [OF assms])
  have g0: "registry_inv rt g0" by (rule reach_registry_inv [OF assms])
  obtain sn where sn: "installed sn (lw_reg w)" "installed sn g0 \<or> scanned_from rt D sd pd sn"
    using inv unfolding whole_inv_def by (elim conjE exE) (rule that)
  have "scripts_ok {''builtin'', ''plugin''} (rg_scripts (lw_reg w)) \<and> length (rg_issues (lw_reg w)) \<le> maxLoadIssues"
    using sn(2)
  proof
    assume "installed sn g0"
    with sn(1) g0 show ?thesis by (simp add: installed_def registry_inv_def)
  next
    assume "scanned_from rt D sd pd sn"
    then obtain f where "reload_scan rt f sd pd = Inr sn" by (auto simp: scanned_from_def)
    from reload_scan_ok [OF this] sn(1) show ?thesis by (simp add: installed_def)
  qed
  with sn inv show ?thesis unfolding whole_inv_def scanned_from_def by blast
qed

text \<open>The banners follow the catalog as long as publications do not overlap. Scans may overlap in any
  way; if no call swaps while another has yet to publish, then whenever no call is publishing, the
  load-issue banners shown are exactly the current issues.\<close>

theorem orderly_publications_mirror:
  assumes "reach (reload_init rt g0) (orderly_step rt D sd pd) w" "\<forall>i. \<not> reporting w i"
  shows "map banner_content (issue_banners (rg_rsv (lw_reg w))) =
     map (\<lambda>i. banner_content (issue_event i)) (Registry_Issues (lw_reg w))"
  using orderly.reach_inv [OF assms(1)] assms(2)
  by (simp add: mirror_inv_def shows_issues_def Registry_Issues_def)

text \<open>Overlapping publications can strand the banners. Two calls scan disks with different
  contents, both swap, and the first to swap publishes last: when both have returned, the catalog
  is that of the second, the banners are those of the first, and a further reload of the same disk
  finds nothing changed and leaves it at that.\<close>

theorem late_publisher_strands_banners:
  assumes "registry_inv rt g0" "fa \<in> D" "reload_scan rt fa sd pd = Inr a" "fb \<in> D" "reload_scan rt fb sd pd = Inr b"
    and "sn_fingerprint a \<noteq> rg_fingerprint g0" "sn_fingerprint b \<noteq> sn_fingerprint a"
  shows "\<exists>w. reach (reload_init rt g0) (reload_step rt D sd pd) w \<and>
     lw_calls w = [Returned True None, Returned True None] \<and>
     installed b (lw_reg w) \<and> shows_issues (sn_issues a) (lw_reg w) \<and>
     Reload rt fb sd pd (lw_reg w) = ((False, None), lw_reg w)"
proof -
  let ?w0 = "both_scanned g0 a b"
  define w1 where "w1 = goto 0 (Reporting (sn_overrides a) (sn_issues a)) (swapped a g0) ?w0"
  define w2 where "w2 = goto 1 (Reporting (sn_overrides b) (sn_issues b)) (swapped b (swapped a g0)) w1"
  define w3 where "w3 = goto 1 (Returned True None) (publish_snapshot rt (sn_issues b)
     (fold (reportOverride rt) (sn_overrides b) (lw_reg w2))) w2"
  define w where "w = goto 0 (Returned True None) (publish_snapshot rt (sn_issues a)
     (fold (reportOverride rt) (sn_overrides a) (lw_reg w3))) w3"
  have "reach (reload_init rt g0) (reload_step rt D sd pd) w1"
    using reach_swap [OF reach_both_scanned [OF assms(1-5)], of 0 a] assms(6)
    by (simp add: w1_def both_scanned_def at_call_def)
  then have "reach (reload_init rt g0) (reload_step rt D sd pd) w2"
    using reach_swap [of rt g0 D sd pd w1 1 b] assms(7)
    by (simp add: w2_def w1_def both_scanned_def goto_def at_call_def swapped_state)
  then have "reach (reload_init rt g0) (reload_step rt D sd pd) w3"
    unfolding w3_def by (rule reach_finish) (simp add: w2_def w1_def both_scanned_def goto_def at_call_def)
  then have "reach (reload_init rt g0) (reload_step rt D sd pd) w"
    unfolding w_def by (rule reach_finish) (simp add: w3_def w2_def w1_def both_scanned_def goto_def at_call_def)
  moreover have "lw_calls w = [Returned True None, Returned True None]"
    by (simp add: w_def w3_def w2_def w1_def both_scanned_def goto_def)
  moreover have b: "installed b (lw_reg w)"
    by (simp add: w_def w3_def w2_def publish_snapshot_state overrides_state swapped_state)
  moreover have "shows_issues (sn_issues a) (lw_reg w)" by (simp add: w_def publish_snapshot_state)
  moreover have "Reload rt fb sd pd (lw_reg w) = ((False, None), lw_reg w)"
    using b by (simp add: Reload_stages assms(5) reload_swap_def installed_def)
  ultimately show ?thesis by blast
qed

lemma registry_inv_New: "registry_inv rt (New newReservoir)"
  by (rule loads.inv_init) (auto simp: registry_init_def newReservoir_def)

definition bare_disk :: fs where
  "bare_disk = test_disk (\<lambda>_. []) []"

definition scan_a :: scan where
  "scan_a = \<lparr>sn_scripts = [''id'' \<mapsto> test_script ''plugin'' ''/p/a''], sn_issues = [test_issue],
     sn_overrides = [\<lparr>ov_scriptID = ''id'', ov_builtinDir = ''/s/good'', ov_pluginDir = ''/p/a''\<rparr>],
     sn_fingerprint = ''#2''\<rparr>"

definition scan_b :: scan where
  "scan_b = \<lparr>sn_scripts = Map.empty, sn_issues = [], sn_overrides = [], sn_fingerprint = ''#0''\<rparr>"

lemma test_scan_a: "reload_scan test_runtime (two_dirs ''a'') ''/s'' ''/p'' = Inr scan_a"
  by (simp add: reload_scan_def test_reload_scans(1,2) Let_def scan_a_def overrides_of_def computeFingerprint_def
      test_runtime_def sorted_keys_def test_script_def insertion_sort_def dec_nat.simps digit_char_def char_of_def bit_0)

lemma test_scan_b: "reload_scan test_runtime bare_disk ''/s'' ''/p'' = Inr scan_b"
  by (simp add: reload_scan_def reload_builtin_def reload_plugins_def bare_disk_def buildFromDir_def test_disk_def
      Let_def scan_b_def overrides_of_def computeFingerprint_def test_runtime_def sorted_keys_def insertion_sort_def
      dec_nat.simps digit_char_def char_of_def bit_0)

text \<open>A scan that was overtaken wins: the call that scanned first and swaps last puts the older disk
  back, and reports a change.\<close>

theorem overtaken_scan_wins:
  assumes "registry_inv rt g0" "fa \<in> D" "reload_scan rt fa sd pd = Inr a" "fb \<in> D" "reload_scan rt fb sd pd = Inr b"
    and "sn_fingerprint b \<noteq> rg_fingerprint g0" "sn_fingerprint b \<noteq> sn_fingerprint a"
  shows "\<exists>w. reach (reload_init rt g0) (reload_step rt D sd pd) w \<and>
     lw_calls w = [Returned True None, Returned True None] \<and> installed a (lw_reg w)"
proof -
  let ?w0 = "both_scanned g0 a b"
  define w1 where "w1 = goto 1 (Reporting (sn_overrides b) (sn_issues b)) (swapped b g0) ?w0"
  define w2 where "w2 = goto 1 (Returned True None) (publish_snapshot rt (sn_issues b)
     (fold (reportOverride rt) (sn_overrides b) (lw_reg w1))) w1"
  define w3 where "w3 = goto 0 (Reporting (sn_overrides a) (sn_issues a)) (swapped a (lw_reg w2)) w2"
  define w where "w = goto 0 (Returned True None) (publish_snapshot rt (sn_issues a)
     (fold (reportOverride rt) (sn_overrides a) (lw_reg w3))) w3"
  have "reach (reload_init rt g0) (reload_step rt D sd pd) w1"
    using reach_swap [OF reach_both_scanned [OF assms(1-5)], of 1 b] assms(6)
    by (simp add: w1_def both_scanned_def at_call_def)
  then have "reach (reload_init rt g0) (reload_step rt D sd pd) w2"
    unfolding w2_def by (rule reach_finish) (simp add: w1_def both_scanned_def goto_def at_call_def)
  then have "reach (reload_init rt g0) (reload_step rt D sd pd) w3"
    unfolding w3_def using assms(7)
    by (rule_tac reach_swap)
      (simp_all add: w2_def w1_def both_scanned_def goto_def at_call_def fold_override_fingerprint swapped_state)
  then have "reach (reload_init rt g0) (reload_step rt D sd pd) w"
    unfolding w_def by (rule reach_finish) (simp add: w3_def w2_def w1_def both_scanned_def goto_def at_call_def)
  moreover have "lw_calls w = [Returned True None, Returned True None]"
    by (simp add: w_def w3_def w2_def w1_def both_scanned_def goto_def)
  moreover have "installed a (lw_reg w)"
    by (simp add: w_def w3_def publish_snapshot_state overrides_state swapped_state)
  ultimately show ?thesis by blast
qed

lemma test_scan_facts:
  "sn_fingerprint scan_a \<noteq> rg_fingerprint (New newReservoir)" "sn_fingerprint scan_b \<noteq> rg_fingerprint (New newReservoir)"
  "sn_fingerprint scan_b \<noteq> sn_fingerprint scan_a" "sn_issues scan_a = [test_issue]"
  by (simp_all add: scan_a_def scan_b_def New_def)

abbreviation test_reloads :: "reload_world \<Rightarrow> bool" where
  "test_reloads \<equiv> reach (reload_init test_runtime (New newReservoir))
     (reload_step test_runtime {two_dirs ''a'', bare_disk} ''/s'' ''/p'')"

lemma late_publisher_strands_banners_witness:
  "\<exists>w. test_reloads w \<and> lw_calls w = [Returned True None, Returned True None] \<and>
     installed scan_b (lw_reg w) \<and> shows_issues [test_issue] (lw_reg w) \<and>
     Reload test_runtime bare_disk ''/s'' ''/p'' (lw_reg w) = ((False, None), lw_reg w)"
  using late_publisher_strands_banners [OF registry_inv_New _ test_scan_a _ test_scan_b, of "{two_dirs ''a'', bare_disk}"]
    test_scan_facts by (simp only: insert_iff simp_thms)

lemma overtaken_scan_wins_witness:
  "\<exists>w. test_reloads w \<and> lw_calls w = [Returned True None, Returned True None] \<and> installed scan_a (lw_reg w)"
  using overtaken_scan_wins [OF registry_inv_New _ test_scan_a _ test_scan_b, of "{two_dirs ''a'', bare_disk}"]
    test_scan_facts by (simp only: insert_iff simp_thms)

lemma test_swapped:
  "test_reloads (goto 0 (Reporting (sn_overrides scan_a) [test_issue]) (swapped scan_a (New newReservoir))
     (both_scanned (New newReservoir) scan_a scan_b))"
  using reach_swap [OF reach_both_scanned [OF registry_inv_New _ test_scan_a _ test_scan_b,
      of "{two_dirs ''a'', bare_disk}"], of 0 scan_a] test_scan_facts
  by (simp add: both_scanned_def at_call_def)

lemma overlapping_reloads_stay_whole_witness:
  "length (rg_issues (swapped scan_a (New newReservoir))) \<le> 50 \<and>
   (\<exists>sn. installed sn (swapped scan_a (New newReservoir)) \<and>
      (\<exists>f \<in> {two_dirs ''a'', bare_disk}. reload_scan test_runtime f ''/s'' ''/p'' = Inr sn))"
proof -
  have "\<not> installed sn (New newReservoir)" if "installed sn (swapped scan_a (New newReservoir))" for sn
    using that test_scan_facts(1) by (auto simp: installed_def swapped_def)
  then show ?thesis using overlapping_reloads_stay_whole [OF test_swapped] unfolding lw_reg_goto by blast
qed

text \<open>A single call, from its scan to its return.\<close>

lemma single_call_orderly:
  "reload_step rt D sd pd w w' \<Longrightarrow> length (lw_calls w') \<le> 1 \<Longrightarrow> orderly_step rt D sd pd w w'"
  by (auto simp: orderly_step_def dest!: reporting_bound)

definition reloaded :: reload_world where
  "reloaded = \<lparr>lw_reg = publish_snapshot test_runtime [test_issue]
       (fold (reportOverride test_runtime) (sn_overrides scan_a) (swapped scan_a (New newReservoir))),
     lw_calls = [Returned True None]\<rparr>"

lemma orderly_reloaded:
  "reach (reload_init test_runtime (New newReservoir)) (orderly_step test_runtime {two_dirs ''a''} ''/s'' ''/p'') reloaded"
proof -
  let ?r = "reach (reload_init test_runtime (New newReservoir)) (orderly_step test_runtime {two_dirs ''a''} ''/s'' ''/p'')"
  have s0: "?r \<lparr>lw_reg = New newReservoir, lw_calls = []\<rparr>"
    by (rule reach_init) (simp add: reload_init_def registry_inv_New)
  obtain ov where ov: "sn_overrides scan_a = [ov]" by (simp add: scan_a_def)
  have s1: "?r \<lparr>lw_reg = New newReservoir, lw_calls = [Scanned scan_a]\<rparr>"
    using rl_scan [OF _ test_scan_a, of "{two_dirs ''a''}" "\<lparr>lw_reg = New newReservoir, lw_calls = []\<rparr>"]
    by (intro reach_step [OF s0] single_call_orderly) simp_all
  have s2: "?r \<lparr>lw_reg = swapped scan_a (New newReservoir), lw_calls = [Reporting [ov] [test_issue]]\<rparr>"
    using rl_swap [of "\<lparr>lw_reg = New newReservoir, lw_calls = [Scanned scan_a]\<rparr>" 0 scan_a "[test_issue]" "swapped scan_a (New newReservoir)"]
      reload_swap_new [OF test_scan_facts(1)]
    by (intro reach_step [OF s1] single_call_orderly) (simp_all add: at_call_def goto_def ov test_scan_facts(4))
  have s3: "?r \<lparr>lw_reg = reportOverride test_runtime ov (swapped scan_a (New newReservoir)),
      lw_calls = [Reporting [] [test_issue]]\<rparr>"
    using rl_override [of "\<lparr>lw_reg = swapped scan_a (New newReservoir), lw_calls = [Reporting [ov] [test_issue]]\<rparr>" 0 ov "[]" "[test_issue]"]
    by (intro reach_step [OF s2] single_call_orderly) (simp_all add: at_call_def goto_def)
  show ?thesis
    using rl_publish [of "\<lparr>lw_reg = reportOverride test_runtime ov (swapped scan_a (New newReservoir)),
        lw_calls = [Reporting [] [test_issue]]\<rparr>" 0 "[test_issue]"]
    by (intro reach_step [OF s3] single_call_orderly) (simp_all add: at_call_def goto_def reloaded_def ov)
qed

lemma orderly_publications_mirror_witness:
  "map banner_content (issue_banners (rg_rsv (lw_reg reloaded))) = [banner_content (issue_event test_issue)]"
proof -
  have "\<forall>i. \<not> reporting reloaded i" by (auto simp: reporting_def at_call_def reloaded_def less_Suc_eq)
  from orderly_publications_mirror [OF orderly_reloaded this] show ?thesis
    by (simp add: Registry_Issues_def reloaded_def publish_snapshot_def reportOverrides_fields swapped_def test_scan_facts(4))
qed

end
