(* ===== verification/ScriptService.thy ===== *)
theory ScriptService
  imports Registry
begin

section \<open>ScriptService: the catalog for the frontend, and opening paths\<close>

text \<open>
  Models \<^verbatim>\<open>internal/services/script_service.go\<close>. The service shares the registry and its
  reservoir; \<open>ss_emits\<close> are the Wails events it emitted itself, \<open>ss_openHook\<close> says whether the
  opener was installed and \<open>ss_opened\<close> lists the paths handed to it. Of the desktop it uses the
  working directory, \<open>os.Stat\<close> and the opener's answer.
\<close>

record scriptService =
  ss_registry :: registry
  ss_app :: bool
  ss_emits :: "string list"
  ss_allowedRoot :: "string list"
  ss_openHook :: bool
  ss_opened :: "string list"

record desktop =
  dk_Getwd :: "goerror + string"
  dk_Stat :: "string \<Rightarrow> goerror option"
  dk_Open :: "string \<Rightarrow> goerror option"
  dk_Quote :: "string \<Rightarrow> string"
  dk_env :: env

fun service_roots :: "goerror + string \<Rightarrow> string list \<Rightarrow> string list" where
  "service_roots cwd [] = []"
| "service_roots cwd (r # rs) =
     (if r = [] then service_roots cwd rs
      else Clean (case Abs cwd r of Inl e \<Rightarrow> r | Inr full \<Rightarrow> full) # service_roots cwd rs)"

definition NewScriptService :: "desktop \<Rightarrow> registry \<Rightarrow> string list \<Rightarrow> scriptService" where
  "NewScriptService d reg allowedRoots =
     \<lparr>ss_registry = reg, ss_app = False, ss_emits = [],
      ss_allowedRoot = service_roots (dk_Getwd d) allowedRoots, ss_openHook = False, ss_opened = []\<rparr>"

definition ScriptService_SetApp :: "scriptService \<Rightarrow> scriptService" where
  "ScriptService_SetApp s = s\<lparr>ss_app := True, ss_openHook := True\<rparr>"

definition ss_report :: "desktop \<Rightarrow> Event \<Rightarrow> scriptService \<Rightarrow> scriptService" where
  "ss_report d ev s = s\<lparr>ss_registry := (ss_registry s)\<lparr>rg_rsv := Report (dk_env d) ev (rg_rsv (ss_registry s))\<rparr>\<rparr>"

definition NotifyChanged :: "desktop \<Rightarrow> scriptService \<Rightarrow> scriptService" where
  "NotifyChanged d s =
     ss_report d (Event0\<lparr>ev_Severity := SeverityInfo, ev_Persistence := PersistenceOneShot,
         ev_Source := SourceBackend, ev_Message := ''scripts:changed emitted''\<rparr>)
       (if ss_app s then s\<lparr>ss_emits := ss_emits s @ [''scripts:changed'']\<rparr> else s)"

definition ListScripts :: "runtime \<Rightarrow> scriptService \<Rightarrow> Script list" where
  "ListScripts rt s = Registry_List rt (ss_registry s)"

definition ListIssues :: "scriptService \<Rightarrow> LoadIssue list" where
  "ListIssues s = Registry_Issues (ss_registry s)"

definition isAllowedPath :: "goerror + string \<Rightarrow> string list \<Rightarrow> string \<Rightarrow> bool" where
  "isAllowedPath cwd roots clean =
     (if roots = [] then False
      else (case Abs cwd clean of
              Inl e \<Rightarrow> False
            | Inr a \<Rightarrow>
                (let full = Clean a
                 in \<exists>root \<in> set roots. full = root \<or> hasPrefix full (root @ [slash]))))"

definition open_error :: "string \<Rightarrow> goerror \<Rightarrow> Event" where
  "open_error title err = Event0\<lparr>ev_Severity := SeverityError, ev_Persistence := PersistenceOneShot,
     ev_Source := SourceBackend, ev_Title := title, ev_Message := error_text err, ev_Err := Some err\<rparr>"

definition opened_event :: "string \<Rightarrow> Event" where
  "opened_event clean = Event0\<lparr>ev_Severity := SeverityInfo, ev_Persistence := PersistenceOneShot,
     ev_Source := SourceBackend, ev_Message := ''OpenPath opened '' @ clean\<rparr>"

text \<open>Calling the hook before \<open>SetApp\<close> installed it is a nil dereference.\<close>

definition OpenPath :: "desktop \<Rightarrow> string \<Rightarrow> scriptService \<Rightarrow> (goerror option \<times> scriptService) go" where
  "OpenPath d absPath s =
     (let clean = Clean absPath
      in if \<not> isAllowedPath (dk_Getwd d) (ss_allowedRoot s) clean then
           (let err = Errorf (''path '' @ dk_Quote d absPath @ '' is outside allowed roots'') None
            in Ret (Some err, ss_report d (open_error ''Open path rejected'' err) s))
         else
           (case dk_Stat d clean of
              Some e \<Rightarrow>
                (let wrapped = Errorf (''path does not exist: '' @ error_text e) (Some e)
                 in Ret (Some wrapped, ss_report d (open_error ''Open path failed'' wrapped) s))
            | None \<Rightarrow>
                if \<not> ss_openHook s then Panic ''nil func call''
                else
                  (let s1 = s\<lparr>ss_opened := ss_opened s @ [clean]\<rparr>
                   in case dk_Open d clean of
                        Some e \<Rightarrow>
                          (let wrapped = Errorf (''opening '' @ clean @ '': '' @ error_text e) (Some e)
                           in Ret (Some wrapped, ss_report d (open_error ''Open path failed'' wrapped) s1))
                      | None \<Rightarrow> Ret (None, ss_report d (opened_event clean) s1))))"

subsection \<open>Containment\<close>

lemma Abs_rooted:
  assumes "Abs cwd p = Inr q" "\<forall>c. cwd = Inr c \<longrightarrow> is_rooted c"
  shows "is_rooted q"
proof (cases "is_rooted p")
  case True
  with assms(1) show ?thesis by (auto simp: Abs_def)
next
  case False
  with assms(1) obtain c where c: "cwd = Inr c" "q = Join c p" by (auto simp: Abs_def split: sum.splits)
  with assms(2) have "is_rooted c" by simp
  then obtain cs where "c = slash # cs" by (cases c) (auto simp: is_rooted_def)
  with c(2) have q: "q = Clean (slash # cs @ slash # p)" by (simp add: Join_all_def)
  show ?thesis unfolding q is_rooted_Clean by (simp add: is_rooted_def)
qed

lemma join_with_append:
  "xs \<noteq> [] \<Longrightarrow> ys \<noteq> [] \<Longrightarrow> join_with sep (xs @ ys) = join_with sep xs @ sep @ join_with sep ys"
proof (induction xs)
  case (Cons x xs)
  then show ?case by (cases "xs = []") (simp_all add: join_with_Cons)
qed simp

lemma comps_prefix_text:
  assumes "ds \<noteq> []" "strict_prefix ds cs"
  shows "prefix (path_text True ds @ [slash]) (path_text True cs)"
proof -
  from assms(2) obtain rest where "cs = ds @ rest" "rest \<noteq> []"
    by (metis append_Nil2 prefix_def strict_prefix_def)
  with assms(1) show ?thesis by (simp add: path_text_def join_with_append prefix_def)
qed

text \<open>
  The test \<open>isAllowedPath\<close> makes of two cleaned rooted texts, in terms of their components: the
  root itself, or anything below it, except that nothing counts as below the file system's root.
\<close>

definition below :: "string list \<Rightarrow> string list \<Rightarrow> bool" where
  "below root cs \<longleftrightarrow> cs = root \<or> root \<noteq> [] \<and> prefix root cs"

lemma text_test_below:
  assumes a: "is_rooted a" and r: "is_rooted r"
  shows "(Clean a = Clean r \<or> hasPrefix (Clean a) (Clean r @ [slash])) \<longleftrightarrow> below (comps r) (comps a)"
proof -
  have ta: "Clean a = path_text True (comps a)" and tr: "Clean r = path_text True (comps r)"
    using a r by (simp_all add: Clean_comps)
  have ca: "cleaned True (comps a)" and cr: "cleaned True (comps r)"
    using comps_cleaned [of a] comps_cleaned [of r] a r by simp_all
  have eq: "Clean a = Clean r \<longleftrightarrow> comps a = comps r"
    unfolding ta tr by (rule path_text_inj [OF ca cr])
  have "prefix (comps r) (comps a)" if "hasPrefix (Clean a) (Clean r @ [slash])"
    using prefix_text_comps [OF ca cr] that by (simp add: ta tr hasPrefix_iff_prefix)
  moreover have "comps r \<noteq> []" if pre: "hasPrefix (Clean a) (Clean r @ [slash])" "comps a \<noteq> comps r"
  proof
    assume "comps r = []"
    with pre(1) have "prefix [slash, slash] (path_text True (comps a))"
      by (simp add: ta tr hasPrefix_iff_prefix path_text_def)
    then have "prefix [slash] (join_with [slash] (comps a))" by (simp add: path_text_def)
    moreover from pre(2) \<open>comps r = []\<close> obtain x xs where xs: "comps a = x # xs" by (cases "comps a") simp_all
    moreover from cleaned_plain [OF ca] xs have "plain x" "x \<noteq> []" by simp_all
    then obtain y ys where "x = y # ys" "y \<noteq> slash" by (cases x) (auto simp: plain_def)
    ultimately show False by (cases xs) simp_all
  qed
  moreover have "hasPrefix (Clean a) (Clean r @ [slash])"
    if "comps r \<noteq> []" "prefix (comps r) (comps a)" "comps a \<noteq> comps r"
    using comps_prefix_text [of "comps r" "comps a"] that
    by (simp add: ta tr hasPrefix_iff_prefix strict_prefix_def)
  ultimately show ?thesis unfolding below_def eq by blast
qed

text \<open>A path as seen from the working directory.\<close>

definition located :: "string \<Rightarrow> string \<Rightarrow> string" where
  "located cwd p = (if is_rooted p then p else cwd @ slash # p)"

lemma is_rooted_located: "is_rooted cwd \<Longrightarrow> is_rooted (located cwd p)"
  by (cases cwd) (simp_all add: located_def is_rooted_def)

lemma Abs_located:
  assumes "is_rooted cwd" "p \<noteq> []"
  shows "Abs (Inr cwd) p = Inr (Clean (located cwd p))"
proof -
  from assms(1) have "cwd \<noteq> []" by (simp add: is_rooted_def)
  with assms(2) show ?thesis by (simp add: Abs_def located_def Join_all_def)
qed

lemma service_roots_located:
  "is_rooted cwd \<Longrightarrow> service_roots (Inr cwd) rs = map (\<lambda>r. Clean (located cwd r)) (filter (\<lambda>r. r \<noteq> []) rs)"
  by (induction rs) (simp_all add: Abs_located)

lemma Clean_nonempty: "Clean p \<noteq> []"
proof -
  have "path_text rooted cs \<noteq> []" if "cleaned rooted cs" for rooted cs
  proof (cases cs)
    case (Cons c ds)
    with cleaned_plain [OF that, of c] show ?thesis by (cases ds) (simp_all add: path_text_def)
  qed (simp add: path_text_def)
  then show ?thesis unfolding Clean_comps using comps_cleaned by blast
qed

definition allowed :: "string \<Rightarrow> string list \<Rightarrow> string \<Rightarrow> bool" where
  "allowed cwd roots p \<longleftrightarrow>
     (\<exists>r \<in> set roots. r \<noteq> [] \<and> below (comps (located cwd r)) (comps (located cwd (Clean p))))"

lemma isAllowedPath_iff:
  assumes "is_rooted cwd"
  shows "isAllowedPath (Inr cwd) (service_roots (Inr cwd) roots) (Clean p) \<longleftrightarrow> allowed cwd roots p"
proof -
  have "(Clean (located cwd (Clean p)) = Clean (located cwd r) \<or>
      hasPrefix (Clean (located cwd (Clean p))) (Clean (located cwd r) @ [slash])) \<longleftrightarrow>
      below (comps (located cwd r)) (comps (located cwd (Clean p)))" for r
    by (rule text_test_below; rule is_rooted_located [OF assms])
  then show ?thesis
    by (auto simp: isAllowedPath_def allowed_def service_roots_located [OF assms]
        Abs_located [OF assms Clean_nonempty] Let_def filter_empty_conv)
qed

lemma ss_report_fields [simp]:
  "ss_opened (ss_report d ev s) = ss_opened s" "ss_allowedRoot (ss_report d ev s) = ss_allowedRoot s"
  "ss_openHook (ss_report d ev s) = ss_openHook s"
  "log_view (rg_rsv (ss_registry (ss_report d ev s))) = log_view (rg_rsv (ss_registry s)) @ [event_view ev]"
  by (simp_all add: ss_report_def rsv.seen_report)

text \<open>C32: \<open>OpenPath\<close> hands to the desktop only cleaned paths that exist and whose components,
  dot-dots resolved against the working directory, are those of an allowed root or extend them:
  neither a dot-dot nor a sibling whose name merely starts like a root gets through. Nothing
  else is opened, no error is returned exactly when it was opened, and every call is reported
  once, an error with the error returned.\<close>

theorem open_path_contained:
  assumes "dk_Getwd d = Inr cwd" "is_rooted cwd" "ss_openHook s"
    and "ss_allowedRoot s = ss_allowedRoot (NewScriptService d reg roots)"
  shows "\<exists>err s'. OpenPath d p s = Ret (err, s') \<and>
     ss_opened s' = ss_opened s @ (if allowed cwd roots p \<and> dk_Stat d (Clean p) = None then [Clean p] else []) \<and>
     (err = None \<longleftrightarrow> allowed cwd roots p \<and> dk_Stat d (Clean p) = None \<and> dk_Open d (Clean p) = None) \<and>
     log_view (rg_rsv (ss_registry s')) = log_view (rg_rsv (ss_registry s)) @
       [event_view (case err of None \<Rightarrow> opened_event (Clean p)
          | Some e \<Rightarrow> open_error (if allowed cwd roots p then ''Open path failed'' else ''Open path rejected'') e)]"
proof -
  have test: "isAllowedPath (dk_Getwd d) (ss_allowedRoot s) (Clean p) = allowed cwd roots p"
    unfolding assms(4) by (simp add: NewScriptService_def assms(1) isAllowedPath_iff [OF assms(2)])
  show ?thesis
  proof (cases "allowed cwd roots p")
    case False
    then show ?thesis by (simp add: OpenPath_def test Let_def)
  next
    case ok: True
    show ?thesis
    proof (cases "dk_Stat d (Clean p)")
      case (Some e)
      with ok show ?thesis by (simp add: OpenPath_def test Let_def)
    next
      case None
      with ok assms(3) show ?thesis
        by (cases "dk_Open d (Clean p)") (simp_all add: OpenPath_def test Let_def)
    qed
  qed
qed

definition test_desktop :: desktop where
  "test_desktop = \<lparr>dk_Getwd = Inr ''/home'', dk_Stat = (\<lambda>_. None), dk_Open = (\<lambda>_. None),
     dk_Quote = (\<lambda>s. s), dk_env = test_env\<rparr>"

definition test_scripts :: scriptService where
  "test_scripts = ScriptService_SetApp (NewScriptService test_desktop loaded [''s'', [], ''/p''])"

lemmas path_eval = allowed_def below_def located_def comps_def clean_comps_def clean_step_def
  is_rooted_def Clean_def path_text_def

lemma open_path_contained_witness:
  "(\<exists>err s'. OpenPath test_desktop ''/home/x/../s/good/main.py'' test_scripts = Ret (err, s') \<and>
      err = None \<and> ss_opened s' = [''/home/s/good/main.py'']) \<and>
   (\<exists>err s'. OpenPath test_desktop ''/p/../pp/x'' test_scripts = Ret (err, s') \<and>
      err \<noteq> None \<and> ss_opened s' = [])"
proof
  have pre: "dk_Getwd test_desktop = Inr ''/home''" "is_rooted ''/home''" "ss_openHook test_scripts"
    "ss_allowedRoot test_scripts = ss_allowedRoot (NewScriptService test_desktop loaded [''s'', [], ''/p''])"
    "ss_opened test_scripts = []"
    by (simp_all add: test_desktop_def is_rooted_def test_scripts_def ScriptService_SetApp_def NewScriptService_def)
  have a: "allowed ''/home'' [''s'', [], ''/p''] ''/home/x/../s/good/main.py''"
    and c: "Clean ''/home/x/../s/good/main.py'' = ''/home/s/good/main.py''"
    by (simp_all add: path_eval)
  from open_path_contained [OF pre(1-4), of "''/home/x/../s/good/main.py''"]
  show "\<exists>err s'. OpenPath test_desktop ''/home/x/../s/good/main.py'' test_scripts = Ret (err, s') \<and>
      err = None \<and> ss_opened s' = [''/home/s/good/main.py'']"
    by (auto simp: a c pre(5)) (auto simp: test_desktop_def)
  have n: "\<not> allowed ''/home'' [''s'', [], ''/p''] ''/p/../pp/x''" by (simp add: path_eval)
  from open_path_contained [OF pre(1-4), of "''/p/../pp/x''"]
  show "\<exists>err s'. OpenPath test_desktop ''/p/../pp/x'' test_scripts = Ret (err, s') \<and>
      err \<noteq> None \<and> ss_opened s' = []"
    by (auto simp: n pre(5))
qed

end
