(* ===== verification/LogService.thy ===== *)
theory LogService
  imports Logging Notify
begin

section \<open>LogService: frontend errors and the live log\<close>

text \<open>
  Models \<^verbatim>\<open>internal/services/log_service.go\<close> together with the path it closes: the reservoir
  hands the slog record of an event to the logger, whose handler writes the file and pushes
  the entry to the ring, whose callback (installed by \<open>SetApp\<close>) emits \<open>log:entry\<close> to the
  frontend. \<open>lg_emits\<close> are the payloads of those events.
\<close>

record logService =
  lg_sink :: logsink
  lg_rsv :: reservoir
  lg_app :: bool
  lg_emits :: "payload list"

definition NewLogService :: "logsink \<Rightarrow> reservoir \<Rightarrow> logService" where
  "NewLogService sink rsv = \<lparr>lg_sink = sink, lg_rsv = rsv, lg_app = False, lg_emits = []\<rparr>"

definition LogService_SetApp :: "logService \<Rightarrow> logService" where
  "LogService_SetApp s =
     s\<lparr>lg_app := True, lg_sink := (lg_sink s)\<lparr>ls_ring := SetOnPush (ls_ring (lg_sink s))\<rparr>\<rparr>"

definition log_payload :: "LogEntry \<Rightarrow> payload" where
  "log_payload e =
     [(''Timestamp'', JTime (le_Timestamp e)), (''Level'', JStr (le_Level e)),
      (''Source'', JStr (le_Source e)), (''Message'', JStr (le_Message e)),
      (''RunID'', JStr (le_RunID e)), (''ScriptID'', JStr (le_ScriptID e)),
      (''Traceback'', JStr (le_Traceback e))]"

definition on_push :: "LogEntry \<Rightarrow> logService \<Rightarrow> logService" where
  "on_push e s = (if lg_app s then s\<lparr>lg_emits := lg_emits s @ [log_payload e]\<rparr> else s)"

text \<open>The logger writes the record \<open>r\<close> at time \<open>t\<close>; the ring's callback runs for what was pushed.\<close>

definition write_record ::
    "(nat \<Rightarrow> goerror option) \<Rightarrow> multiHandler \<Rightarrow> time \<Rightarrow> SlogRecord \<Rightarrow> logService \<Rightarrow> logService go" where
  "write_record fileErr h t r s =
     go_bind (logger_log fileErr h (t, r) (lg_sink s)) (\<lambda>sink.
       Ret (fold on_push (drop (length (rb_calls (ls_ring (lg_sink s)))) (rb_calls (ls_ring sink)))
              (s\<lparr>lg_sink := sink\<rparr>)))"

text \<open>\<open>reservoir.Report\<close>, with the record it logs written.\<close>

definition log_report ::
    "env \<Rightarrow> (nat \<Rightarrow> goerror option) \<Rightarrow> multiHandler \<Rightarrow> time \<Rightarrow> Event \<Rightarrow> logService \<Rightarrow> logService go" where
  "log_report en fileErr h t ev s =
     (let rsv = Report en ev (lg_rsv s)
      in write_record fileErr h t (last (rv_log rsv)) (s\<lparr>lg_rsv := rsv\<rparr>))"

text \<open>A lookup in a Go map of strings: the zero value where the key is missing.\<close>

definition ctx :: "(string \<rightharpoonup> string) \<Rightarrow> string \<Rightarrow> string" where
  "ctx m k = (case m k of None \<Rightarrow> [] | Some v \<Rightarrow> v)"

definition synthesizeJSTraceback :: "(string \<rightharpoonup> string) \<Rightarrow> string" where
  "synthesizeJSTraceback m =
     (let stack = ctx m ''stack''; src = ctx m ''source''; line = ctx m ''line''; col = ctx m ''column'';
          loc = (if line \<noteq> [] then src @ '':'' @ line @ (if col \<noteq> [] then '':'' @ col else []) else src);
          parts = (if src \<noteq> [] \<or> line \<noteq> [] \<or> col \<noteq> [] then [''at '' @ loc] else [])
                  @ (if stack \<noteq> [] then [stack] else [])
      in join_with newline parts)"

definition frontend_event :: "string \<Rightarrow> string \<Rightarrow> (string \<rightharpoonup> string) \<Rightarrow> Event" where
  "frontend_event source message m = Event0\<lparr>ev_Severity := SeverityError,
     ev_Persistence := PersistenceOneShot, ev_Source := source, ev_Message := message,
     ev_RunID := ctx m ''runID'', ev_ScriptID := ctx m ''scriptID'',
     ev_Traceback := (if ctx m ''traceback'' = [] then synthesizeJSTraceback m else ctx m ''traceback'')\<rparr>"

definition LogError ::
    "env \<Rightarrow> (nat \<Rightarrow> goerror option) \<Rightarrow> multiHandler \<Rightarrow> time \<Rightarrow> string \<Rightarrow> string \<Rightarrow> (string \<rightharpoonup> string) \<Rightarrow>
       logService \<Rightarrow> logService go" where
  "LogError en fileErr h t source message m s = log_report en fileErr h t (frontend_event source message m) s"

definition GetLogs :: "logService \<Rightarrow> LogEntry list go" where
  "GetLogs s = Entries (ls_ring (lg_sink s))"

subsection \<open>From the event to the viewer\<close>

text \<open>The ring entry of a record does not depend on its \<open>id\<close> attribute.\<close>

lemma fold_fill_attr_view:
  "fold fill_attr (filter (\<lambda>(k, v). k \<noteq> ''id'') as) e = fold fill_attr as e"
proof (induction as arbitrary: e)
  case (Cons a as)
  obtain k v where "a = (k, v)" by (cases a)
  with Cons show ?case by simp
qed simp

lemma log_entry_view: "log_entry now t (record_view r) = log_entry now t r"
  by (simp add: log_entry_def record_view_def fold_fill_attr_view)

lemma last_report_view: "record_view (last (rv_log (Report en ev r))) = event_view ev"
proof -
  have "map record_view (rv_log (Report en ev r)) \<noteq> []"
    "last (map record_view (rv_log (Report en ev r))) = event_view ev"
    unfolding Report_fields by simp_all
  then show ?thesis by (metis last_map list.map_disc_iff)
qed

lemma log_entry_report:
  "log_entry now t (last (rv_log (Report en ev r))) = log_entry now t (event_view ev)"
  using log_entry_view [of now t "last (rv_log (Report en ev r))"] by (simp add: last_report_view)

text \<open>What the log viewer shows of an event.\<close>

definition shown_entry :: "time \<Rightarrow> Event \<Rightarrow> LogEntry" where
  "shown_entry t ev =
     \<lparr>le_Timestamp = t, le_Level = Level_String (event_level ev),
      le_Source = (if ev_Source ev = [] then ''system'' else ev_Source ev),
      le_Message = event_message ev, le_RunID = ev_RunID ev, le_ScriptID = ev_ScriptID ev,
      le_Traceback = ev_Traceback ev\<rparr>"

lemma fill_opt_attr:
  "fold fill_attr (opt_attr ''key'' v) e = e"
  "le_RunID e = [] \<Longrightarrow> fold fill_attr (opt_attr ''runID'' v) e = e\<lparr>le_RunID := v\<rparr>"
  "le_ScriptID e = [] \<Longrightarrow> fold fill_attr (opt_attr ''scriptID'' v) e = e\<lparr>le_ScriptID := v\<rparr>"
  "le_Traceback e = [] \<Longrightarrow> fold fill_attr (opt_attr ''traceback'' v) e = e\<lparr>le_Traceback := v\<rparr>"
  by (simp_all add: opt_attr_def)

lemma fill_error_attr: "fold fill_attr (case x of None \<Rightarrow> [] | Some y \<Rightarrow> [(''error'', error_text y)]) e = e"
  by (cases x) simp_all

lemma fill_first_attrs:
  "fold fill_attr [(''source'', a), (''severity'', b), (''persistence'', c), (''id'', d)] e = e\<lparr>le_Source := a\<rparr>"
  by simp

lemma fill_event_attrs:
  assumes "le_RunID e = []" "le_ScriptID e = []" "le_Traceback e = []"
  shows "fold fill_attr (event_attrs ev) e =
     e\<lparr>le_Source := ev_Source ev, le_RunID := ev_RunID ev, le_ScriptID := ev_ScriptID ev,
       le_Traceback := ev_Traceback ev\<rparr>"
  using assms unfolding event_attrs_def fold_append comp_apply
  by (cases e) (simp only: fill_first_attrs fill_error_attr, simp add: fill_opt_attr)

lemma log_entry_shown: "log_entry t t (event_view ev) = shown_entry t ev"
proof -
  have "log_entry t t (event_view ev) = log_entry t t
     \<lparr>sl_Level = event_level ev, sl_Message = event_message ev, sl_Attrs = event_attrs ev\<rparr>"
    unfolding event_view_def by (rule log_entry_view)
  then show ?thesis
    by (simp add: log_entry_def Let_def fill_event_attrs zeroLogEntry_def shown_entry_def)
qed

text \<open>A service in order: the sink keeps its invariant, the callback is installed.\<close>

lemma log_report_Ret:
  assumes inv: "sink_inv c (lg_sink s)" and app: "lg_app s" and ok: "fileErr (ls_tries (lg_sink s)) = None"
  shows "\<exists>s'. log_report en fileErr h t ev s = Ret s' \<and> sink_inv c (lg_sink s') \<and>
     lg_rsv s' = Report en ev (lg_rsv s) \<and> lg_app s' = lg_app s \<and>
     lg_emits s' = lg_emits s @ [log_payload (shown_entry t ev)] \<and>
     ring_list (ls_ring (lg_sink s')) = last_n (nat c) (ring_list (ls_ring (lg_sink s)) @ [shown_entry t ev])"
proof -
  let ?r = "last (rv_log (Report en ev (lg_rsv s)))"
  let ?sk = "lg_sink s"
  from inv have ring: "ring_inv (ls_ring ?sk)" "rb_onPush (ls_ring ?sk)" "rb_cap (ls_ring ?sk) = c"
    by (simp_all add: sink_inv_def)
  have e: "log_entry t t ?r = shown_entry t ev" by (simp add: log_entry_report log_entry_shown)
  have "record_view ?r = event_view ev" "sl_Level (record_view ?r) = sl_Level ?r"
    by (rule last_report_view) (simp add: record_view_def)
  then have lev: "handlerEnabled (sl_Level ?r)"
    by (simp add: event_view_def record_view_def event_level_def handlerEnabled_def split: if_splits)
  obtain ring' where push: "Push (shown_entry t ev) (ls_ring ?sk) = Ret ring'"
    and calls: "rb_calls ring' = rb_calls (ls_ring ?sk) @ [shown_entry t ev]"
    using Push_Ret [OF ring(1), of "shown_entry t ev"] ring(2) by auto
  obtain sk' where log: "logger_log fileErr h (t, ?r) ?sk = Ret sk'" and inv': "sink_inv c sk'"
    using logger_log_inv [OF inv] by blast
  from log lev ok push have sk': "ls_ring sk' = ring'"
    by (auto simp: logger_log_def Handle_def Let_def e)
  show ?thesis
    using inv' Push_list [OF ring(1) push] app
    by (simp add: log_report_def write_record_def Let_def log sk' calls on_push_def ring(3))
qed

text \<open>An error the frontend reports reaches every surface. With the app wired and the log file
  writable, \<open>LogError\<close> does not panic; its entry (level ERROR, the frontend's source or
  \<open>system\<close>, the traceback given or else synthesized from the JavaScript keys) is the newest of
  the log and of what \<open>GetLogs\<close> returns, the same entry is streamed once as \<open>log:entry\<close>, and
  one toast is emitted.\<close>

theorem frontend_error_reaches_viewer:
  assumes "sink_inv c (lg_sink s)" "lg_app s" "fileErr (ls_tries (lg_sink s)) = None" "GetLogs s = Ret old"
  shows "\<exists>s'. LogError en fileErr h t source message m s = Ret s' \<and>
     (let e = \<lparr>le_Timestamp = t, le_Level = ''ERROR'',
                le_Source = (if source = [] then ''system'' else source), le_Message = message,
                le_RunID = ctx m ''runID'', le_ScriptID = ctx m ''scriptID'',
                le_Traceback = (if ctx m ''traceback'' = [] then synthesizeJSTraceback m
                                else ctx m ''traceback'')\<rparr>
      in GetLogs s' = Ret (last_n (nat c) (old @ [e])) \<and>
         lg_emits s' = lg_emits s @ [log_payload e]) \<and>
     map fst (rv_emits (lg_rsv s')) = map fst (rv_emits (lg_rsv s)) @ (if rv_app (lg_rsv s) then [EventToast] else [])"
proof -
  let ?ev = "frontend_event source message m"
  from assms(1,4) have old: "ring_list (ls_ring (lg_sink s)) = old"
    by (simp add: GetLogs_def sink_inv_def Entries_ring_list)
  obtain s' where s': "log_report en fileErr h t ?ev s = Ret s'" "sink_inv c (lg_sink s')"
      "lg_rsv s' = Report en ?ev (lg_rsv s)" "lg_emits s' = lg_emits s @ [log_payload (shown_entry t ?ev)]"
      "ring_list (ls_ring (lg_sink s')) = last_n (nat c) (ring_list (ls_ring (lg_sink s)) @ [shown_entry t ?ev])"
    using log_report_Ret [of c s fileErr en h t ?ev, OF assms(1-3)] by blast
  have e: "shown_entry t ?ev = \<lparr>le_Timestamp = t, le_Level = ''ERROR'',
                le_Source = (if source = [] then ''system'' else source), le_Message = message,
                le_RunID = ctx m ''runID'', le_ScriptID = ctx m ''scriptID'',
                le_Traceback = (if ctx m ''traceback'' = [] then synthesizeJSTraceback m
                                else ctx m ''traceback'')\<rparr>"
    by (simp add: shown_entry_def frontend_event_def event_level_def event_message_def Level_String_def
        level_offset_def Event0_def)
  have "map fst (rv_emits (lg_rsv s')) = map fst (rv_emits (lg_rsv s)) @ (if rv_app (lg_rsv s) then [EventToast] else [])"
    unfolding s'(3) Report_fields by (simp add: route_def frontend_event_def)
  with s' show ?thesis
    by (simp add: LogError_def GetLogs_def Entries_ring_list sink_inv_def e [symmetric] old Let_def)
qed

definition test_ring :: RingBuffer where
  "test_ring = \<lparr>rb_entries = [zeroLogEntry], rb_cap = 1, rb_head = 0, rb_count = 0, rb_onPush = False, rb_calls = []\<rparr>"

definition test_logs :: logService where
  "test_logs = LogService_SetApp (NewLogService (newSink test_ring) (SetApp newReservoir))"

lemma frontend_error_reaches_viewer_witness:
  "\<exists>s'. LogError test_env (\<lambda>_. None) newMultiHandler 5 [] ''boom'' [''source'' \<mapsto> ''app.js'', ''line'' \<mapsto> ''3''] test_logs = Ret s' \<and>
     go_bind (GetLogs s') (\<lambda>es. Ret (map le_Traceback es)) = Ret [''at app.js:3''] \<and> length (lg_emits s') = 1"
proof -
  have "ring_inv (SetOnPush test_ring)" "ring_list (SetOnPush test_ring) = []"
    by (simp_all add: ring_inv_def ring_list_def test_ring_def SetOnPush_def)
  then have inv: "sink_inv 1 (lg_sink test_logs)" and old: "GetLogs test_logs = Ret []"
    by (simp_all add: sink_inv_def test_logs_def LogService_SetApp_def NewLogService_def newSink_def GetLogs_def
        file_entries_def last_n_def Entries_ring_list SetOnPush_def test_ring_def)
  have app: "lg_app test_logs" "lg_emits test_logs = []"
    by (simp_all add: test_logs_def LogService_SetApp_def NewLogService_def)
  have tb: "synthesizeJSTraceback [''source'' \<mapsto> ''app.js'', ''line'' \<mapsto> ''3''] = ''at app.js:3''"
    by (simp add: synthesizeJSTraceback_def ctx_def Let_def)
  from frontend_error_reaches_viewer [OF inv app(1) refl old, of test_env newMultiHandler 5 "[]" "''boom''"
      "[''source'' \<mapsto> ''app.js'', ''line'' \<mapsto> ''3'']"]
  show ?thesis by (auto simp: Let_def last_n_def tb ctx_def app(2))
qed

end
