(* ===== verification/RunnerService.thy ===== *)
theory RunnerService
  imports Manager Registry
begin

section \<open>RunnerService: runs, parallel groups and the messages forwarded to the frontend\<close>

text \<open>
  Models \<^verbatim>\<open>internal/services/runner_service.go\<close> over the manager. \<open>rn_emits\<close> are the Wails
  events the service emits itself, \<open>rn_groups\<close> and \<open>rn_runGroups\<close> its two maps (the second an
  association list with one entry per key, as the code ranges over it), \<open>rn_calls\<close> the runs
  the manager accepted with their parameters, \<open>rn_forwards\<close> the \<open>forwardMessages\<close> goroutines
  started. The other goroutines (exits of runs, forwarders) may act before every call the
  service makes to the manager: this is the parameter \<open>intf\<close>, with the number of the call.
\<close>

subsection \<open>State\<close>

record runGroup =
  gr_GroupID :: string
  gr_ScriptID :: script_id
  gr_RunIDs :: "run_id list"

type_synonym run_params = "(string \<times> string) list"

record 'd runner =
  rn_mgr :: "'d manager"
  rn_app :: bool
  rn_emits :: "emission list"
  rn_groups :: "string \<rightharpoonup> runGroup"
  rn_runGroups :: "(run_id \<times> string) list"
  rn_calls :: "(run_id \<times> run_params) list"
  rn_forwards :: "(run_id \<times> script_id \<times> string \<times> nat) list"

definition NewRunnerService :: "'d manager \<Rightarrow> 'd runner" where
  "NewRunnerService mgr = \<lparr>rn_mgr = mgr, rn_app = False, rn_emits = [], rn_groups = Map.empty,
     rn_runGroups = [], rn_calls = [], rn_forwards = []\<rparr>"

definition RunnerService_SetApp :: "'d runner \<Rightarrow> 'd runner" where
  "RunnerService_SetApp s = s\<lparr>rn_app := True\<rparr>"

definition rn_report :: "'d outside \<Rightarrow> Event \<Rightarrow> 'd runner \<Rightarrow> 'd runner" where
  "rn_report out ev s = s\<lparr>rn_mgr := report out ev (rn_mgr s)\<rparr>"

definition rn_emit :: "string \<Rightarrow> payload \<Rightarrow> 'd runner \<Rightarrow> 'd runner" where
  "rn_emit ev p s = (if rn_app s then s\<lparr>rn_emits := rn_emits s @ [(ev, p)]\<rparr> else s)"

text \<open>The errors this file reports: a one-shot toast with the error as its message.\<close>

definition service_error :: "string \<Rightarrow> goerror \<Rightarrow> run_id \<Rightarrow> script_id \<Rightarrow> Event" where
  "service_error title err runID scriptID =
     script_event SeverityError PersistenceOneShot title (error_text err) (Some err) runID scriptID"

subsection \<open>Single runs\<close>

text \<open>What one start draws and meets: the answer of \<open>proc.Start\<close>, the uuid, the time.\<close>

type_synonym spawn = "goerror option \<times> run_id \<times> time"

definition manager_StartRun ::
    "'d outside \<Rightarrow> (run_params \<Rightarrow> string) \<Rightarrow> spawn \<Rightarrow> script_id \<Rightarrow> run_params \<Rightarrow> 'd runner \<Rightarrow>
       ((goerror + run_id \<times> nat) \<times> 'd runner) go" where
  "manager_StartRun out json sp scriptID params s =
     (case sp of (startErr, runID, startedAt) \<Rightarrow>
        go_bind (StartRun out json startErr runID startedAt scriptID params (rn_mgr s)) (\<lambda>(res, m).
          Ret (res, case res of
                 Inl e \<Rightarrow> s\<lparr>rn_mgr := m\<rparr>
               | Inr (r, a) \<Rightarrow> s\<lparr>rn_mgr := m, rn_calls := rn_calls s @ [(r, params)]\<rparr>)))"

definition go_forward :: "run_id \<Rightarrow> script_id \<Rightarrow> string \<Rightarrow> nat \<Rightarrow> 'd runner \<Rightarrow> 'd runner" where
  "go_forward runID scriptID groupID a s = s\<lparr>rn_forwards := rn_forwards s @ [(runID, scriptID, groupID, a)]\<rparr>"

definition RunnerService_StartRun ::
    "'d outside \<Rightarrow> (run_params \<Rightarrow> string) \<Rightarrow> spawn \<Rightarrow> registry \<Rightarrow> script_id \<Rightarrow> run_params \<Rightarrow> 'd runner \<Rightarrow>
       ((goerror + run_id) \<times> 'd runner) go" where
  "RunnerService_StartRun out json sp reg scriptID params s =
     (case Registry_Get scriptID reg of
        None \<Rightarrow>
          (let err = Errorf (''script not found: '' @ scriptID) None
           in Ret (Inl err, rn_report out (service_error ''Run not started'' err [] scriptID) s))
      | Some script \<Rightarrow>
          go_bind (manager_StartRun out json sp scriptID params s) (\<lambda>(res, s1).
            case res of
              Inl e \<Rightarrow>
                (let wrapped = Errorf (''starting run for '' @ scriptID @ '': '' @ error_text e) (Some e)
                 in Ret (Inl wrapped, rn_report out (service_error ''Run not started'' wrapped [] scriptID) s1))
            | Inr (runID, a) \<Rightarrow> Ret (Inr runID, go_forward runID scriptID [] a s1)))"

definition RunnerService_CancelRun :: "'d outside \<Rightarrow> run_id \<Rightarrow> 'd runner \<Rightarrow> goerror option \<times> 'd runner" where
  "RunnerService_CancelRun out runID s =
     (case CancelRun out runID (rn_mgr s) of (err, m) \<Rightarrow> (err, s\<lparr>rn_mgr := m\<rparr>))"

subsection \<open>Groups\<close>

definition registerGroup :: "string \<Rightarrow> script_id \<Rightarrow> run_id list \<Rightarrow> 'd runner \<Rightarrow> 'd runner" where
  "registerGroup groupID scriptID runIDs s =
     s\<lparr>rn_groups := (rn_groups s)(groupID \<mapsto> \<lparr>gr_GroupID = groupID, gr_ScriptID = scriptID, gr_RunIDs = runIDs\<rparr>),
       rn_runGroups := fold (\<lambda>i. put_first (\<lambda>(r, _). r = i) (i, groupID)) runIDs (rn_runGroups s)\<rparr>"

definition clearRunFromGroup :: "run_id \<Rightarrow> 'd runner \<Rightarrow> 'd runner" where
  "clearRunFromGroup runID s =
     (case map_of (rn_runGroups s) runID of
        None \<Rightarrow> s
      | Some groupID \<Rightarrow>
          (let left = filter (\<lambda>(r, _). r \<noteq> runID) (rn_runGroups s);
               s1 = s\<lparr>rn_runGroups := left\<rparr>
           in if groupID \<in> set (map snd left) then s1
              else s1\<lparr>rn_groups := (rn_groups s)(groupID := None)\<rparr>))"

text \<open>The cancels of \<open>CancelGroup\<close>, with the errors that are not \<open>ErrRunNotActive\<close>.\<close>

fun cancel_members ::
    "'d outside \<Rightarrow> (nat \<Rightarrow> 'd runner \<Rightarrow> 'd runner) \<Rightarrow> nat \<Rightarrow> script_id \<Rightarrow> run_id list \<Rightarrow> goerror list \<Rightarrow> 'd runner \<Rightarrow>
       goerror list \<times> 'd runner" where
  "cancel_members out intf n scriptID [] errs s = (errs, s)"
| "cancel_members out intf n scriptID (i # is) errs s =
     (case RunnerService_CancelRun out i (intf n s) of
        (None, s1) \<Rightarrow> cancel_members out intf (Suc n) scriptID is errs s1
      | (Some e, s1) \<Rightarrow>
          if error_is e ErrRunNotActive then cancel_members out intf (Suc n) scriptID is errs s1
          else
            (let wrapped = Errorf (''cancel '' @ i @ '': '' @ error_text e) (Some e)
             in cancel_members out intf (Suc n) scriptID is (errs @ [wrapped])
                  (rn_report out (service_error ''Cancel all: worker did not cancel'' wrapped i scriptID) s1)))"

text \<open>\<open>errors.Join\<close> of no error is nil.\<close>

definition errors_Join :: "goerror list \<Rightarrow> goerror option" where
  "errors_Join es = (if es = [] then None else Some (ErrJoin es))"

definition CancelGroup ::
    "'d outside \<Rightarrow> (nat \<Rightarrow> 'd runner \<Rightarrow> 'd runner) \<Rightarrow> string \<Rightarrow> 'd runner \<Rightarrow> goerror option \<times> 'd runner" where
  "CancelGroup out intf groupID s =
     (case rn_groups s groupID of
        None \<Rightarrow>
          (let err = Errorf (''group not found: '' @ groupID) None
           in (Some err, rn_report out (service_error ''Cancel all failed'' err [] []) s))
      | Some g \<Rightarrow>
          (case cancel_members out intf 0 (gr_ScriptID g) (gr_RunIDs g) [] s of
             (errs, s1) \<Rightarrow> (errors_Join errs, s1)))"

subsection \<open>Parallel runs\<close>

definition nameForIndex :: "ParallelConfig \<Rightarrow> nat \<Rightarrow> string" where
  "nameForIndex pc idx =
     (if idx < length (pc_Names pc) then pc_Names pc ! idx else ''Worker-'' @ dec_nat (idx + 1))"

definition put_param :: "string \<Rightarrow> string \<Rightarrow> run_params \<Rightarrow> run_params" where
  "put_param k v ps = put_first (\<lambda>(k', _). k' = k) (k, v) ps"

definition worker_params :: "ParallelConfig \<Rightarrow> run_params \<Rightarrow> nat \<Rightarrow> run_params" where
  "worker_params pc params i =
     (let wp = put_param (pc_VaryParam pc) (nameForIndex pc i) params
      in if pc_ChainParam pc \<noteq> [] then
           put_param (pc_ChainParam pc) (if i > 0 then nameForIndex pc (i - 1) else []) wp
         else wp)"

definition worker_count :: "ParallelConfig \<Rightarrow> int \<Rightarrow> nat" where
  "worker_count pc workerCount =
     (let w = (if workerCount < 1 then 1 else workerCount)
      in nat (if w > pc_MaxWorkers pc then pc_MaxWorkers pc else w))"

text \<open>The rollback of the workers already started; the calls to the manager are numbered from \<open>n\<close>.\<close>

fun rollback ::
    "'d outside \<Rightarrow> (nat \<Rightarrow> 'd runner \<Rightarrow> 'd runner) \<Rightarrow> nat \<Rightarrow> script_id \<Rightarrow> run_id list \<Rightarrow> goerror list \<Rightarrow> 'd runner \<Rightarrow>
       goerror list \<times> 'd runner" where
  "rollback out intf n scriptID [] cleanup s = (cleanup, s)"
| "rollback out intf n scriptID (i # is) cleanup s =
     (case RunnerService_CancelRun out i (intf n s) of
        (None, s1) \<Rightarrow> rollback out intf (Suc n) scriptID is cleanup s1
      | (Some e, s1) \<Rightarrow>
          (let rollbackErr = Errorf (''rollback '' @ i @ '': '' @ error_text e) (Some e)
           in rollback out intf (Suc n) scriptID is (cleanup @ [rollbackErr])
                (rn_report out (service_error ''Parallel rollback incomplete'' rollbackErr i scriptID) s1)))"

text \<open>The loop that starts the workers: \<open>k\<close> are left, \<open>i\<close> is the loop variable.\<close>

fun start_workers ::
    "'d outside \<Rightarrow> (run_params \<Rightarrow> string) \<Rightarrow> (nat \<Rightarrow> 'd runner \<Rightarrow> 'd runner) \<Rightarrow> (nat \<Rightarrow> spawn) \<Rightarrow>
       script_id \<Rightarrow> string \<Rightarrow> ParallelConfig \<Rightarrow> run_params \<Rightarrow> nat \<Rightarrow> nat \<Rightarrow> run_id list \<Rightarrow> 'd runner \<Rightarrow>
       ((goerror + run_id list) \<times> 'd runner) go" where
  "start_workers out json intf sps scriptID groupID pc params 0 i runIDs s = Ret (Inr runIDs, s)"
| "start_workers out json intf sps scriptID groupID pc params (Suc k) i runIDs s =
     go_bind (manager_StartRun out json (sps i) scriptID (worker_params pc params i) (intf i s)) (\<lambda>(res, s1).
       case res of
         Inl e \<Rightarrow>
           (let primary = Errorf (''starting worker '' @ dec_nat i @ '' for '' @ scriptID @ '': '' @ error_text e) (Some e);
                s2 = rn_report out (service_error ''Parallel run failed'' primary [] scriptID) s1
            in case rollback out intf (Suc i) scriptID runIDs [] s2 of
                 (cleanup, s3) \<Rightarrow> Ret (Inl (ErrJoin (primary # cleanup)), s3))
       | Inr (runID, a) \<Rightarrow>
           start_workers out json intf sps scriptID groupID pc params k (Suc i) (runIDs @ [runID])
             (go_forward runID scriptID groupID a s1))"

definition StartParallelRuns ::
    "'d outside \<Rightarrow> (run_params \<Rightarrow> string) \<Rightarrow> (nat \<Rightarrow> 'd runner \<Rightarrow> 'd runner) \<Rightarrow> (nat \<Rightarrow> spawn) \<Rightarrow> string \<Rightarrow>
       registry \<Rightarrow> script_id \<Rightarrow> run_params \<Rightarrow> int \<Rightarrow> 'd runner \<Rightarrow>
       ((goerror + string \<times> run_id list) \<times> 'd runner) go" where
  "StartParallelRuns out json intf sps groupID reg scriptID params workerCount s =
     (case Registry_Get scriptID reg of
        None \<Rightarrow>
          (let err = Errorf (''script not found: '' @ scriptID) None
           in Ret (Inl err, rn_report out (service_error ''Parallel run not started'' err [] scriptID) s))
      | Some script \<Rightarrow>
     (case sc_Parallel script of
        None \<Rightarrow>
          (let err = Errorf (''script '' @ scriptID @ '' does not support parallel execution'') None
           in Ret (Inl err, rn_report out (service_error ''Parallel run not started'' err [] scriptID) s))
      | Some pc \<Rightarrow>
          go_bind (start_workers out json intf sps scriptID groupID pc params (worker_count pc workerCount) 0 [] s)
            (\<lambda>(res, s1). case res of
               Inl e \<Rightarrow> Ret (Inl e, s1)
             | Inr runIDs \<Rightarrow> Ret (Inr (groupID, runIDs), registerGroup groupID scriptID runIDs s1))))"

subsection \<open>Forwarding\<close>

definition severityFromProto :: "int \<Rightarrow> Severity" where
  "severityFromProto p =
     (if p = 1 then SeverityInfo else if p = 2 then SeverityWarn else if p = 4 then SeverityCritical
      else SeverityError)"

definition no_message_text :: string where
  "no_message_text = ''Script reported failed status without an error message '' @
     [CHR 0xE2, CHR 0x80, CHR 0x94] @ '' see Logs for details.''"

definition run_ids_payload :: "run_id \<Rightarrow> script_id \<Rightarrow> string \<Rightarrow> payload" where
  "run_ids_payload runID scriptID groupID =
     [(''runID'', JStr runID), (''scriptID'', JStr scriptID), (''groupID'', JStr groupID)]"

definition python_event :: "Severity \<Rightarrow> Persistence \<Rightarrow> string \<Rightarrow> string \<Rightarrow> run_id \<Rightarrow> script_id \<Rightarrow> Event" where
  "python_event sev pers msg tb runID scriptID =
     Event0\<lparr>ev_Severity := sev, ev_Persistence := pers, ev_Source := SourcePython, ev_Message := msg,
       ev_RunID := runID, ev_ScriptID := scriptID, ev_Traceback := tb\<rparr>"

definition run_failed_event :: "string \<times> string \<Rightarrow> run_id \<Rightarrow> script_id \<Rightarrow> Event" where
  "run_failed_event lastErr runID scriptID =
     Event0\<lparr>ev_Severity := SeverityError, ev_Persistence := PersistenceOneShot, ev_Source := SourceBackend,
       ev_Title := ''Run failed'',
       ev_Message := (if fst lastErr = [] then no_message_text else fst lastErr),
       ev_Traceback := snd lastErr, ev_RunID := runID, ev_ScriptID := scriptID\<rparr>"

text \<open>
  One turn of \<open>forwardMessages\<close>; \<open>lastErr\<close> are the locals \<open>lastErrMessage\<close> and
  \<open>lastErrTraceback\<close>.
\<close>

fun forward_one ::
    "'d outside \<Rightarrow> run_id \<Rightarrow> script_id \<Rightarrow> string \<Rightarrow> Message \<Rightarrow> (string \<times> string) \<times> 'd runner \<Rightarrow>
       (string \<times> string) \<times> 'd runner" where
  "forward_one out runID scriptID groupID (OutputMsg txt) (lastErr, s) =
     (lastErr, rn_report out (python_event SeverityInfo PersistenceOneShot txt [] runID scriptID)
        (rn_emit ''run:output'' (run_ids_payload runID scriptID groupID @ [(''text'', JStr txt)]) s))"
| "forward_one out runID scriptID groupID (ProgressMsg current tot label) (lastErr, s) =
     (lastErr, rn_emit ''run:progress'' (run_ids_payload runID scriptID groupID @
        [(''current'', JInt current), (''total'', JInt tot), (''label'', JStr label)]) s)"
| "forward_one out runID scriptID groupID (StatusMsg state) (lastErr, s) =
     (let s1 = rn_emit ''run:status'' (run_ids_payload runID scriptID groupID @ [(''state'', JStr state)]) s;
          s2 = (if state = StatusFailed then rn_report out (run_failed_event lastErr runID scriptID) s1 else s1)
      in (lastErr, if IsTerminal state then clearRunFromGroup runID s2 else s2))"
| "forward_one out runID scriptID groupID (ErrorMsg msg tb sev) (lastErr, s) =
     ((msg, tb),
      rn_report out
        (if WasCancelled runID (rn_mgr s)
         then python_event SeverityInfo PersistenceOneShot msg tb runID scriptID
         else python_event (severityFromProto sev) PersistenceInFlight msg tb runID scriptID) s)"

definition forwardMessages ::
    "'d outside \<Rightarrow> run_id \<Rightarrow> script_id \<Rightarrow> string \<Rightarrow> Message list \<Rightarrow> 'd runner \<Rightarrow> 'd runner" where
  "forwardMessages out runID scriptID groupID msgs s =
     snd (fold (forward_one out runID scriptID groupID) msgs (([], []), s))"

subsection \<open>What forwarding does\<close>

abbreviation rn_log :: "'d runner \<Rightarrow> SlogRecord list" where
  "rn_log s \<equiv> log_view (sv_rsv (rn_mgr s))"

abbreviation group_maps :: "'d runner \<Rightarrow> (string \<rightharpoonup> runGroup) \<times> (run_id \<times> string) list" where
  "group_maps s \<equiv> (rn_groups s, rn_runGroups s)"

lemma rn_report_fields [simp]:
  "rn_app (rn_report out ev s) = rn_app s" "rn_emits (rn_report out ev s) = rn_emits s"
  "rn_groups (rn_report out ev s) = rn_groups s" "rn_runGroups (rn_report out ev s) = rn_runGroups s"
  "rn_calls (rn_report out ev s) = rn_calls s" "rn_forwards (rn_report out ev s) = rn_forwards s"
  "mg_activeRuns (rn_mgr (rn_report out ev s)) = mg_activeRuns (rn_mgr s)"
  "rn_log (rn_report out ev s) = rn_log s @ [event_view ev]"
  by (simp_all add: rn_report_def report_def rsv.seen_report)

lemma rn_emit_fields [simp]:
  "rn_app (rn_emit ev p s) = rn_app s" "rn_mgr (rn_emit ev p s) = rn_mgr s"
  "rn_groups (rn_emit ev p s) = rn_groups s" "rn_runGroups (rn_emit ev p s) = rn_runGroups s"
  "rn_calls (rn_emit ev p s) = rn_calls s" "rn_forwards (rn_emit ev p s) = rn_forwards s"
  "rn_emits (rn_emit ev p s) = rn_emits s @ (if rn_app s then [(ev, p)] else [])"
  by (simp_all add: rn_emit_def)

lemma clear_fields [simp]:
  "rn_app (clearRunFromGroup r s) = rn_app s" "rn_mgr (clearRunFromGroup r s) = rn_mgr s"
  "rn_emits (clearRunFromGroup r s) = rn_emits s" "rn_calls (clearRunFromGroup r s) = rn_calls s"
  "rn_forwards (clearRunFromGroup r s) = rn_forwards s"
  by (simp_all add: clearRunFromGroup_def Let_def split: option.split)

text \<open>\<open>clearRunFromGroup\<close> reads and writes the two maps only.\<close>

lemma clear_cong:
  "group_maps s = group_maps t \<Longrightarrow> group_maps (clearRunFromGroup r s) = group_maps (clearRunFromGroup r t)"
  by (simp add: clearRunFromGroup_def Let_def split: option.split)

lemma map_of_filter_out: "map_of (filter (\<lambda>(k', _). k' \<noteq> k) xs) k = None"
  by (induction xs) auto

lemma clear_clear [simp]: "clearRunFromGroup r (clearRunFromGroup r s) = clearRunFromGroup r s"
proof (cases "map_of (rn_runGroups s) r")
  case (Some g)
  then have "map_of (rn_runGroups (clearRunFromGroup r s)) r = None"
    by (simp add: clearRunFromGroup_def Let_def map_of_filter_out)
  then show ?thesis by (simp add: clearRunFromGroup_def [of r "clearRunFromGroup r s"])
qed (simp add: clearRunFromGroup_def)

fun emitted :: "run_id \<Rightarrow> script_id \<Rightarrow> string \<Rightarrow> Message \<Rightarrow> emission list" where
  "emitted r sid g (OutputMsg txt) = [(''run:output'', run_ids_payload r sid g @ [(''text'', JStr txt)])]"
| "emitted r sid g (ProgressMsg c t l) =
     [(''run:progress'', run_ids_payload r sid g @ [(''current'', JInt c), (''total'', JInt t), (''label'', JStr l)])]"
| "emitted r sid g (StatusMsg st) = [(''run:status'', run_ids_payload r sid g @ [(''state'', JStr st)])]"
| "emitted r sid g (ErrorMsg m t v) = []"

fun errors_in :: "Message \<Rightarrow> (string \<times> string) list" where
  "errors_in (ErrorMsg m t v) = [(m, t)]"
| "errors_in (OutputMsg txt) = []"
| "errors_in (ProgressMsg c t l) = []"
| "errors_in (StatusMsg st) = []"

definition last_error_in :: "Message list \<Rightarrow> string \<times> string" where
  "last_error_in ms = last (([], []) # concat (map errors_in ms))"

fun announced :: "bool \<Rightarrow> run_id \<Rightarrow> script_id \<Rightarrow> string \<times> string \<Rightarrow> Message \<Rightarrow> Event list" where
  "announced c r sid le (OutputMsg txt) = [python_event SeverityInfo PersistenceOneShot txt [] r sid]"
| "announced c r sid le (ProgressMsg i t l) = []"
| "announced c r sid le (StatusMsg st) = (if st = StatusFailed then [run_failed_event le r sid] else [])"
| "announced c r sid le (ErrorMsg m t v) =
     [if c then python_event SeverityInfo PersistenceOneShot m t r sid
      else python_event (severityFromProto v) PersistenceInFlight m t r sid]"

definition announcements :: "bool \<Rightarrow> run_id \<Rightarrow> script_id \<Rightarrow> Message list \<Rightarrow> Event list" where
  "announcements c r sid ms =
     concat (map (\<lambda>i. announced c r sid (last_error_in (take i ms)) (ms ! i)) [0..<length ms])"

definition over :: "Message list \<Rightarrow> bool" where
  "over ms \<longleftrightarrow> (\<exists>m \<in> set ms. case m of StatusMsg st \<Rightarrow> IsTerminal st | _ \<Rightarrow> False)"

lemma last_error_in_snoc: "last_error_in (ms @ [m]) = last (last_error_in ms # errors_in m)"
  by (cases m) (simp_all add: last_error_in_def)

lemma announcements_snoc:
  "announcements c r sid (ms @ [m]) = announcements c r sid ms @ announced c r sid (last_error_in ms) m"
proof -
  have "map (\<lambda>i. announced c r sid (last_error_in (take i (ms @ [m]))) ((ms @ [m]) ! i)) [0..<length ms] =
      map (\<lambda>i. announced c r sid (last_error_in (take i ms)) (ms ! i)) [0..<length ms]"
    by (rule map_cong) (simp_all add: nth_append)
  moreover have "[0..<length (ms @ [m])] = [0..<length ms] @ [length ms]" by simp
  moreover have "concat (map (\<lambda>i. announced c r sid (last_error_in (take i (ms @ [m]))) ((ms @ [m]) ! i)) [length ms]) =
      announced c r sid (last_error_in ms) m" by simp
  ultimately show ?thesis unfolding announcements_def by (simp only: map_append concat_append)
qed

lemma over_snoc: "over (ms @ [m]) \<longleftrightarrow> over ms \<or> (case m of StatusMsg st \<Rightarrow> IsTerminal st | _ \<Rightarrow> False)"
  by (auto simp: over_def)

text \<open>One turn, in terms of the messages before it.\<close>

lemma forward_one_effect:
  assumes "forward_one out r sid g m (le, s) = (le', s')"
  shows "le' = last (le # errors_in m) \<and> rn_app s' = rn_app s \<and>
    rn_emits s' = rn_emits s @ (if rn_app s then emitted r sid g m else []) \<and>
    rn_log s' = rn_log s @ map event_view (announced (WasCancelled r (rn_mgr s)) r sid le m) \<and>
    mg_activeRuns (rn_mgr s') = mg_activeRuns (rn_mgr s) \<and>
    group_maps s' = group_maps (if over [m] then clearRunFromGroup r s else s)"
proof (cases m)
  case (StatusMsg st)
  let ?s1 = "rn_emit ''run:status'' (run_ids_payload r sid g @ [(''state'', JStr st)]) s"
  let ?s2 = "if st = StatusFailed then rn_report out (run_failed_event le r sid) ?s1 else ?s1"
  have "group_maps ?s2 = group_maps s" by simp
  from clear_cong [OF this] StatusMsg assms show ?thesis by (auto simp: over_def Let_def)
qed (use assms in \<open>auto simp: over_def\<close>)

lemma forward_fold:
  assumes "fold (forward_one out r sid g) ms (([], []), s) = (le, s')"
  shows "le = last_error_in ms \<and> rn_app s' = rn_app s \<and>
    rn_emits s' = rn_emits s @ (if rn_app s then concat (map (emitted r sid g) ms) else []) \<and>
    rn_log s' = rn_log s @ map event_view (announcements (WasCancelled r (rn_mgr s)) r sid ms) \<and>
    mg_activeRuns (rn_mgr s') = mg_activeRuns (rn_mgr s) \<and>
    group_maps s' = group_maps (if over ms then clearRunFromGroup r s else s)"
  using assms
proof (induction ms arbitrary: le s' rule: rev_induct)
  case Nil
  then show ?case by (simp add: last_error_in_def announcements_def over_def)
next
  case (snoc m ms)
  obtain le1 s1 where 1: "fold (forward_one out r sid g) ms (([], []), s) = (le1, s1)" by (metis prod.exhaust)
  with snoc.prems have "forward_one out r sid g m (le1, s1) = (le, s')" by simp
  note step = forward_one_effect [OF this] and IH = snoc.IH [OF 1]
  have c: "WasCancelled r (rn_mgr s1) = WasCancelled r (rn_mgr s)" using IH by (simp add: WasCancelled_def)
  have "group_maps s' = group_maps (if over (ms @ [m]) then clearRunFromGroup r s else s)"
  proof (cases "over [m]")
    case False
    with step IH show ?thesis by (auto simp: over_snoc over_def)
  next
    case True
    have "group_maps s1 = group_maps (if over ms then clearRunFromGroup r s else s)" using IH by blast
    from clear_cong [OF this, of r] have "group_maps (clearRunFromGroup r s1) = group_maps (clearRunFromGroup r s)"
      by (cases "over ms") simp_all
    with True step show ?thesis by (simp add: over_snoc) (simp add: over_def)
  qed
  with step IH c show ?case by (simp add: last_error_in_snoc announcements_snoc)
qed

subsection \<open>The groups\<close>

lemma put_first_new:
  "k \<notin> fst ` set xs \<Longrightarrow> put_first (\<lambda>(k', _). k' = k) (k, v) xs = xs @ [(k, v)]"
  by (rule put_first_none) force

lemma registerGroup_runGroups:
  assumes "distinct ids" "set ids \<inter> fst ` set (rn_runGroups s) = {}"
  shows "rn_runGroups (registerGroup g sid ids s) = rn_runGroups s @ map (\<lambda>i. (i, g)) ids"
proof -
  have "fold (\<lambda>i. put_first (\<lambda>(r, _). r = i) (i, g)) ids xs = xs @ map (\<lambda>i. (i, g)) ids"
    if "distinct ids" "set ids \<inter> fst ` set xs = {}" for xs :: "(run_id \<times> string) list"
    using that
  proof (induction ids arbitrary: xs)
    case (Cons i ids)
    then have "put_first (\<lambda>(r, _). r = i) (i, g) xs = xs @ [(i, g)]" by (intro put_first_new) simp
    moreover have "set ids \<inter> fst ` set (xs @ [(i, g)]) = {}" using Cons.prems by auto
    ultimately show ?case using Cons.IH [of "xs @ [(i, g)]"] Cons.prems(1) by simp
  qed simp
  from this [OF assms] show ?thesis by (simp add: registerGroup_def)
qed

text \<open>The state of a group of which the runs in \<open>ids\<close> have not ended.\<close>

definition group_left :: "string \<Rightarrow> runGroup \<Rightarrow> run_id list \<Rightarrow> 'd runner \<Rightarrow> 'd runner \<Rightarrow> bool" where
  "group_left g grp ids s t \<longleftrightarrow>
     rn_runGroups t = rn_runGroups s @ map (\<lambda>i. (i, g)) ids \<and>
     rn_groups t = (if ids = [] then rn_groups s else (rn_groups s)(g \<mapsto> grp))"

lemma remove1_filter: "distinct ids \<Longrightarrow> remove1 i ids = filter (\<lambda>j. j \<noteq> i) ids"
  by (induction ids) (auto intro!: filter_True [symmetric])

lemma group_left_clear:
  assumes left: "group_left g grp ids s t" and i: "i \<in> set ids" and dist: "distinct ids"
    and new: "i \<notin> fst ` set (rn_runGroups s)" "g \<notin> snd ` set (rn_runGroups s)" "rn_groups s g = None"
  shows "group_left g grp (remove1 i ids) s (clearRunFromGroup i t)"
proof -
  have rg: "rn_runGroups t = rn_runGroups s @ map (\<lambda>i. (i, g)) ids"
    and gs: "rn_groups t = (rn_groups s)(g \<mapsto> grp)"
    using left i by (auto simp: group_left_def)
  have "map_of (rn_runGroups s) i = None" using new(1) by (simp add: map_of_eq_None_iff)
  then have lookup: "map_of (rn_runGroups t) i = Some g"
    using i by (simp add: rg map_add_def map_of_map_restrict)
  have old: "filter (\<lambda>(r, _). r \<noteq> i) (rn_runGroups s) = rn_runGroups s"
    using new(1) by (force simp: filter_id_conv)
  have "filter (\<lambda>(r, _). r \<noteq> i) (map (\<lambda>i. (i, g)) ids) = map (\<lambda>i. (i, g)) (remove1 i ids)"
    by (simp add: filter_map comp_def remove1_filter [OF dist])
  with old have left': "filter (\<lambda>(r, _). r \<noteq> i) (rn_runGroups t) = rn_runGroups s @ map (\<lambda>i. (i, g)) (remove1 i ids)"
    by (simp add: rg)
  have mem: "g \<in> set (map snd (rn_runGroups s @ map (\<lambda>i. (i, g)) (remove1 i ids))) \<longleftrightarrow> remove1 i ids \<noteq> []"
    using new(2) by (cases "remove1 i ids") auto
  have del: "(rn_groups s)(g := None) = rn_groups s" using new(3) by (simp add: fun_upd_idem)
  show ?thesis
    unfolding group_left_def clearRunFromGroup_def lookup option.case Let_def left' mem
    by (simp add: gs del)
qed

lemma group_left_clears:
  assumes "group_left g grp ids s t" "distinct ids" "distinct order" "set order \<subseteq> set ids"
    and "set ids \<inter> fst ` set (rn_runGroups s) = {}" "g \<notin> snd ` set (rn_runGroups s)" "rn_groups s g = None"
  shows "group_left g grp (filter (\<lambda>i. i \<notin> set order) ids) s (fold clearRunFromGroup order t)"
  using assms(1-5)
proof (induction order arbitrary: t ids)
  case (Cons i order)
  have rem: "remove1 i ids = filter (\<lambda>j. j \<noteq> i) ids"
    using Cons.prems(2) by (rule remove1_filter)
  have "group_left g grp (remove1 i ids) s (clearRunFromGroup i t)"
    using Cons.prems assms(6,7) by (intro group_left_clear) auto
  from Cons.IH [OF this] Cons.prems
  have "group_left g grp (filter (\<lambda>j. j \<notin> set order) (remove1 i ids)) s (fold clearRunFromGroup order (clearRunFromGroup i t))"
    by (auto simp: rem)
  moreover have "filter (\<lambda>j. j \<notin> set order) (remove1 i ids) = filter (\<lambda>j. j \<notin> set (i # order)) ids"
    by (simp add: rem)
  ultimately show ?case by simp
qed simp

subsection \<open>Starting and rolling back\<close>

text \<open>A run that needs no cancelling: it is over, or its cancel was requested.\<close>

definition settled :: "run_id \<Rightarrow> 'd runner \<Rightarrow> bool" where
  "settled r s \<longleftrightarrow>
     (case mg_activeRuns (rn_mgr s) r of None \<Rightarrow> True | Some st \<Rightarrow> rs_cancelRequested st)"

text \<open>
  What the other goroutines may do while a batch of group \<open>g\<close> is started: anything but take
  back starts or forwarders, register the group, or revive a run that is over or cancelled.
\<close>

definition bystanders :: "string \<Rightarrow> (nat \<Rightarrow> 'd runner \<Rightarrow> 'd runner) \<Rightarrow> bool" where
  "bystanders g intf \<longleftrightarrow>
     (\<forall>n s. set (rn_calls s) \<subseteq> set (rn_calls (intf n s)) \<and> set (rn_forwards s) \<subseteq> set (rn_forwards (intf n s)) \<and>
        (rn_groups s g = None \<longrightarrow> rn_groups (intf n s) g = None) \<and> (\<forall>r. settled r s \<longrightarrow> settled r (intf n s)))"

lemma bystandersD:
  assumes "bystanders g intf"
  shows "x \<in> set (rn_calls s) \<Longrightarrow> x \<in> set (rn_calls (intf n s))"
    and "y \<in> set (rn_forwards s) \<Longrightarrow> y \<in> set (rn_forwards (intf n s))"
    and "rn_groups s g = None \<Longrightarrow> rn_groups (intf n s) g = None"
    and "settled r s \<Longrightarrow> settled r (intf n s)"
  using assms unfolding bystanders_def by blast+

lemma settled_report [simp]: "settled r (rn_report out ev s) = settled r s"
  by (simp add: settled_def)

lemma cancel_settles:
  "settled r (snd (RunnerService_CancelRun out r s))"
  "settled q s \<Longrightarrow> settled q (snd (RunnerService_CancelRun out r s))"
  using CancelRun_active(1) [of out r "rn_mgr s"]
  by (auto simp: settled_def RunnerService_CancelRun_def split: prod.split option.splits if_splits)

lemma cancel_fields [simp]:
  "rn_groups (snd (RunnerService_CancelRun out r s)) = rn_groups s"
  "rn_calls (snd (RunnerService_CancelRun out r s)) = rn_calls s"
  by (simp_all add: RunnerService_CancelRun_def split: prod.split)

lemma rollback_settles:
  assumes "bystanders g intf" "rollback out intf n sid ids cl s = (cl', s')"
  shows "(\<forall>r \<in> set ids. settled r s') \<and> (\<forall>r. settled r s \<longrightarrow> settled r s') \<and>
     (rn_groups s g = None \<longrightarrow> rn_groups s' g = None)"
  using assms(2)
proof (induction ids arbitrary: n cl s)
  case (Cons i ids)
  obtain err s1 where c: "RunnerService_CancelRun out i (intf n s) = (err, s1)" by (metis prod.exhaust)
  define s2 where "s2 = (case err of None \<Rightarrow> s1 | Some e \<Rightarrow> rn_report out (service_error ''Parallel rollback incomplete''
      (Errorf (''rollback '' @ i @ '': '' @ error_text e) (Some e)) i sid) s1)"
  have s2: "settled q s2 = settled q s1" "rn_groups s2 = rn_groups s1" for q
    by (simp_all add: s2_def split: option.split)
  have i: "settled i s2" "\<And>q. settled q s \<Longrightarrow> settled q s2" "rn_groups s g = None \<Longrightarrow> rn_groups s2 g = None"
    using cancel_settles [where r = i and s = "intf n s" and out = out] bystandersD(3,4) [OF assms(1)]
      cancel_fields(1) [of out i "intf n s"]
    unfolding c s2 by auto
  from Cons.prems obtain cl1 where "rollback out intf (Suc n) sid ids cl1 s2 = (cl', s')"
    by (cases err) (auto simp: c s2_def Let_def)
  from Cons.IH [OF this] i show ?case by auto
qed simp

text \<open>The manager refuses a cancel only for a run that is not active.\<close>

lemma cancel_error: "fst (RunnerService_CancelRun out r s) = Some e \<Longrightarrow> e = ErrRunNotActive"
  using CancelRun_result [of out r "rn_mgr s"]
  by (simp add: RunnerService_CancelRun_def split: prod.splits if_splits)

lemma rollback_errors:
  assumes "rollback out intf n sid ids cl s = (cl', s')" "\<forall>e \<in> set cl. error_is e ErrRunNotActive"
  shows "\<forall>e \<in> set cl'. error_is e ErrRunNotActive"
  using assms
proof (induction ids arbitrary: n cl s)
  case (Cons i ids)
  obtain err s1 where c: "RunnerService_CancelRun out i (intf n s) = (err, s1)" by (metis prod.exhaust)
  show ?case
  proof (cases err)
    case None
    with Cons.prems c show ?thesis by (intro Cons.IH) (simp_all add: c)
  next
    case (Some e)
    with cancel_error [of out i "intf n s" e] c have "e = ErrRunNotActive" by simp
    then have "error_is (Errorf (''rollback '' @ i @ '': '' @ error_text e) (Some e)) ErrRunNotActive" by simp
    then have "\<forall>e' \<in> set (cl @ [Errorf (''rollback '' @ i @ '': '' @ error_text e) (Some e)]). error_is e' ErrRunNotActive"
      using Cons.prems(2) by simp
    moreover have "rollback out intf (Suc n) sid ids (cl @ [Errorf (''rollback '' @ i @ '': '' @ error_text e) (Some e)])
        (rn_report out (service_error ''Parallel rollback incomplete''
          (Errorf (''rollback '' @ i @ '': '' @ error_text e) (Some e)) i sid) s1) = (cl', s')"
      using Cons.prems(1) Some c by (simp add: Let_def)
    ultimately show ?thesis using Cons.IH by blast
  qed
qed simp

lemma cancel_members_settles:
  assumes "bystanders g intf" "cancel_members out intf n sid ids errs s = (errs', s')"
  shows "errs' = errs \<and> (\<forall>r \<in> set ids. settled r s') \<and> (\<forall>r. settled r s \<longrightarrow> settled r s')"
  using assms(2)
proof (induction ids arbitrary: n s)
  case (Cons i ids)
  obtain err s1 where c: "RunnerService_CancelRun out i (intf n s) = (err, s1)" by (metis prod.exhaust)
  have err: "err = None \<or> err = Some ErrRunNotActive"
    using cancel_error [of out i "intf n s"] c by (cases err) simp_all
  with Cons.prems c have "cancel_members out intf (Suc n) sid ids errs s1 = (errs', s')" by auto
  from Cons.IH [OF this] have IH: "errs' = errs" "\<forall>r \<in> set ids. settled r s'" "\<And>r. settled r s1 \<Longrightarrow> settled r s'"
    by simp_all
  have "settled i s1" "\<And>q. settled q s \<Longrightarrow> settled q s1"
    using cancel_settles [where r = i and s = "intf n s" and out = out] bystandersD(4) [OF assms(1)] c by auto
  with IH show ?case by auto
qed simp

lemma manager_StartRun_Inr:
  assumes "manager_StartRun out json (se, r, t) sid ps s = Ret (Inr (r', a), s')"
  shows "se = None \<and> r' = r \<and> rn_calls s' = rn_calls s @ [(r, ps)] \<and> rn_forwards s' = rn_forwards s \<and>
    rn_groups s' = rn_groups s"
proof -
  from assms obtain m where st: "StartRun out json se r t sid ps (rn_mgr s) = Ret (Inr (r', a), m)"
    and s': "s' = s\<lparr>rn_mgr := m, rn_calls := rn_calls s @ [(r', ps)]\<rparr>"
    by (auto simp: manager_StartRun_def go_bind_eq_Ret)
  have "se = None \<and> r' = r"
  proof (cases se)
    case None
    then show ?thesis using st StartRun_started [of out json r t sid ps "rn_mgr s"] by auto
  next
    case (Some e)
    with st show ?thesis by (auto simp: StartRun_def go_bind_eq_Ret split: prod.splits)
  qed
  with s' show ?thesis by simp
qed

lemma manager_StartRun_Inl:
  assumes "manager_StartRun out json (se, r, t) sid ps s = Ret (Inl e, s')"
  shows "se \<noteq> None \<and> rn_groups s' = rn_groups s"
proof -
  from assms obtain m where st: "StartRun out json se r t sid ps (rn_mgr s) = Ret (Inl e, m)"
    and s': "s' = s\<lparr>rn_mgr := m\<rparr>"
    by (auto simp: manager_StartRun_def go_bind_eq_Ret)
  have "se \<noteq> None"
  proof
    assume "se = None"
    with st StartRun_started [of out json r t sid ps "rn_mgr s"] show False by auto
  qed
  with s' show ?thesis by simp
qed

abbreviation spawn_id :: "(nat \<Rightarrow> spawn) \<Rightarrow> nat \<Rightarrow> run_id" where
  "spawn_id sps i \<equiv> fst (snd (sps i))"

text \<open>The \<open>i\<close>-th worker was started, with its parameters, and is forwarded for the group.\<close>

definition worker_up ::
    "(nat \<Rightarrow> spawn) \<Rightarrow> script_id \<Rightarrow> string \<Rightarrow> ParallelConfig \<Rightarrow> run_params \<Rightarrow> 'd runner \<Rightarrow> nat \<Rightarrow> bool" where
  "worker_up sps sid g pc params s i \<longleftrightarrow>
     (spawn_id sps i, worker_params pc params i) \<in> set (rn_calls s) \<and>
     (\<exists>a. (spawn_id sps i, sid, g, a) \<in> set (rn_forwards s))"

lemma worker_up_intf: "bystanders g intf \<Longrightarrow> worker_up sps sid g pc ps s i \<Longrightarrow> worker_up sps sid g pc ps (intf n s) i"
  unfolding worker_up_def using bystandersD(1,2) by blast

lemma start_workers_Ret:
  assumes "bystanders g intf" "start_workers out json intf sps sid g pc ps k i ids s = Ret (res, s')"
    and "ids = map (spawn_id sps) [0..<i]" "\<forall>j < i. worker_up sps sid g pc ps s j \<and> fst (sps j) = None"
    and "rn_groups s g = None"
  shows "rn_groups s' g = None \<and>
    (case res of
       Inr ids' \<Rightarrow> ids' = map (spawn_id sps) [0..<i + k] \<and>
         (\<forall>j < i + k. worker_up sps sid g pc ps s' j \<and> fst (sps j) = None)
     | Inl e \<Rightarrow> (\<exists>primary cleanup. e = ErrJoin (primary # cleanup) \<and> (\<forall>c \<in> set cleanup. error_is c ErrRunNotActive)) \<and>
         (\<exists>j. i \<le> j \<and> j < i + k \<and> fst (sps j) \<noteq> None \<and>
            (\<forall>l < j. fst (sps l) = None \<and> settled (spawn_id sps l) s')))"
  using assms(2-5)
proof (induction k arbitrary: i ids s)
  case (Suc k)
  obtain se r t where sp: "sps i = (se, r, t)" by (metis prod.exhaust)
  obtain res1 s1 where st: "manager_StartRun out json (sps i) sid (worker_params pc ps i) (intf i s) = Ret (res1, s1)"
    and rest: "(case res1 of
         Inl e \<Rightarrow>
           (let primary = Errorf (''starting worker '' @ dec_nat i @ '' for '' @ sid @ '': '' @ error_text e) (Some e);
                s2 = rn_report out (service_error ''Parallel run failed'' primary [] sid) s1
            in case rollback out intf (Suc i) sid ids [] s2 of
                 (cleanup, s3) \<Rightarrow> Ret (Inl (ErrJoin (primary # cleanup)), s3))
       | Inr (runID, a) \<Rightarrow>
           start_workers out json intf sps sid g pc ps k (Suc i) (ids @ [runID])
             (go_forward runID sid g a s1)) = Ret (res, s')"
    using Suc.prems(1) by (auto simp: go_bind_eq_Ret)
  have none: "rn_groups (intf i s) g = None" using bystandersD(3) [OF assms(1)] Suc.prems(4) .
  show ?case
  proof (cases res1)
    case (Inl e)
    from manager_StartRun_Inl [OF st [unfolded Inl sp]] none
    have se: "se \<noteq> None" and g1: "rn_groups s1 g = None" by simp_all
    obtain cl s3 where rb: "rollback out intf (Suc i) sid ids [] (rn_report out (service_error ''Parallel run failed''
        (Errorf (''starting worker '' @ dec_nat i @ '' for '' @ sid @ '': '' @ error_text e) (Some e)) [] sid) s1) = (cl, s3)"
      by (metis prod.exhaust)
    with rest Inl have res: "s' = s3" and e: "\<exists>primary. res = Inl (ErrJoin (primary # cl))" by (auto simp: Let_def)
    have cl: "\<forall>c \<in> set cl. error_is c ErrRunNotActive" using rollback_errors [OF rb] by simp
    from rollback_settles [OF assms(1) rb] g1 have "\<forall>r \<in> set ids. settled r s3" "rn_groups s3 g = None" by simp_all
    moreover from this(1) se sp Suc.prems(2,3) res
    have "\<exists>j. i \<le> j \<and> j < i + Suc k \<and> fst (sps j) \<noteq> None \<and>
            (\<forall>l < j. fst (sps l) = None \<and> settled (spawn_id sps l) s')"
      by (intro exI [of _ i]) simp
    moreover from e obtain primary where "res = Inl (ErrJoin (primary # cl))" by blast
    ultimately show ?thesis using cl res by simp
  next
    case (Inr ra)
    obtain r' a where ra: "ra = (r', a)" by (metis prod.exhaust)
    note up = manager_StartRun_Inr [OF st [unfolded Inr ra sp]]
    let ?s = "go_forward r' sid g a s1"
    have "worker_up sps sid g pc ps ?s j \<and> fst (sps j) = None" if "j < Suc i" for j
    proof (cases "j = i")
      case True
      with up sp show ?thesis by (auto simp: worker_up_def go_forward_def)
    next
      case False
      with that Suc.prems(3) worker_up_intf [OF assms(1)] have "worker_up sps sid g pc ps (intf i s) j" "fst (sps j) = None"
        by simp_all
      with up show ?thesis by (auto simp: worker_up_def go_forward_def)
    qed
    moreover have "ids @ [r'] = map (spawn_id sps) [0..<Suc i]" using Suc.prems(2) up sp by simp
    moreover have "rn_groups ?s g = None" using up none by (simp add: go_forward_def)
    moreover have "start_workers out json intf sps sid g pc ps k (Suc i) (ids @ [r']) ?s = Ret (res, s')"
      using rest Inr ra by simp
    ultimately have IH: "rn_groups s' g = None \<and>
      (case res of
         Inr ids' \<Rightarrow> ids' = map (spawn_id sps) [0..<Suc i + k] \<and>
           (\<forall>j < Suc i + k. worker_up sps sid g pc ps s' j \<and> fst (sps j) = None)
       | Inl e \<Rightarrow> (\<exists>primary cleanup. e = ErrJoin (primary # cleanup) \<and> (\<forall>c \<in> set cleanup. error_is c ErrRunNotActive)) \<and>
           (\<exists>j. Suc i \<le> j \<and> j < Suc i + k \<and> fst (sps j) \<noteq> None \<and>
            (\<forall>l < j. fst (sps l) = None \<and> settled (spawn_id sps l) s')))"
      using Suc.IH by blast
    show ?thesis
    proof (cases res)
      case (Inl e)
      from IH Inl obtain j where j: "Suc i \<le> j" "j < Suc i + k" "fst (sps j) \<noteq> None"
          "\<forall>l < j. fst (sps l) = None \<and> settled (spawn_id sps l) s'" by auto
      have "\<exists>j. i \<le> j \<and> j < i + Suc k \<and> fst (sps j) \<noteq> None \<and>
            (\<forall>l < j. fst (sps l) = None \<and> settled (spawn_id sps l) s')"
        by (rule exI [of _ j]) (use j in simp)
      with IH Inl show ?thesis by simp
    next
      case (Inr ids')
      with IH show ?thesis by simp
    qed
  qed
qed auto

subsection \<open>Names and parameters of the workers\<close>

lemma map_of_put_first: "map_of (put_first (\<lambda>(k', _). k' = k) (k, v) ps) = (map_of ps)(k \<mapsto> v)"
  by (induction ps) (auto simp: fun_eq_iff)

lemma map_of_put_param [simp]: "map_of (put_param k v ps) = (map_of ps)(k \<mapsto> v)"
  unfolding put_param_def by (rule map_of_put_first)

lemma dec_nat_inj: "dec_nat m = dec_nat n \<Longrightarrow> m = n"
proof (induction m arbitrary: n rule: dec_nat.induct)
  case (1 m)
  have len: "dec_nat k \<noteq> []" for k by (subst dec_nat.simps) simp
  have two: "k \<ge> 10 \<Longrightarrow> length (dec_nat k) \<ge> 2" for k
    using len [of "k div 10"] by (subst dec_nat.simps) (cases "dec_nat (k div 10)"; simp)
  show ?case
  proof (cases "m < 10")
    case True
    then have m: "dec_nat m = [digit_char m]" by (subst dec_nat.simps) simp
    have "length (dec_nat n) = 1" unfolding "1.prems" [symmetric] m by simp
    with two [of n] have "n < 10" by (cases "n < 10") auto
    then have "dec_nat n = [digit_char n]" by (subst dec_nat.simps) simp
    with m "1.prems" True \<open>n < 10\<close> show ?thesis by (auto dest: digit_char_inj)
  next
    case False
    then have m: "dec_nat m = dec_nat (m div 10) @ [digit_char (m mod 10)]" by (subst dec_nat.simps) simp
    have "\<not> n < 10"
    proof
      assume "n < 10"
      then have "length (dec_nat n) = 1" by (subst dec_nat.simps) simp
      with "1.prems" two [of m] False show False by simp
    qed
    then have n: "dec_nat n = dec_nat (n div 10) @ [digit_char (n mod 10)]" by (subst dec_nat.simps) simp
    from "1.prems" m n have "dec_nat (m div 10) = dec_nat (n div 10)" "digit_char (m mod 10) = digit_char (n mod 10)"
      by simp_all
    with "1.IH" [OF False, of "n div 10"] have "m div 10 = n div 10" "m mod 10 = n mod 10"
      using digit_char_inj [of "m mod 10" "n mod 10"] by simp_all
    then show ?thesis by (metis div_mult_mod_eq)
  qed
qed

lemma nameForIndex_inj:
  assumes "distinct (pc_Names pc)" "\<forall>n. ''Worker-'' @ dec_nat n \<notin> set (pc_Names pc)"
    and "nameForIndex pc i = nameForIndex pc j"
  shows "i = j"
proof -
  let ?ns = "pc_Names pc"
  have worker: "''Worker-'' @ dec_nat (k + 1) \<noteq> ?ns ! l" if "l < length ?ns" for k l
    using assms(2) that by (metis nth_mem)
  show ?thesis
  proof (cases "i < length ?ns"; cases "j < length ?ns")
    assume "i < length ?ns" "j < length ?ns"
    then show ?thesis using assms(1,3) by (simp add: nameForIndex_def nth_eq_iff_index_eq)
  next
    assume "\<not> i < length ?ns" "\<not> j < length ?ns"
    then show ?thesis using assms(3) dec_nat_inj [of "i + 1" "j + 1"] by (simp add: nameForIndex_def)
  next
    assume "i < length ?ns" "\<not> j < length ?ns"
    then show ?thesis using assms(3) worker [of i j] by (simp add: nameForIndex_def)
  next
    assume "\<not> i < length ?ns" "j < length ?ns"
    then show ?thesis using assms(3) worker [of j i] by (simp add: nameForIndex_def)
  qed
qed

lemma worker_count_eq: "worker_count pc w = nat (min (max 1 w) (pc_MaxWorkers pc))"
  by (simp add: worker_count_def Let_def min_def max_def)

subsection \<open>A concrete batch\<close>

definition test_pc :: ParallelConfig where
  "test_pc = \<lparr>pc_DefaultWorkers = 2, pc_MaxWorkers = 3, pc_VaryParam = ''name'', pc_ChainParam = ''prev'',
     pc_Names = [''a'']\<rparr>"

definition test_catalog :: registry where
  "test_catalog = (New newReservoir)\<lparr>rg_scripts := [''s'' \<mapsto> Script0\<lparr>sc_ID := ''s'', sc_Parallel := Some test_pc\<rparr>]\<rparr>"

definition test_runner :: "unit runner" where
  "test_runner = NewRunnerService test_manager"

definition test_spawns :: "nat option \<Rightarrow> nat \<Rightarrow> spawn" where
  "test_spawns bad i = (if bad = Some i then Some (Errorf ''no python'' None) else None, ''r'' @ dec_nat (i + 1), 5)"

abbreviation alone :: "nat \<Rightarrow> 'd runner \<Rightarrow> 'd runner" where
  "alone \<equiv> \<lambda>_ s. s"

lemma bystanders_alone: "bystanders g alone"
  by (simp add: bystanders_def)

lemma dec_small: "dec_nat (Suc 0) = ''1''" "dec_nat (Suc (Suc 0)) = ''2''" "dec_nat 2 = ''2''"
  by code_simp+

lemma test_catalog_script:
  "Registry_Get ''s'' test_catalog = Some (Script0\<lparr>sc_ID := ''s'', sc_Parallel := Some test_pc\<rparr>)"
  "sc_Parallel (Script0\<lparr>sc_ID := ''s'', sc_Parallel := Some test_pc\<rparr>) = Some test_pc"
  by (simp_all add: Registry_Get_def test_catalog_def)

lemma start_workers_all_start:
  "\<forall>i. fst (sps i) = None \<Longrightarrow>
     \<exists>ids' s'. start_workers out json intf sps sid g pc ps k i ids s = Ret (Inr ids', s')"
proof (induction k arbitrary: i ids s)
  case (Suc k)
  obtain r t where sp: "sps i = (None, r, t)" using Suc.prems by (metis prod.collapse)
  obtain a m where "StartRun out json None r t sid (worker_params pc ps i) (rn_mgr (intf i s)) = Ret (Inr (r, a), m)"
    using StartRun_started by blast
  then show ?case using Suc.IH [OF Suc.prems] by (simp add: sp manager_StartRun_def)
qed simp

lemma test_start:
  "\<exists>ids s'. StartParallelRuns test_out (\<lambda>_. ''{}'') alone (test_spawns None) ''g'' test_catalog ''s'' [] 2 test_runner =
     Ret (Inr (''g'', ids), s')"
proof -
  have "\<forall>i. fst (test_spawns None i) = None" by (simp add: test_spawns_def)
  from start_workers_all_start [OF this] obtain ids s' where
    "start_workers test_out (\<lambda>_. ''{}'') alone (test_spawns None) ''s'' ''g'' test_pc [] (worker_count test_pc 2) 0 [] test_runner = Ret (Inr ids, s')"
    by blast
  then show ?thesis by (simp add: StartParallelRuns_def test_catalog_script)
qed

lemma test_start_fails:
  "\<exists>e s'. StartParallelRuns test_out (\<lambda>_. ''{}'') alone (test_spawns (Some 1)) ''g'' test_catalog ''s'' [] 2 test_runner =
     Ret (Inl e, s')"
proof -
  have "StartRun test_out (\<lambda>_. ''{}'') None ''r1'' 5 ''s'' ps test_manager =
      StartRun test_out (\<lambda>_. ''{}'') None ''r1'' 5 ''s'' [] test_manager" for ps
    by (simp add: StartRun_def)
  then have first: "StartRun test_out (\<lambda>_. ''{}'') None ''r1'' 5 ''s'' ps test_manager = Ret (Inr (''r1'', 0), started_manager)" for ps
    by (simp add: started_manager_start)
  obtain e m where second: "StartRun test_out (\<lambda>_. ''{}'') (Some (Errorf ''no python'' None)) ''r2'' 5 ''s''
      (worker_params test_pc [] (Suc 0)) started_manager = Ret (Inl e, m)"
    using StartRun_failed [OF started_manager_inv] by blast
  have "worker_count test_pc 2 = Suc (Suc 0)" by (simp add: worker_count_def test_pc_def)
  then show ?thesis
    by (simp add: StartParallelRuns_def test_catalog_script test_runner_def NewRunnerService_def manager_StartRun_def
        test_spawns_def dec_small first second go_forward_def Let_def split: prod.split)
qed

subsection \<open>Properties\<close>

text \<open>What a forwarder makes of the messages of a run, in order. Every output, progress and
  status message becomes one Wails event, once an app is wired; every output and error is
  reported, an error of a cancelled run only as information; every failed status is reported
  with the message and traceback of the last error before it, or with a fixed text if there was
  none; and once a terminal status went by, the run has left its group.\<close>

theorem forward_transcript:
  "let s' = forwardMessages out r sid g ms s in
     rn_emits s' = rn_emits s @ (if rn_app s then concat (map (emitted r sid g) ms) else []) \<and>
     rn_log s' = rn_log s @ map event_view (announcements (WasCancelled r (rn_mgr s)) r sid ms) \<and>
     group_maps s' = group_maps (if over ms then clearRunFromGroup r s else s)"
proof -
  obtain le s' where "fold (forward_one out r sid g) ms (([], []), s) = (le, s')" by (metis prod.exhaust)
  with forward_fold [OF this] show ?thesis by (simp add: forwardMessages_def Let_def)
qed

text \<open>C14: a parallel start that succeeds started exactly as many workers as asked for, at least one
  and at most the script's maximum, in order; each got the parameters computed for its index
  and a forwarder for the group, and the group is registered with all of them. This holds
  whatever the other goroutines do meanwhile.\<close>

theorem parallel_start_wires_workers:
  assumes "bystanders g intf" "rn_groups s g = None"
    and "Registry_Get sid reg = Some script" "sc_Parallel script = Some pc"
    and "StartParallelRuns out json intf sps g reg sid params w s = Ret (Inr (g', ids), s')"
  shows "g' = g \<and> length ids = nat (min (max 1 w) (pc_MaxWorkers pc)) \<and>
     ids = map (spawn_id sps) [0..<length ids] \<and>
     (\<forall>i < length ids. worker_up sps sid g pc params s' i) \<and>
     rn_groups s' g = Some \<lparr>gr_GroupID = g, gr_ScriptID = sid, gr_RunIDs = ids\<rparr>"
proof -
  obtain res s1 where st: "start_workers out json intf sps sid g pc params (worker_count pc w) 0 [] s = Ret (res, s1)"
    and rest: "(case res of Inl e \<Rightarrow> Ret (Inl e, s1) | Inr runIDs \<Rightarrow> Ret (Inr (g, runIDs), registerGroup g sid runIDs s1))
       = Ret (Inr (g', ids), s')"
    using assms(3-5) by (auto simp: StartParallelRuns_def go_bind_eq_Ret)
  then have "res = Inr ids" "g' = g" and s': "s' = registerGroup g sid ids s1" by (cases res; simp)+
  with start_workers_Ret [OF assms(1) st] assms(2)
  have "ids = map (spawn_id sps) [0..<worker_count pc w]" "\<forall>i < worker_count pc w. worker_up sps sid g pc params s1 i"
    by simp_all
  with \<open>g' = g\<close> s' show ?thesis by (simp add: worker_count_eq registerGroup_def worker_up_def)
qed

lemma parallel_start_wires_workers_witness:
  "\<exists>ids s'. StartParallelRuns test_out (\<lambda>_. ''{}'') alone (test_spawns None) ''g'' test_catalog ''s'' [] 2 test_runner =
     Ret (Inr (''g'', ids), s') \<and> ids = [''r1'', ''r2''] \<and>
     rn_groups s' ''g'' = Some \<lparr>gr_GroupID = ''g'', gr_ScriptID = ''s'', gr_RunIDs = [''r1'', ''r2'']\<rparr>"
proof -
  obtain ids s' where st: "StartParallelRuns test_out (\<lambda>_. ''{}'') alone (test_spawns None) ''g'' test_catalog ''s'' [] 2 test_runner =
     Ret (Inr (''g'', ids), s')" using test_start by blast
  have "rn_groups test_runner ''g'' = None" by (simp add: test_runner_def NewRunnerService_def)
  note res = parallel_start_wires_workers [OF bystanders_alone this test_catalog_script st]
  have "length ids = 2" using res by (simp add: test_pc_def)
  with res have "ids = [''r1'', ''r2'']" by (simp add: test_spawns_def upt_rec dec_small)
  with st res show ?thesis by blast
qed

text \<open>C15: a parallel start that fails part way leaves no worker running unattended: the failing
  worker is one whose process did not start, every worker started before it is over or was
  asked to cancel, and no group is registered. The error joins the first failure with the
  rollback's, and those are all \<open>ErrRunNotActive\<close>: a rollback is reported as incomplete only
  for a worker that had already ended.\<close>

theorem failed_parallel_start_settles:
  assumes "bystanders g intf" "rn_groups s g = None"
    and "Registry_Get sid reg = Some script" "sc_Parallel script = Some pc"
    and "StartParallelRuns out json intf sps g reg sid params w s = Ret (Inl e, s')"
  shows "rn_groups s' g = None \<and>
     (\<exists>k < nat (min (max 1 w) (pc_MaxWorkers pc)). fst (sps k) \<noteq> None \<and>
        (\<forall>i < k. fst (sps i) = None \<and> settled (spawn_id sps i) s')) \<and>
     (\<exists>primary cleanup. e = ErrJoin (primary # cleanup) \<and> (\<forall>c \<in> set cleanup. error_is c ErrRunNotActive))"
proof -
  obtain res s1 where st: "start_workers out json intf sps sid g pc params (worker_count pc w) 0 [] s = Ret (res, s1)"
    and rest: "(case res of Inl e \<Rightarrow> Ret (Inl e, s1) | Inr runIDs \<Rightarrow> Ret (Inr (g, runIDs), registerGroup g sid runIDs s1))
       = Ret (Inl e, s')"
    using assms(3-5) by (auto simp: StartParallelRuns_def go_bind_eq_Ret)
  then have "res = Inl e" "s' = s1" by (cases res; simp)+
  with start_workers_Ret [OF assms(1) st] assms(2) show ?thesis by (simp add: worker_count_eq)
qed

lemma failed_parallel_start_settles_witness:
  "\<exists>e s'. StartParallelRuns test_out (\<lambda>_. ''{}'') alone (test_spawns (Some 1)) ''g'' test_catalog ''s'' [] 2 test_runner =
     Ret (Inl e, s') \<and> settled ''r1'' s' \<and> rn_groups s' ''g'' = None"
proof -
  obtain e s' where st: "StartParallelRuns test_out (\<lambda>_. ''{}'') alone (test_spawns (Some 1)) ''g'' test_catalog ''s'' [] 2 test_runner =
     Ret (Inl e, s')" using test_start_fails by blast
  have "rn_groups test_runner ''g'' = None" by (simp add: test_runner_def NewRunnerService_def)
  note res = failed_parallel_start_settles [OF bystanders_alone this test_catalog_script st]
  then obtain k where k: "fst (test_spawns (Some 1) k) \<noteq> None"
      "\<forall>i < k. fst (test_spawns (Some 1) i) = None \<and> settled (spawn_id (test_spawns (Some 1)) i) s'" by blast
  then have "k = 1" by (simp add: test_spawns_def split: if_splits)
  with k(2) have "settled (spawn_id (test_spawns (Some 1)) 0) s'" by blast
  moreover have "spawn_id (test_spawns (Some 1)) 0 = ''r1''" by (simp add: test_spawns_def dec_small)
  ultimately show ?thesis using st res by auto
qed

text \<open>With a chain parameter other than the varied one, worker 0 reads from nobody and worker
  \<open>i + 1\<close> from the name worker \<open>i\<close> was given; every other parameter is the caller's. The names
  are distinct when the configured ones are and none of them looks like a generated one.\<close>

theorem workers_form_a_chain:
  assumes "pc_ChainParam pc \<noteq> []" "pc_ChainParam pc \<noteq> pc_VaryParam pc"
    and "distinct (pc_Names pc)" "\<forall>n. ''Worker-'' @ dec_nat n \<notin> set (pc_Names pc)"
  shows "map_of (worker_params pc params 0) (pc_ChainParam pc) = Some [] \<and>
     (\<forall>i. map_of (worker_params pc params (Suc i)) (pc_ChainParam pc) =
          map_of (worker_params pc params i) (pc_VaryParam pc)) \<and>
     (\<forall>i k. k \<noteq> pc_ChainParam pc \<and> k \<noteq> pc_VaryParam pc \<longrightarrow>
          map_of (worker_params pc params i) k = map_of params k) \<and>
     inj (\<lambda>i. map_of (worker_params pc params i) (pc_VaryParam pc))"
  using assms(1,2) nameForIndex_inj [OF assms(3,4)]
  by (auto simp: worker_params_def Let_def inj_def)

lemma workers_form_a_chain_witness:
  "map_of (worker_params test_pc [] 1) ''prev'' = map_of (worker_params test_pc [] 0) ''name''"
proof -
  have "pc_ChainParam test_pc \<noteq> []" "pc_ChainParam test_pc \<noteq> pc_VaryParam test_pc" "distinct (pc_Names test_pc)"
    "\<forall>n. ''Worker-'' @ dec_nat n \<notin> set (pc_Names test_pc)"
    by (simp_all add: test_pc_def)
  from workers_form_a_chain [OF this, of "[]"]
  have "map_of (worker_params test_pc [] (Suc 0)) (pc_ChainParam test_pc) = map_of (worker_params test_pc [] 0) (pc_VaryParam test_pc)"
    by blast
  then show ?thesis by (simp add: test_pc_def)
qed

text \<open>Registering a group and clearing each of its runs once, in any order, restores both maps;
  until the last run is cleared the group can be looked up with all its runs.\<close>

theorem group_round_trip:
  assumes "distinct ids" "ids \<noteq> []" "mset order = mset ids"
    and "set ids \<inter> fst ` set (rn_runGroups s) = {}" "g \<notin> snd ` set (rn_runGroups s)" "rn_groups s g = None"
  shows "group_maps (fold clearRunFromGroup order (registerGroup g sid ids s)) = group_maps s \<and>
     (\<forall>k < length ids. rn_groups (fold clearRunFromGroup (take k order) (registerGroup g sid ids s)) g =
        Some \<lparr>gr_GroupID = g, gr_ScriptID = sid, gr_RunIDs = ids\<rparr>)"
proof -
  let ?grp = "\<lparr>gr_GroupID = g, gr_ScriptID = sid, gr_RunIDs = ids\<rparr>"
  have order: "set order = set ids" "distinct order" "length order = length ids"
    using assms(3) mset_eq_setD mset_eq_imp_distinct_iff assms(1) mset_eq_length by metis+
  have left: "group_left g ?grp ids s (registerGroup g sid ids s)"
    using registerGroup_runGroups [OF assms(1,4)] assms(2) by (simp add: group_left_def registerGroup_def)
  have gone: "group_left g ?grp (filter (\<lambda>i. i \<notin> set xs) ids) s (fold clearRunFromGroup xs (registerGroup g sid ids s))"
    if "distinct xs" "set xs \<subseteq> set ids" for xs
    by (rule group_left_clears [OF left assms(1) that assms(4-6)])
  have all: "filter (\<lambda>i. i \<notin> set order) ids = []" using order(1) by (simp add: filter_empty_conv)
  have "group_maps (fold clearRunFromGroup order (registerGroup g sid ids s)) = group_maps s"
    using gone [of order] order unfolding all by (simp add: group_left_def)
  moreover have "rn_groups (fold clearRunFromGroup (take k order) (registerGroup g sid ids s)) g = Some ?grp"
    if k: "k < length ids" for k
  proof -
    have "order ! k \<in> set ids" using k order by (metis nth_mem)
    moreover have "order ! k \<notin> set (take k order)"
      using order(2,3) k by (metis id_take_nth_drop not_distinct_conv_prefix distinct_append disjoint_iff list.set_intros(1))
    ultimately have "filter (\<lambda>i. i \<notin> set (take k order)) ids \<noteq> []" by (auto simp: filter_empty_conv)
    moreover have "set (take k order) \<subseteq> set ids" using order(1) set_take_subset by fastforce
    ultimately show ?thesis using gone [of "take k order"] order(2) by (simp add: group_left_def)
  qed
  ultimately show ?thesis by blast
qed

lemma group_round_trip_witness:
  "group_maps (fold clearRunFromGroup [''y'', ''x''] (registerGroup ''g'' ''s'' [''x'', ''y''] test_runner)) = group_maps test_runner"
  using group_round_trip [of "[''x'', ''y'']" "[''y'', ''x'']" test_runner "''g''" "''s''"]
  by (simp add: test_runner_def NewRunnerService_def add_mset_commute)

text \<open>A run that ends before its group is registered leaks the group: its forwarder has already
  cleared it, registering puts it back, and however many of the other runs end, the group is
  never removed.\<close>

theorem early_end_leaks_group:
  assumes "i \<in> set ids" "distinct ids" "set ids \<inter> fst ` set (rn_runGroups s) = {}" "i \<notin> set order"
  shows "rn_groups (fold clearRunFromGroup order (registerGroup g sid ids (clearRunFromGroup i s))) g \<noteq> None"
proof -
  have "map_of (rn_runGroups s) i = None" using assms(1,3) by (force simp: map_of_eq_None_iff)
  then have noop: "clearRunFromGroup i s = s" by (simp add: clearRunFromGroup_def)
  have "(i, g) \<in> set (rn_runGroups t) \<and> rn_groups t g \<noteq> None \<Longrightarrow> i \<notin> set order \<Longrightarrow>
      (i, g) \<in> set (rn_runGroups (fold clearRunFromGroup order t)) \<and> rn_groups (fold clearRunFromGroup order t) g \<noteq> None" for t
  proof (induction order arbitrary: t)
    case (Cons j order)
    have "(i, g) \<in> set (rn_runGroups (clearRunFromGroup j t)) \<and> rn_groups (clearRunFromGroup j t) g \<noteq> None"
      using Cons.prems by (force simp: clearRunFromGroup_def Let_def split: option.split)
    from Cons.IH [OF this] Cons.prems(2) show ?case by simp
  qed simp
  moreover have "(i, g) \<in> set (rn_runGroups (registerGroup g sid ids s))"
    using assms(1) by (simp add: registerGroup_runGroups [OF assms(2,3)])
  moreover have "rn_groups (registerGroup g sid ids s) g \<noteq> None" by (simp add: registerGroup_def)
  ultimately show ?thesis using assms(4) unfolding noop by blast
qed

lemma early_end_leaks_group_witness:
  "rn_groups (fold clearRunFromGroup [''y''] (registerGroup ''g'' ''s'' [''x'', ''y''] (clearRunFromGroup ''x'' test_runner))) ''g'' \<noteq> None"
  by (rule early_end_leaks_group) (simp_all add: test_runner_def NewRunnerService_def)

text \<open>Cancelling a group that is registered never returns an error, and afterwards every run of
  the group is over or was asked to cancel, whatever the other goroutines do between the
  cancels.\<close>

theorem cancel_group_settles:
  assumes "bystanders g intf" "rn_groups s g = Some grp" "CancelGroup out intf g s = (err, s')"
  shows "err = None \<and> (\<forall>r \<in> set (gr_RunIDs grp). settled r s')"
proof -
  obtain errs s1 where c: "cancel_members out intf 0 (gr_ScriptID grp) (gr_RunIDs grp) [] s = (errs, s1)" by (metis prod.exhaust)
  from cancel_members_settles [OF assms(1) c] assms(2,3) c show ?thesis
    by (simp add: CancelGroup_def errors_Join_def)
qed

lemma cancel_group_settles_witness:
  "\<exists>s'. CancelGroup test_out alone ''g'' (registerGroup ''g'' ''s'' [''r1'', ''gone''] (test_runner\<lparr>rn_mgr := started_manager\<rparr>)) = (None, s') \<and>
     settled ''r1'' s'"
proof -
  let ?s = "registerGroup ''g'' ''s'' [''r1'', ''gone''] (test_runner\<lparr>rn_mgr := started_manager\<rparr>)"
  have g: "rn_groups ?s ''g'' = Some \<lparr>gr_GroupID = ''g'', gr_ScriptID = ''s'', gr_RunIDs = [''r1'', ''gone'']\<rparr>"
    by (simp add: registerGroup_def)
  obtain err s' where c: "CancelGroup test_out alone ''g'' ?s = (err, s')" by (metis prod.exhaust)
  from cancel_group_settles [OF bystanders_alone g c] c show ?thesis by simp
qed

end
