(* ===== verification/Lifecycle.thy ===== *)
theory Lifecycle
  imports RunnerService
begin

section \<open>Lifecycle: a run from its connection to its toast\<close>

text \<open>
  The composition of server, manager and run service for one run: the client's session fills the
  run's channel (\<open>Execute\<close>), the exit of the process puts the final status behind it
  (\<open>waitForExit\<close>), and the forwarder hands all of it to the frontend (\<open>forwardMessages\<close>).
\<close>

subsection \<open>A session leaves the manager's own state alone\<close>

lemma streamSend_mg: "streamSend out a msg m = Ret (e, m') \<Longrightarrow> mg_same m m'"
  by (auto simp: streamSend_def mg_same_def stream_Send_def split: option.splits)

lemma mg_same_from: "mg_same m1 m' \<Longrightarrow> mg_same m m1 \<Longrightarrow> mg_same m m'"
  by (rule mg_same_trans)

lemma handle_mg:
  assumes "handleClientMessage out r a msg m = Ret (e, m')"
  shows "mg_same m m'"
proof (cases msg)
  case (ClientMessage_Output t)
  with assms show ?thesis by (auto simp: go_bind_eq_Ret no_error_def dest: try_send_at_mg)
next
  case (ClientMessage_Progress c t l)
  with assms show ?thesis by (auto simp: go_bind_eq_Ret no_error_def dest: try_send_at_mg)
next
  case (ClientMessage_Status st)
  with assms show ?thesis by (auto simp: no_error_def mg_same_def split: if_splits)
next
  case (ClientMessage_Error t tb sev)
  with assms show ?thesis
    by (auto simp: go_bind_eq_Ret no_error_def mg_same_def dest!: try_send_at_mg)
next
  case (ClientMessage_CacheCreate k sz n)
  with assms show ?thesis
    by (auto simp: handleCacheCreate_def Let_def mg_same_def dest!: streamSend_mg split: prod.splits bool.splits)
next
  case (ClientMessage_CacheLookup k)
  with assms show ?thesis
    by (auto simp: handleCacheLookup_def mg_same_def dest!: streamSend_mg split: prod.splits)
next
  case (ClientMessage_CacheRelease k)
  with assms show ?thesis
    by (auto simp: handleCacheRelease_def no_error_def mg_same_def split: prod.splits if_splits)
next
  case (ClientMessage_FileDialog k t f d n)
  with assms show ?thesis
    by (auto simp: handleFileDialog_def ask_dialog_def Let_def mg_same_def dest!: streamSend_mg
        split: prod.splits if_splits option.splits)
next
  case (ClientMessage_DbExecute sql ps)
  with assms show ?thesis
    by (auto simp: handleDbExecute_def mg_same_def dest!: streamSend_mg split: prod.splits sum.splits option.splits)
next
  case (ClientMessage_DbQuery sql ps)
  with assms show ?thesis
    by (auto simp: handleDbQuery_def mg_same_def dest!: streamSend_mg split: prod.splits sum.splits option.splits)
next
  case ClientMessage_Unset
  with assms show ?thesis by (simp add: no_error_def)
qed

lemma serve_mg: "serve out r a ms ended m = Ret (res, m') \<Longrightarrow> mg_same m m'"
proof (induction ms arbitrary: m)
  case Nil
  then show ?case by (auto simp: mg_same_def)
next
  case (Cons c ms)
  then obtain e m1 where h: "handleClientMessage out r a c m = Ret (e, m1)" by (auto simp: go_bind_eq_Ret)
  note same = handle_mg [OF h]
  show ?case
  proof (cases e)
    case None
    with Cons.prems h have "serve out r a ms ended m1 = Ret (res, m')" by simp
    from mg_same_trans [OF same Cons.IH [OF this]] show ?thesis .
  next
    case (Some x)
    with Cons.prems h same show ?thesis by (auto simp: mg_same_def)
  qed
qed

lemma Execute_keeps:
  assumes "awaiting r a m" "Execute out s (Some (r # xs)) ms ended m = Ret (res, m')"
  shows "mg_same m m' \<and> server_inv m'"
proof -
  let ?m = "set_chan a (connected s (chan_at a m)) m"
  from assms(1) have w: "server_inv m" "sv_runs m r = Some a" by (simp_all add: awaiting_def)
  obtain m2 where m2: "serve out r a ms ended (client_connected out r ?m) = Ret (res, m2)"
    and done_: "stream_done a m2 = Ret m'"
    using assms(2) unfolding Execute_unfold [OF w] by (auto simp: go_bind_eq_Ret)
  have cs: "can_serve a s (client_connected out r ?m)"
    using connected_can_serve [OF assms(1)] by (simp add: client_connected_def)
  from serve_session [OF cs m2] have "can_serve a s m2" by blast
  then have inv2: "server_inv m2" "a < length (sv_chans m2)" by (simp_all add: can_serve_def)
  have m': "m' = set_chan a (chan_at a m2\<lparr>rc_streamDone := (rc_streamDone (chan_at a m2))\<lparr>ch_closed := True\<rparr>\<rparr>) m2"
    using done_ by (simp add: stream_done_Ret split: if_splits)
  have "mg_same m m2"
    using serve_mg [OF m2] by (simp add: mg_same_def client_connected_def)
  then have "mg_same m m'" by (simp add: mg_same_def m')
  moreover have "server_inv m'"
  proof -
    let ?c = "chan_at a m2\<lparr>rc_streamDone := (rc_streamDone (chan_at a m2))\<lparr>ch_closed := True\<rparr>\<rparr>"
    have "closeStreamDone (chan_at a m2) = Ret ?c"
      using done_ by (simp add: closeStreamDone_def chan_close_def stream_done_Ret split: if_splits)
    then have "rc_inv ?c" by (rule closeStreamDone_inv [OF server_invD(1) [OF inv2]])
    moreover have "rc_phase ?c = PhaseDone \<Longrightarrow> a \<notin> ran (sv_runs m2)"
      using server_invD(3) [OF inv2(1)] by (auto simp: ran_def)
    ultimately show ?thesis unfolding m' by (rule set_chan_inv [OF inv2])
  qed
  ultimately show ?thesis ..
qed

subsection \<open>What the script said, and what became of the run\<close>

definition said :: "ClientMessage list \<Rightarrow> Message list" where
  "said ms = concat (map forwarded ms)"

definition run_verdict :: "bool \<Rightarrow> int \<Rightarrow> goerror option \<Rightarrow> ClientMessage list \<Rightarrow> RunStatus" where
  "run_verdict cancelled code err ms =
     (if cancelled then StatusCancelled
      else if err = None \<and> code = 0 \<and> last_error ms = None \<and> first_status ms = Some StatusCompleted
      then StatusCompleted else StatusFailed)"

lemma said_no_status: "StatusMsg st \<notin> set (said ms)"
proof
  assume "StatusMsg st \<in> set (said ms)"
  then obtain m where "StatusMsg st \<in> set (forwarded m)" by (auto simp: said_def)
  then show False by (cases m) simp_all
qed

text \<open>The channel once the session is over and the process has exited.\<close>

lemma run_ends:
  assumes "awaiting r a m" "ch_buf (rc_Messages (chan_at a m)) = []" "rc_pythonStatus (chan_at a m) = None"
      "\<not> rc_gotError (chan_at a m)"
    and "Execute out s (Some (r # xs)) ms ended m = Ret (None, m1)"
    and "mg_activeRuns m r = Some rs" "\<not> IsTerminal (rs_Status rs)"
    and "length (said ms) < messageBufferSize" "range_order (cm_blocks (sv_cache m1)) order"
    and "st = run_verdict (rs_cancelRequested rs) code err ms"
  shows "\<exists>m2. waitForExit out order r sid t (code, stderr, err) t' elapsed m1 = Ret m2 \<and>
     ch_buf (rc_Messages (chan_at a m2)) = said ms @ [StatusMsg st] \<and> ch_closed (rc_Messages (chan_at a m2)) \<and>
     mg_history m2 = mg_history m @
       [\<lparr>rr_RunID = r, rr_ScriptID = sid, rr_Status = st, rr_StartedAt = t, rr_EndedAt = t'\<rparr>] \<and>
     mg_activeRuns m2 r = None"
proof -
  have inv1: "server_inv m1" and same: "mg_activeRuns m1 = mg_activeRuns m" "mg_history m1 = mg_history m"
    using Execute_keeps [OF assms(1,5)] by (simp_all add: mg_same_def)
  have ch: "chan_at a m1 = (fold absorb ms (connected s (chan_at a m)))\<lparr>rc_streamDone :=
       (rc_streamDone (chan_at a m))\<lparr>ch_closed := True\<rparr>\<rparr>" and runs: "sv_runs m1 = sv_runs m"
    using Execute_session [OF assms(1,5)] by auto
  have buf: "ch_buf (rc_Messages (chan_at a m1)) = said ms"
    by (simp add: ch fold_absorb_buf said_def assms(2) connected_def)
  have r1: "sv_runs m1 r = Some a" using assms(1) runs by (simp add: awaiting_def)
  have room: "room_for (chan_at a m1) 1" using assms(8) by (simp add: room_for_def buf)
  have wait: "WaitStreamDone r elapsed m1 = Ret ()" by (simp add: WaitStreamDone_def r1 Let_def ch)
  have active: "mg_activeRuns m1 r = Some rs" by (simp add: same assms(6))
  then have "WasCancelled r m1 = rs_cancelRequested rs" by (simp add: WasCancelled_def)
  then have st: "st = deriveFinalStatus r code err m1"
    using session_status [OF assms(1,5,3,4), of code err] by (simp add: assms(10) run_verdict_def)
  from waitForExit_Ret [OF inv1 r1 active assms(7) room wait assms(9) st, of out sid t stderr t'] show ?thesis
    by (auto simp: chan_ended_def buf same)
qed



end
