(* ===== verification/PyRunner.thy ===== *)
theory PyRunner
  imports Lifecycle "HOL-Library.AList"
begin

section \<open>PyRunner: the helper library the scripts are written with\<close>

text \<open>
  Models \<^verbatim>\<open>scripts/_lib/runner.py\<close>, the other end of the stream that \<open>Execute\<close> serves. The
  module's globals are the record \<open>runner\<close>; every function is a state transformer that returns
  or raises. Two threads share the globals with the script: gRPC takes messages from the
  iterator, the reader thread puts what the server sends into the response queue or sets the
  cancel event. What they do while the script is in the library is the list of events
  \<open>px_events n\<close> at the \<open>n\<close>-th such moment, so every interleaving is one choice of the parameter.
  Strings are what they are on the wire, UTF-8.
\<close>

subsection \<open>Exceptions\<close>

text \<open>
  \<open>OtherError\<close> is any other subclass of \<open>Exception\<close>, \<open>OtherBase\<close> any other \<open>BaseException\<close>.
\<close>

datatype Exn =
    KeyboardInterrupt
  | SystemExit
  | CancelledError string
  | RuntimeError string
  | KeyError string
  | OtherError string
  | OtherBase string

fun is_Exception :: "Exn \<Rightarrow> bool" where
  "is_Exception KeyboardInterrupt = False"
| "is_Exception SystemExit = False"
| "is_Exception (OtherBase t) = False"
| "is_Exception e = True"

type_synonym ('a, 's) py = "'s \<Rightarrow> (Exn + 'a) \<times> 's"

definition py_return :: "'a \<Rightarrow> ('a, 's) py" where
  "py_return x s = (Inr x, s)"

definition py_raise :: "Exn \<Rightarrow> ('a, 's) py" where
  "py_raise e s = (Inl e, s)"

definition py_bind :: "('a, 's) py \<Rightarrow> ('a \<Rightarrow> ('b, 's) py) \<Rightarrow> ('b, 's) py" where
  "py_bind f g s = (case f s of (Inl e, s') \<Rightarrow> (Inl e, s') | (Inr x, s') \<Rightarrow> g x s')"

lemma py_simps [simp]:
  "py_return x s = (Inr x, s)" "py_raise e s = (Inl e, s)"
  "py_bind (py_raise e) g = py_raise e" "py_bind (py_return x) g = g x"
  by (simp_all add: py_return_def py_raise_def py_bind_def fun_eq_iff)

lemma py_bind_Inr:
  "py_bind f g s = (Inr y, s') \<longleftrightarrow> (\<exists>x s1. f s = (Inr x, s1) \<and> g x s1 = (Inr y, s'))"
  by (auto simp: py_bind_def split: prod.splits sum.splits)

lemma py_bind_Inl:
  "py_bind f g s = (Inl e, s') \<longleftrightarrow>
     f s = (Inl e, s') \<or> (\<exists>x s1. f s = (Inr x, s1) \<and> g x s1 = (Inl e, s'))"
  by (auto simp: py_bind_def split: prod.splits sum.splits)

lemma py_bind_cases:
  assumes "py_bind f g s = (r, s')"
  obtains (raised) e where "f s = (Inl e, s')" "r = Inl e"
  | (returned) x s1 where "f s = (Inr x, s1)" "g x s1 = (r, s')"
  using assms by (auto simp: py_bind_def split: prod.splits sum.splits)

subsection \<open>The message iterator\<close>

text \<open>\<open>__next__\<close> waits (\<open>Block\<close>) for a message or the end; \<open>Ret (None, it)\<close> is \<open>StopIteration\<close>.\<close>

record msg_iter =
  it_queue :: "ClientMessage list"
  it_done :: bool

definition it_put :: "ClientMessage \<Rightarrow> msg_iter \<Rightarrow> msg_iter" where
  "it_put m it = it\<lparr>it_queue := it_queue it @ [m]\<rparr>"

definition it_close :: "msg_iter \<Rightarrow> msg_iter" where
  "it_close it = it\<lparr>it_done := True\<rparr>"

definition it_next :: "msg_iter \<Rightarrow> (ClientMessage option \<times> msg_iter) go" where
  "it_next it =
     (case it_queue it of
        m # ms \<Rightarrow> Ret (Some m, it\<lparr>it_queue := ms\<rparr>)
      | [] \<Rightarrow> if it_done it then Ret (None, it) else Block)"

subsection \<open>The module's state and its outside\<close>

datatype reader_thread = NotStarted | Reading | Exited

text \<open>
  \<open>py_sent\<close> is what gRPC has taken from the iterator, the client half of the stream, and
  \<open>py_half_closed\<close> that it has seen its end. \<open>py_refs\<close> maps a key to the name of the open block,
  in the order of a Python dict. \<open>py_shm\<close> is the operating system's table of shared memory
  blocks, by name; every process of the machine sees it. \<open>py_clock\<close> counts the moments.
\<close>

record runner =
  py_stream :: bool
  py_iter :: msg_iter
  py_sent :: "ClientMessage list"
  py_half_closed :: bool
  py_cancel :: bool
  py_finished :: bool
  py_reader :: reader_thread
  py_reader_error :: "string option"
  py_responses :: "ServerMessage option list"
  py_refs :: "(string \<times> string) list"
  py_owned :: "string set"
  py_shm :: "string \<rightharpoonup> string"
  py_clock :: nat

definition fresh_runner :: "(string \<rightharpoonup> string) \<Rightarrow> runner" where
  "fresh_runner shm = \<lparr>py_stream = False, py_iter = \<lparr>it_queue = [], it_done = False\<rparr>, py_sent = [],
     py_half_closed = False, py_cancel = False, py_finished = False, py_reader = NotStarted,
     py_reader_error = None, py_responses = [], py_refs = [], py_owned = {}, py_shm = shm, py_clock = 0\<rparr>"

datatype stream_item = Item ServerMessage | StreamEnd | StreamError string

datatype event = Take | Arrive stream_item

text \<open>
  \<open>px_first\<close> is what the first \<open>next\<close> on the stream gives; \<open>px_format_exc n\<close> the traceback text;
  \<open>px_create n size\<close> what \<open>SharedMemory(create=True)\<close> makes: a name and the zeroed room;
  \<open>px_dumps\<close> and \<open>px_loads\<close> are pickle; \<open>px_repr\<close> and \<open>px_show\<close> print a string and a message;
  \<open>px_range n\<close> is the text of protobuf's error for an integer that does not fit.
\<close>

record 'o python =
  px_environ :: "string \<rightharpoonup> string"
  px_first :: stream_item
  px_events :: "nat \<Rightarrow> event list"
  px_format_exc :: "nat \<Rightarrow> string"
  px_create :: "nat \<Rightarrow> nat \<Rightarrow> Exn + string \<times> string"
  px_dumps :: "'o \<Rightarrow> Exn + string"
  px_loads :: "string \<Rightarrow> Exn + 'o"
  px_repr :: "string \<Rightarrow> string"
  px_show :: "ServerMessage \<Rightarrow> string"
  px_range :: "int \<Rightarrow> string"

text \<open>\<open>str(e)\<close>; the one of a \<open>KeyError\<close> is the \<open>repr\<close> of its argument.\<close>

fun py_str :: "'o python \<Rightarrow> Exn \<Rightarrow> string" where
  "py_str P (CancelledError t) = t"
| "py_str P (RuntimeError t) = t"
| "py_str P (KeyError t) = px_repr P t"
| "py_str P (OtherError t) = t"
| "py_str P (OtherBase t) = t"
| "py_str P e = []"

subsection \<open>The other threads\<close>

text \<open>gRPC takes the next message; once it has seen \<open>StopIteration\<close> it does not ask again.\<close>

definition transport_take :: "runner \<Rightarrow> runner" where
  "transport_take s =
     (if py_half_closed s \<or> \<not> py_stream s then s
      else case it_next (py_iter s) of
        Ret (Some m, it) \<Rightarrow> s\<lparr>py_iter := it, py_sent := py_sent s @ [m]\<rparr>
      | Ret (None, it) \<Rightarrow> s\<lparr>py_iter := it, py_half_closed := True\<rparr>
      | _ \<Rightarrow> s)"

definition reader_step :: "stream_item \<Rightarrow> runner \<Rightarrow> runner" where
  "reader_step i s =
     (if py_reader s \<noteq> Reading then s
      else case i of
        Item m \<Rightarrow> if m = ServerMessage_Cancel then s\<lparr>py_cancel := True\<rparr>
                  else s\<lparr>py_responses := py_responses s @ [Some m]\<rparr>
      | StreamEnd \<Rightarrow> s\<lparr>py_reader := Exited, py_responses := py_responses s @ [None]\<rparr>
      | StreamError e \<Rightarrow> s\<lparr>py_reader := Exited, py_reader_error := Some e,
                          py_responses := py_responses s @ [None]\<rparr>)"

fun event_step :: "event \<Rightarrow> runner \<Rightarrow> runner" where
  "event_step Take s = transport_take s"
| "event_step (Arrive i) s = reader_step i s"

definition elapse :: "'o python \<Rightarrow> runner \<Rightarrow> runner" where
  "elapse P s = (fold event_step (px_events P (py_clock s)) s)\<lparr>py_clock := Suc (py_clock s)\<rparr>"

definition start_reader_thread :: "runner \<Rightarrow> runner" where
  "start_reader_thread s = (if py_reader s = NotStarted then s\<lparr>py_reader := Reading\<rparr> else s)"

subsection \<open>Sending and receiving\<close>

text \<open>
  The steps themselves, \<open>send_now\<close> and \<open>take_response\<close>, and the library's functions, in which time
  passes before them.
\<close>

definition send_now :: "bool \<Rightarrow> ClientMessage \<Rightarrow> (unit, runner) py" where
  "send_now force m s =
     (if py_finished s \<and> \<not> force then py_return () s
      else if \<not> force \<and> py_cancel s then py_raise (CancelledError ''Script cancelled by backend'') s
      else py_return () (s\<lparr>py_iter := it_put m (py_iter s)\<rparr>))"

definition send_msg :: "'o python \<Rightarrow> bool \<Rightarrow> ClientMessage \<Rightarrow> (unit, runner) py" where
  "send_msg P force m s = send_now force m (elapse P s)"

abbreviation em_dash :: string where
  "em_dash \<equiv> [CHR 0xE2, CHR 0x80, CHR 0x94]"

abbreviation not_connected :: Exn where
  "not_connected \<equiv> RuntimeError (''not connected '' @ em_dash @ '' call connect() first'')"

definition take_response :: "string \<Rightarrow> (ServerMessage, runner) py" where
  "take_response operation s =
     (case py_responses s of
        [] \<Rightarrow> py_raise (RuntimeError (''Timed out waiting for '' @ operation @
                '' after 30s (possible deadlock in bidirectional stream)'')) s
      | None # rest \<Rightarrow>
          py_raise (RuntimeError
            (case py_reader_error s of
               Some e \<Rightarrow> ''Server stream error while waiting for '' @ operation @ '': '' @ e
             | None \<Rightarrow> ''Server closed stream unexpectedly while waiting for '' @ operation))
            (s\<lparr>py_responses := rest\<rparr>)
      | Some m # rest \<Rightarrow> py_return m (s\<lparr>py_responses := rest\<rparr>))"

definition recv_response :: "'o python \<Rightarrow> string \<Rightarrow> (ServerMessage, runner) py" where
  "recv_response P operation s =
     (if \<not> py_stream s then py_raise not_connected s
      else take_response operation (elapse P (start_reader_thread s)))"

text \<open>\<open>_finish\<close>: the join of the reader thread is one more moment.\<close>

definition finish :: "'o python \<Rightarrow> (unit, runner) py" where
  "finish P s =
     (if py_finished s then py_return () s
      else let s = s\<lparr>py_finished := True, py_iter := it_close (py_iter s)\<rparr> in
        py_return () (if py_reader s \<noteq> NotStarted then elapse P s else s))"

text \<open>The \<open>run-id\<close> metadata of the stream.\<close>

definition metadata :: "'o python \<Rightarrow> string list" where
  "metadata P = [case px_environ P ''RUN_ID'' of Some r \<Rightarrow> r | None \<Rightarrow> ''unknown'']"

definition connect :: "'o python \<Rightarrow> ((string \<times> string) list, runner) py" where
  "connect P s0 =
     (case px_environ P ''GRPC_ADDRESS'' of
        None \<Rightarrow> py_raise (RuntimeError ''GRPC_ADDRESS environment variable not set'') s0
      | Some addr \<Rightarrow>
          if addr = [] then py_raise (RuntimeError ''GRPC_ADDRESS environment variable not set'') s0
          else let s = s0\<lparr>py_stream := True\<rparr> in
          (case px_first P of
             StreamEnd \<Rightarrow> py_raise (RuntimeError ''Lost connection while waiting for StartRequest: '') s
           | StreamError e \<Rightarrow> py_raise (RuntimeError (''Lost connection while waiting for StartRequest: '' @ e)) s
           | Item (ServerMessage_Start params) \<Rightarrow> py_return params (start_reader_thread s)
           | Item m \<Rightarrow> py_raise (RuntimeError (''Expected StartRequest, got '' @ px_show P m)) s))"

subsection \<open>Events\<close>

abbreviation (input) SEVERITY_INFO :: int where "SEVERITY_INFO \<equiv> 1"
abbreviation (input) SEVERITY_WARN :: int where "SEVERITY_WARN \<equiv> 2"
abbreviation (input) SEVERITY_ERROR :: int where "SEVERITY_ERROR \<equiv> 3"

text \<open>The integers of a protobuf message are 32 bits wide; constructing it with another raises.\<close>

definition int32 :: "int \<Rightarrow> bool" where
  "int32 n \<longleftrightarrow> - (2 ^ 31) \<le> n \<and> n < 2 ^ 31"

definition py_output :: "'o python \<Rightarrow> string \<Rightarrow> (unit, runner) py" where
  "py_output P t = send_msg P False (ClientMessage_Output t)"

definition progress :: "'o python \<Rightarrow> int \<Rightarrow> int \<Rightarrow> string \<Rightarrow> (unit, runner) py" where
  "progress P current outOf label =
     (if \<not> int32 current then py_raise (OtherError (px_range P current))
      else if \<not> int32 outOf then py_raise (OtherError (px_range P outOf))
      else send_msg P False (ClientMessage_Progress current outOf label))"

definition complete :: "'o python \<Rightarrow> (unit, runner) py" where
  "complete P = py_bind (send_msg P False (ClientMessage_Status StatusCompleted)) (\<lambda>_. finish P)"

text \<open>\<open>str.strip\<close> for the white space of ASCII.\<close>

definition py_space :: "char \<Rightarrow> bool" where
  "py_space c \<longleftrightarrow> of_char c \<in> {9, 10, 11, 12, 13, 28, 29, 30, 31, 32 :: nat}"

definition py_strip :: "string \<Rightarrow> string" where
  "py_strip t = rev (dropWhile py_space (rev (dropWhile py_space t)))"

definition traceback_of :: "'o python \<Rightarrow> string option \<Rightarrow> runner \<Rightarrow> string" where
  "traceback_of P tb s =
     (case tb of
        Some t \<Rightarrow> t
      | None \<Rightarrow> let captured = px_format_exc P (py_clock s) in
                if py_strip captured = ''NoneType: None'' then [] else captured)"

definition fail :: "'o python \<Rightarrow> string \<Rightarrow> string option \<Rightarrow> int \<Rightarrow> (unit, runner) py" where
  "fail P message tb severity s =
     (if \<not> int32 severity then py_raise (OtherError (px_range P severity)) s
      else py_bind (send_msg P True (ClientMessage_Error message (traceback_of P tb s) severity)) (\<lambda>_.
           py_bind (send_msg P True (ClientMessage_Status StatusFailed)) (\<lambda>_. finish P)) s)"

definition warn :: "'o python \<Rightarrow> string \<Rightarrow> (unit, runner) py" where
  "warn P message = send_msg P False (ClientMessage_Error message [] SEVERITY_WARN)"

definition info :: "'o python \<Rightarrow> string \<Rightarrow> (unit, runner) py" where
  "info P message = send_msg P False (ClientMessage_Error message [] SEVERITY_INFO)"

definition is_cancelled :: "'o python \<Rightarrow> (bool, runner) py" where
  "is_cancelled P s0 = (let s = elapse P s0 in py_return (py_cancel s) s)"

subsection \<open>Requests\<close>

definition expected :: "'o python \<Rightarrow> string \<Rightarrow> ServerMessage \<Rightarrow> ('a, runner) py" where
  "expected P what resp = py_raise (RuntimeError (''Expected '' @ what @ '', got '' @ px_show P resp))"

text \<open>A request and the wait for its reply, what every request does under \<open>_request_lock\<close>.\<close>

definition request :: "'o python \<Rightarrow> ClientMessage \<Rightarrow> string \<Rightarrow> (ServerMessage, runner) py" where
  "request P m operation = py_bind (send_msg P False m) (\<lambda>_. recv_response P operation)"

subsection \<open>Shared memory\<close>

definition unlink :: "string \<Rightarrow> runner \<Rightarrow> runner" where
  "unlink name s = s\<lparr>py_shm := (py_shm s)(name := None)\<rparr>"

fun CacheCreateError_Name :: "CacheCreateError \<Rightarrow> string" where
  "CacheCreateError_Name CACHE_CREATE_OK = ''CACHE_CREATE_OK''"
| "CacheCreateError_Name CACHE_CREATE_DUPLICATE_KEY = ''CACHE_CREATE_DUPLICATE_KEY''"
| "CacheCreateError_Name CACHE_CREATE_INTERNAL = ''CACHE_CREATE_INTERNAL''"

definition create_ack :: "'o python \<Rightarrow> ServerMessage \<Rightarrow> (unit, runner) py" where
  "create_ack P resp =
     (case resp of
        ServerMessage_CacheCreateResponse k code detail \<Rightarrow>
          if code \<noteq> CACHE_CREATE_OK
          then py_raise (RuntimeError (''cache_set rejected: '' @
                 (if detail = [] then CacheCreateError_Name code else detail)))
          else py_return ()
      | _ \<Rightarrow> expected P ''CacheCreateResponse response to cache_create'' resp)"

definition register_block :: "'o python \<Rightarrow> string \<Rightarrow> nat \<Rightarrow> string \<Rightarrow> (unit, runner) py" where
  "register_block P key n name =
     py_bind (request P (ClientMessage_CacheCreate key (int n) name) ''cache create'') (create_ack P)"

text \<open>The block is unlinked again unless the server has registered it.\<close>

definition cache_set :: "'o python \<Rightarrow> string \<Rightarrow> 'o \<Rightarrow> (unit, runner) py" where
  "cache_set P key obj s =
     (if \<not> py_stream s then py_raise not_connected s
      else case px_dumps P obj of
        Inl e \<Rightarrow> py_raise e s
      | Inr data \<Rightarrow>
          (case px_create P (py_clock s) (length data) of
             Inl e \<Rightarrow> py_raise e s
           | Inr (name, room) \<Rightarrow>
               (case register_block P key (length data) name
                       (s\<lparr>py_shm := (py_shm s)(name \<mapsto> data @ drop (length data) room)\<rparr>) of
                  (Inl e, s') \<Rightarrow> py_raise e (unlink name s')
                | (Inr _, s') \<Rightarrow>
                    py_return () (s'\<lparr>py_refs := AList.update key name (py_refs s'),
                      py_owned := insert key (py_owned s')\<rparr>))))"

text \<open>The slice \<open>buf[:n]\<close>.\<close>

definition py_prefix :: "int \<Rightarrow> 'a list \<Rightarrow> 'a list" where
  "py_prefix n xs = (if n \<ge> 0 then take (nat n) xs else take (nat (int (length xs) + n)) xs)"

definition block_gone :: "string \<Rightarrow> string \<Rightarrow> Exn" where
  "block_gone key name = KeyError (''Cache key '' @ [CHR 0x27] @ key @ [CHR 0x27] @
     '' found in registry but shared memory '' @ [CHR 0x27] @ name @ [CHR 0x27] @
     '' is no longer available (reclaimed by OS after owning process exited)'')"

definition open_block :: "'o python \<Rightarrow> string \<Rightarrow> string \<Rightarrow> int \<Rightarrow> ('o, runner) py" where
  "open_block P key name len s =
     (case py_shm s name of
        None \<Rightarrow> py_raise (block_gone key name) s
      | Some content \<Rightarrow>
          (case px_loads P (py_prefix len content) of
             Inl e \<Rightarrow> py_raise e s
           | Inr obj \<Rightarrow> py_return obj (s\<lparr>py_refs := AList.update key name (py_refs s)\<rparr>)))"

definition lookup_reply :: "'o python \<Rightarrow> string \<Rightarrow> ServerMessage \<Rightarrow> ('o, runner) py" where
  "lookup_reply P key resp =
     (case resp of
        ServerMessage_CacheLookupResponse k found name len \<Rightarrow>
          if \<not> found then py_raise (KeyError (''Cache key not found: '' @ key)) else open_block P key name len
      | _ \<Rightarrow> expected P ''CacheLookupResponse'' resp)"

definition cache_get :: "'o python \<Rightarrow> string \<Rightarrow> ('o, runner) py" where
  "cache_get P key s =
     (if \<not> py_stream s then py_raise not_connected s
      else py_bind (request P (ClientMessage_CacheLookup key) ''cache lookup'') (lookup_reply P key) s)"

definition cache_release :: "'o python \<Rightarrow> string \<Rightarrow> (unit, runner) py" where
  "cache_release P key s =
     send_msg P False (ClientMessage_CacheRelease key)
       (case map_of (py_refs s) key of
          None \<Rightarrow> s
        | Some name \<Rightarrow>
            let s' = s\<lparr>py_refs := AList.delete key (py_refs s)\<rparr> in
            if key \<in> py_owned s then (unlink name s')\<lparr>py_owned := py_owned s - {key}\<rparr> else s')"

text \<open>What \<open>atexit\<close> runs.\<close>

definition cleanup_cache :: "runner \<Rightarrow> runner" where
  "cleanup_cache s =
     (fold (\<lambda>(key, name) t. if key \<in> py_owned t then unlink name t else t) (py_refs s) s)
       \<lparr>py_refs := [], py_owned := {}\<rparr>"

subsection \<open>Dialogs\<close>

definition unwrap_dialog_response :: "FileDialogOutcome \<Rightarrow> (string option, runner) py" where
  "unwrap_dialog_response resp =
     (case resp of
        Outcome_Selected paths \<Rightarrow> py_return (case paths of p # _ \<Rightarrow> Some p | [] \<Rightarrow> None)
      | Outcome_Cancelled \<Rightarrow> py_return None
      | Outcome_Error e \<Rightarrow> py_raise (RuntimeError (''File dialog error: '' @ e)))"

abbreviation (input) DIALOG_KIND_OPEN :: int where "DIALOG_KIND_OPEN \<equiv> 1"

definition dialog_reply :: "'o python \<Rightarrow> ServerMessage \<Rightarrow> (string option, runner) py" where
  "dialog_reply P resp =
     (case resp of
        ServerMessage_FileDialogResponse outcome \<Rightarrow> unwrap_dialog_response outcome
      | _ \<Rightarrow> expected P ''FileDialogResponse'' resp)"

definition dialog_open :: "'o python \<Rightarrow> string \<Rightarrow> string \<Rightarrow> FileFilterDef list \<Rightarrow> (string option, runner) py" where
  "dialog_open P title directory filters s =
     (if \<not> py_stream s then py_raise not_connected s
      else py_bind (request P (ClientMessage_FileDialog DIALOG_KIND_OPEN title filters directory []) ''file dialog'')
             (dialog_reply P) s)"

definition dialog_save ::
    "'o python \<Rightarrow> string \<Rightarrow> string \<Rightarrow> string \<Rightarrow> FileFilterDef list \<Rightarrow> (string option, runner) py" where
  "dialog_save P title directory filename filters s =
     (if \<not> py_stream s then py_raise not_connected s
      else py_bind (request P (ClientMessage_FileDialog DIALOG_KIND_SAVE title filters directory filename) ''save dialog'')
             (dialog_reply P) s)"

subsection \<open>The database\<close>

definition execute_reply :: "'o python \<Rightarrow> ServerMessage \<Rightarrow> (int \<times> int, runner) py" where
  "execute_reply P resp =
     (case resp of
        ServerMessage_DbExecuteResponse affected last_id err \<Rightarrow>
          if err \<noteq> [] then py_raise (RuntimeError (''SQL error: '' @ err)) else py_return (affected, last_id)
      | _ \<Rightarrow> expected P ''DbExecuteResponse'' resp)"

definition db_execute :: "'o python \<Rightarrow> string \<Rightarrow> string list \<Rightarrow> (int \<times> int, runner) py" where
  "db_execute P sql params s =
     (if \<not> py_stream s then py_raise not_connected s
      else py_bind (request P (ClientMessage_DbExecute sql params) ''db execute'') (execute_reply P) s)"

text \<open>\<open>dict(zip(columns, values, strict=True))\<close>: of equal column names the last value stays.\<close>

definition row_dict :: "string list \<Rightarrow> string list \<Rightarrow> Exn + (string \<times> string) list" where
  "row_dict columns vals =
     (if length vals < length columns then Inl (OtherError ''zip() argument 2 is shorter than argument 1'')
      else if length columns < length vals then Inl (OtherError ''zip() argument 2 is longer than argument 1'')
      else Inr (fold (\<lambda>(c, v) d. AList.update c v d) (zip columns vals) []))"

fun row_dicts :: "string list \<Rightarrow> string list list \<Rightarrow> Exn + (string \<times> string) list list" where
  "row_dicts columns [] = Inr []"
| "row_dicts columns (vs # rows) =
     (case row_dict columns vs of
        Inl e \<Rightarrow> Inl e
      | Inr d \<Rightarrow> (case row_dicts columns rows of Inl e \<Rightarrow> Inl e | Inr ds \<Rightarrow> Inr (d # ds)))"

definition query_reply :: "'o python \<Rightarrow> ServerMessage \<Rightarrow> ((string \<times> string) list list, runner) py" where
  "query_reply P resp =
     (case resp of
        ServerMessage_DbQueryResponse columns rows err \<Rightarrow>
          if err \<noteq> [] then py_raise (RuntimeError (''SQL error: '' @ err))
          else (case row_dicts columns rows of Inl e \<Rightarrow> py_raise e | Inr ds \<Rightarrow> py_return ds)
      | _ \<Rightarrow> expected P ''DbQueryResponse'' resp)"

definition db_query :: "'o python \<Rightarrow> string \<Rightarrow> string list \<Rightarrow> ((string \<times> string) list list, runner) py" where
  "db_query P sql params s =
     (if \<not> py_stream s then py_raise not_connected s
      else py_bind (request P (ClientMessage_DbQuery sql params) ''db query'') (query_reply P) s)"

end
