(* ===== verification/PyScript.thy ===== *)
theory PyScript
  imports PyRunner
begin

section \<open>PyScript: what a script says and what its run becomes\<close>

text \<open>
  A script is a \<open>main\<close> function that calls the helper library; here it is a tree of calls, each
  followed by whatever the script does with the result or the exception (catching it is just
  another continuation). \<open>run_script\<close> is the wrapper \<open>run\<close> of \<^verbatim>\<open>runner.py\<close>. The theorems say
  what the messages of any script look like, whatever gRPC, the reader and the server do in
  between, and, with the server and the manager of the other theories, what its run becomes.
\<close>

subsection \<open>Scripts\<close>

datatype 'o call =
    Call_output string
  | Call_progress int int string
  | Call_complete
  | Call_fail string "string option" int
  | Call_warn string
  | Call_info string
  | Call_is_cancelled
  | Call_cache_set string 'o
  | Call_cache_get string
  | Call_cache_release string
  | Call_dialog_open string string "FileFilterDef list"
  | Call_dialog_save string string string "FileFilterDef list"
  | Call_db_execute string "string list"
  | Call_db_query string "string list"

datatype 'o answer =
    Got_nothing
  | Got_flag bool
  | Got_object 'o
  | Got_path "string option"
  | Got_counts "int \<times> int"
  | Got_rows "(string \<times> string) list list"

definition got :: "('a \<Rightarrow> 'o answer) \<Rightarrow> ('a, 's) py \<Rightarrow> ('o answer, 's) py" where
  "got c f = py_bind f (\<lambda>x. py_return (c x))"

abbreviation done_with :: "(unit, 's) py \<Rightarrow> ('o answer, 's) py" where
  "done_with f \<equiv> got (\<lambda>_. Got_nothing) f"

fun perform :: "'o python \<Rightarrow> 'o call \<Rightarrow> ('o answer, runner) py" where
  "perform P (Call_output t) = done_with (py_output P t)"
| "perform P (Call_progress c n l) = done_with (progress P c n l)"
| "perform P Call_complete = done_with (complete P)"
| "perform P (Call_fail t tb sev) = done_with (fail P t tb sev)"
| "perform P (Call_warn t) = done_with (warn P t)"
| "perform P (Call_info t) = done_with (info P t)"
| "perform P Call_is_cancelled = got Got_flag (is_cancelled P)"
| "perform P (Call_cache_set k x) = done_with (cache_set P k x)"
| "perform P (Call_cache_get k) = got Got_object (cache_get P k)"
| "perform P (Call_cache_release k) = done_with (cache_release P k)"
| "perform P (Call_dialog_open t d fs) = got Got_path (dialog_open P t d fs)"
| "perform P (Call_dialog_save t d n fs) = got Got_path (dialog_save P t d n fs)"
| "perform P (Call_db_execute q ps) = got Got_counts (db_execute P q ps)"
| "perform P (Call_db_query q ps) = got Got_rows (db_query P q ps)"

datatype 'o script =
    Return
  | Raise Exn
  | Call "'o call" "Exn + 'o answer \<Rightarrow> 'o script"

primrec exec :: "'o python \<Rightarrow> 'o script \<Rightarrow> (unit, runner) py" where
  "exec P Return = py_return ()"
| "exec P (Raise e) = py_raise e"
| "exec P (Call c k) = (\<lambda>s. case perform P c s of (r, s') \<Rightarrow> exec P (k r) s')"

type_synonym 'o main_func = "(string \<times> string) list \<Rightarrow> 'o script"

definition main_body :: "'o python \<Rightarrow> 'o main_func \<Rightarrow> (unit, runner) py" where
  "main_body P f = py_bind (connect P) (\<lambda>params. exec P (f params))"

definition run_script :: "'o python \<Rightarrow> 'o main_func \<Rightarrow> (unit, runner) py" where
  "run_script P f s =
     (case main_body P f s of
        (Inr _, s') \<Rightarrow> (Inr (), s')
      | (Inl e, s') \<Rightarrow>
          if e = KeyboardInterrupt \<or> e = SystemExit then fail P ''cancelled'' None SEVERITY_ERROR s'
          else if is_Exception e then fail P (py_str P e) None SEVERITY_ERROR s'
          else (Inl e, s'))"

subsection \<open>What has been said\<close>

text \<open>Everything put on the iterator, taken by gRPC already or not.\<close>

definition puts :: "runner \<Rightarrow> ClientMessage list" where
  "puts s = py_sent s @ it_queue (py_iter s)"

definition is_status :: "ClientMessage \<Rightarrow> bool" where
  "is_status m \<longleftrightarrow> (\<exists>st. m = ClientMessage_Status st)"

definition is_error :: "ClientMessage \<Rightarrow> bool" where
  "is_error m \<longleftrightarrow> (\<exists>t tb sev. m = ClientMessage_Error t tb sev)"

text \<open>
  The shape of a script's messages: no status until it has finished; then exactly one first
  status, \<open>completed\<close> or, right after an error, \<open>failed\<close>, and behind it nothing but further failures.
\<close>

definition after_end :: "ClientMessage list \<Rightarrow> bool" where
  "after_end t \<longleftrightarrow> (\<forall>m \<in> set t. is_error m \<or> m = ClientMessage_Status StatusFailed) \<and> (t \<noteq> [] \<longrightarrow> is_error (hd t))"

definition well_told :: "bool \<Rightarrow> ClientMessage list \<Rightarrow> bool" where
  "well_told finished ms \<longleftrightarrow>
     (if finished
      then \<exists>body st t. ms = body @ ClientMessage_Status st # t \<and> (\<forall>m \<in> set body. \<not> is_status m) \<and> after_end t \<and>
             (st = StatusCompleted \<or> st = StatusFailed \<and> body \<noteq> [] \<and> is_error (last body))
      else \<forall>m \<in> set ms. \<not> is_status m)"

definition told_inv :: "runner \<Rightarrow> bool" where
  "told_inv s \<longleftrightarrow>
     well_told (py_finished s) (puts s) \<and> (it_done (py_iter s) \<longleftrightarrow> py_finished s) \<and>
     (py_half_closed s \<longrightarrow> py_finished s \<and> well_told True (py_sent s))"

lemma message_kinds [simp]:
  "is_status (ClientMessage_Status st)" "\<not> is_status (ClientMessage_Error t tb sev)"
  "\<not> is_status (ClientMessage_Output t)" "\<not> is_status (ClientMessage_Progress c n l)"
  "\<not> is_status (ClientMessage_CacheCreate k z nm)" "\<not> is_status (ClientMessage_CacheLookup k)"
  "\<not> is_status (ClientMessage_CacheRelease k)" "\<not> is_status (ClientMessage_FileDialog kd t fs d nm)"
  "\<not> is_status (ClientMessage_DbExecute q ps)" "\<not> is_status (ClientMessage_DbQuery q ps)"
  "is_error (ClientMessage_Error t tb sev)" "\<not> is_error (ClientMessage_Status st)"
  "\<not> is_error (ClientMessage_Output t)" "\<not> is_error (ClientMessage_Progress c n l)"
  "\<not> is_error (ClientMessage_CacheCreate k z nm)" "\<not> is_error (ClientMessage_CacheLookup k)"
  "\<not> is_error (ClientMessage_CacheRelease k)" "\<not> is_error (ClientMessage_FileDialog kd t fs d nm)"
  "\<not> is_error (ClientMessage_DbExecute q ps)" "\<not> is_error (ClientMessage_DbQuery q ps)"
  by (simp_all add: is_status_def is_error_def)

text \<open>The part of the state the invariant reads.\<close>

definition told_part :: "runner \<Rightarrow> ClientMessage list \<times> msg_iter \<times> bool \<times> bool" where
  "told_part s = (py_sent s, py_iter s, py_finished s, py_half_closed s)"

lemma told_inv_cong: "told_inv s \<Longrightarrow> told_part s' = told_part s \<Longrightarrow> told_inv s'"
  by (simp add: told_inv_def told_part_def puts_def)

lemma told_part_frame [simp]:
  "told_part (s\<lparr>py_clock := n\<rparr>) = told_part s" "told_part (s\<lparr>py_responses := q\<rparr>) = told_part s"
  "told_part (s\<lparr>py_shm := h\<rparr>) = told_part s" "told_part (s\<lparr>py_refs := l\<rparr>) = told_part s"
  "told_part (s\<lparr>py_owned := os\<rparr>) = told_part s" "told_part (s\<lparr>py_cancel := b\<rparr>) = told_part s"
  "told_part (s\<lparr>py_reader := t\<rparr>) = told_part s" "told_part (s\<lparr>py_reader_error := e\<rparr>) = told_part s"
  "told_part (s\<lparr>py_stream := b\<rparr>) = told_part s"
  "told_part (unlink nm s) = told_part s" "told_part (start_reader_thread s) = told_part s"
  "told_part (reader_step i s) = told_part s"
  by (auto simp: told_part_def unlink_def start_reader_thread_def reader_step_def split: stream_item.split)

lemma told_part_puts: "told_part s' = told_part s \<Longrightarrow> puts s' = puts s \<and> py_finished s' = py_finished s"
  by (simp add: told_part_def puts_def)

subsection \<open>Other threads do not change what was said\<close>

lemma take_step:
  assumes "told_inv s"
  shows "told_inv (transport_take s) \<and> puts (transport_take s) = puts s \<and>
     py_finished (transport_take s) = py_finished s"
  using assms
  by (cases "it_queue (py_iter s)")
    (auto simp: transport_take_def it_next_def told_inv_def puts_def split: if_splits)

lemma event_told:
  assumes "told_inv s"
  shows "told_inv (event_step ev s) \<and> puts (event_step ev s) = puts s \<and>
     py_finished (event_step ev s) = py_finished s"
proof (cases ev)
  case (Arrive i)
  then have "told_part (event_step ev s) = told_part s" by simp
  with told_inv_cong [OF assms] told_part_puts show ?thesis by blast
qed (use take_step [OF assms] in simp)

lemma events_told:
  "told_inv s \<Longrightarrow> told_inv (fold event_step evs s) \<and> puts (fold event_step evs s) = puts s \<and>
     py_finished (fold event_step evs s) = py_finished s"
  using event_told by (induction evs arbitrary: s) auto

lemma elapse_told:
  assumes "told_inv s"
  shows "told_inv (elapse P s)" "puts (elapse P s) = puts s" "py_finished (elapse P s) = py_finished s"
proof -
  let ?t = "fold event_step (px_events P (py_clock s)) s"
  have "told_part (elapse P s) = told_part ?t" by (simp add: elapse_def)
  with told_inv_cong told_part_puts events_told [OF assms]
  show "told_inv (elapse P s)" "puts (elapse P s) = puts s" "py_finished (elapse P s) = py_finished s"
    by metis+
qed

subsection \<open>Every operation keeps the shape\<close>

text \<open>
  \<open>keeps_told s s'\<close>: the invariant is kept, what was said stays said, and an end stays an end.
\<close>

definition keeps_told :: "runner \<Rightarrow> runner \<Rightarrow> bool" where
  "keeps_told s s' \<longleftrightarrow>
     told_inv s' \<and> prefix (puts s) (puts s') \<and> (py_finished s \<longrightarrow> py_finished s')"

lemma keeps_refl: "told_inv s \<Longrightarrow> keeps_told s s"
  by (simp add: keeps_told_def)

lemma keeps_trans: "keeps_told s s1 \<Longrightarrow> keeps_told s1 s2 \<Longrightarrow> keeps_told s s2"
  by (auto simp: keeps_told_def intro: prefix_order.trans)

lemma keeps_elapse: "told_inv s \<Longrightarrow> keeps_told s (elapse P s)"
  by (simp add: keeps_told_def elapse_told)

lemma keeps_part: "told_inv s \<Longrightarrow> told_part s' = told_part s \<Longrightarrow> keeps_told s s'"
  using told_inv_cong told_part_puts [of s' s] by (auto simp: keeps_told_def)

lemma keeps_inv: "keeps_told s s' \<Longrightarrow> told_inv s'"
  by (simp add: keeps_told_def)

lemma keeps_after: "keeps_told s s1 \<Longrightarrow> told_part s' = told_part s1 \<Longrightarrow> keeps_told s s'"
  by (blast intro: keeps_trans keeps_part keeps_inv)

lemma well_told_event: "\<not> is_status m \<Longrightarrow> well_told False ms \<Longrightarrow> well_told False (ms @ [m])"
  by (auto simp: well_told_def)

lemma well_told_after:
  assumes "is_error m \<or> m = ClientMessage_Status StatusFailed \<and> is_error (last ms)" "well_told True ms"
  shows "well_told True (ms @ [m])"
proof -
  from assms(2) obtain body st t where ms: "ms = body @ ClientMessage_Status st # t"
    and b: "\<forall>m \<in> set body. \<not> is_status m" "after_end t"
      "st = StatusCompleted \<or> st = StatusFailed \<and> body \<noteq> [] \<and> is_error (last body)"
    unfolding well_told_def by auto
  with assms(1) have "after_end (t @ [m])" by (cases "t = []") (auto simp: after_end_def)
  with ms b(1,3) have "ms @ [m] = body @ ClientMessage_Status st # (t @ [m]) \<and>
      (\<forall>m \<in> set body. \<not> is_status m) \<and> after_end (t @ [m]) \<and>
      (st = StatusCompleted \<or> st = StatusFailed \<and> body \<noteq> [] \<and> is_error (last body))" by simp
  then show ?thesis unfolding well_told_def if_True by blast
qed

lemma puts_it_put [simp]: "puts (s\<lparr>py_iter := it_put m (py_iter s)\<rparr>) = puts s @ [m]"
  by (simp add: puts_def it_put_def)

text \<open>One message through \<open>_send\<close>: an event while the script goes on, or an error by force.\<close>

lemma send_told:
  assumes "told_inv s" "\<not> is_status m" "force \<longrightarrow> is_error m" "send_msg P force m s = (r, s')"
  shows "keeps_told s s'" "py_finished s' = py_finished s" "r = Inr () \<and> force \<longrightarrow> puts s' = puts s @ [m]"
proof -
  let ?t = "elapse P s"
  note t = elapse_told [OF assms(1), of P]
  have told: "well_told (py_finished ?t) (puts ?t @ [m])" if "\<not> py_finished ?t \<or> force"
    using that t(1) assms(2,3) well_told_event well_told_after
    by (cases "py_finished ?t") (auto simp: told_inv_def)
  have "keeps_told ?t (?t\<lparr>py_iter := it_put m (py_iter ?t)\<rparr>)" if "\<not> py_finished ?t \<or> force"
    using told [OF that] t(1) by (auto simp: keeps_told_def told_inv_def it_put_def puts_def)
  with keeps_elapse [OF assms(1), of P] have
    "keeps_told s (?t\<lparr>py_iter := it_put m (py_iter ?t)\<rparr>)" if "\<not> py_finished ?t \<or> force"
    using that keeps_trans by blast
  with assms(4) t keeps_elapse [OF assms(1), of P]
  show "keeps_told s s'" "py_finished s' = py_finished s" "r = Inr () \<and> force \<longrightarrow> puts s' = puts s @ [m]"
    by (auto simp: send_msg_def send_now_def Let_def split: if_splits)
qed

text \<open>A status that ends the script: \<open>complete\<close> and the second half of \<open>fail\<close>.\<close>

lemma finish_puts:
  "finish P s = (r, s') \<Longrightarrow> told_inv s \<Longrightarrow> py_finished s \<Longrightarrow> r = Inr () \<and> s' = s"
  by (simp add: finish_def)

lemma end_told:
  assumes "told_inv s" "\<not> py_finished s"
    and "st = StatusCompleted \<or> st = StatusFailed \<and> puts s \<noteq> [] \<and> is_error (last (puts s))"
    and "finish P (s\<lparr>py_iter := it_put (ClientMessage_Status st) (py_iter s)\<rparr>) = (r, s')"
  shows "keeps_told s s' \<and> py_finished s' \<and> r = Inr () \<and> puts s' = puts s @ [ClientMessage_Status st]"
proof -
  let ?u = "s\<lparr>py_finished := True, py_iter := it_close (it_put (ClientMessage_Status st) (py_iter s))\<rparr>"
  from assms(1,2) have open_: "\<not> py_half_closed s" "\<forall>m \<in> set (puts s). \<not> is_status m"
    by (auto simp: told_inv_def well_told_def)
  have pu: "puts ?u = puts s @ [ClientMessage_Status st]" by (simp add: puts_def it_close_def it_put_def)
  have "puts s @ [ClientMessage_Status st] = puts s @ ClientMessage_Status st # [] \<and>
      (\<forall>m \<in> set (puts s). \<not> is_status m) \<and> after_end [] \<and>
      (st = StatusCompleted \<or> st = StatusFailed \<and> puts s \<noteq> [] \<and> is_error (last (puts s)))"
    using open_(2) assms(3) by (simp add: after_end_def)
  then have "well_told True (puts ?u)" unfolding well_told_def if_True pu by blast
  with open_(1) have inv: "told_inv ?u" by (simp add: told_inv_def it_close_def)
  have s': "s' = (if py_reader ?u \<noteq> NotStarted then elapse P ?u else ?u)" "r = Inr ()"
    using assms(2,4) by (auto simp: finish_def Let_def)
  then have "told_inv s' \<and> puts s' = puts ?u \<and> py_finished s'" using elapse_told [OF inv, of P] inv by simp
  with pu s'(2) show ?thesis by (simp add: keeps_told_def)
qed

lemma complete_told:
  assumes "told_inv s" "complete P s = (r, s')"
  shows "keeps_told s s'"
proof -
  let ?t = "elapse P s"
  note t = elapse_told [OF assms(1), of P] and k = keeps_elapse [OF assms(1), of P]
  have eq: "complete P s = (if py_finished ?t then finish P ?t
      else if py_cancel ?t then (Inl (CancelledError ''Script cancelled by backend''), ?t)
      else finish P (?t\<lparr>py_iter := it_put (ClientMessage_Status StatusCompleted) (py_iter ?t)\<rparr>))"
    by (simp add: complete_def send_msg_def send_now_def py_bind_def Let_def)
  consider "py_finished ?t" | "\<not> py_finished ?t" "py_cancel ?t" | "\<not> py_finished ?t" "\<not> py_cancel ?t" by blast
  then show ?thesis
  proof cases
    case 3
    with end_told [OF t(1) 3(1), of StatusCompleted P r s'] eq assms(2) k keeps_trans show ?thesis by auto
  qed (use assms(2) eq k finish_puts t(1) in \<open>auto simp: finish_def\<close>)
qed

lemma fail_told:
  assumes "told_inv s" "fail P msg tb sev s = (r, s')"
  shows "keeps_told s s'" "int32 sev \<Longrightarrow> r = Inr () \<and> py_finished s'"
    "int32 sev \<Longrightarrow> puts s' = puts s @ [ClientMessage_Error msg (traceback_of P tb s) sev, ClientMessage_Status StatusFailed]"
proof -
  let ?m = "ClientMessage_Error msg (traceback_of P tb s) sev"
  have "keeps_told s s' \<and> (int32 sev \<longrightarrow> r = Inr () \<and> py_finished s' \<and>
      puts s' = puts s @ [?m, ClientMessage_Status StatusFailed])"
  proof (cases "int32 sev")
    case False
    with assms show ?thesis by (simp add: fail_def keeps_refl)
  next
    case True
    obtain r1 s1 where s1: "send_msg P True ?m s = (r1, s1)" by force
    then have r1: "r1 = Inr ()" by (simp add: send_msg_def send_now_def Let_def split: if_splits)
    note sent = send_told [OF assms(1) _ _ s1, simplified]
    let ?t = "elapse P s1"
    have inv1: "told_inv s1" using sent(1) by (simp add: keeps_told_def)
    note t = elapse_told [OF inv1, of P]
    have k: "keeps_told s ?t" by (rule keeps_trans [OF sent(1) keeps_elapse [OF inv1]])
    let ?u = "?t\<lparr>py_iter := it_put (ClientMessage_Status StatusFailed) (py_iter ?t)\<rparr>"
    have fin: "finish P ?u = (r, s')"
      using assms(2) True s1 r1 by (simp add: fail_def py_bind_def send_msg_def [of P True "ClientMessage_Status StatusFailed"] send_now_def Let_def)
    have last: "puts ?t = puts s @ [?m]" using sent(3) r1 t(2) by simp
    show ?thesis
    proof (cases "py_finished ?t")
      case False
      from end_told [OF t(1) False _ fin] last k keeps_trans True show ?thesis by auto
    next
      case fin_: True
      from t(1) fin_ have "well_told True (puts ?t)" by (simp add: told_inv_def)
      then have inv: "well_told True (puts ?t @ [ClientMessage_Status StatusFailed])"
        by (rule well_told_after [rotated]) (simp add: last)
      have "keeps_told ?t ?u" using t(1) fin_ inv by (auto simp: keeps_told_def told_inv_def it_put_def puts_def)
      moreover have "s' = ?u \<and> r = Inr ()" using fin fin_ by (simp add: finish_def)
      ultimately show ?thesis using k keeps_trans last fin_ by auto
    qed
  qed
  then show "keeps_told s s'" "int32 sev \<Longrightarrow> r = Inr () \<and> py_finished s'"
    "int32 sev \<Longrightarrow> puts s' = puts s @ [?m, ClientMessage_Status StatusFailed]" by auto
qed

text \<open>The operations that only read, wait or touch shared memory.\<close>

lemma recv_told: "told_inv s \<Longrightarrow> recv_response P what s = (r, s') \<Longrightarrow> keeps_told s s'"
proof -
  assume inv: "told_inv s" and r: "recv_response P what s = (r, s')"
  let ?t = "elapse P (start_reader_thread s)"
  have inv1: "told_inv (start_reader_thread s)" by (rule told_inv_cong [OF inv]) simp
  have k: "keeps_told s ?t"
    by (rule keeps_trans [OF keeps_part [OF inv] keeps_elapse [OF inv1]]) simp
  have "s' = s \<or> told_part s' = told_part ?t"
    using r by (auto simp: recv_response_def take_response_def split: if_splits list.splits option.splits)
  then show "keeps_told s s'" using keeps_refl [OF inv] keeps_after [OF k] by auto
qed

lemma request_told:
  assumes "told_inv s" "\<not> is_status m" "request P m what s = (r, s')"
  shows "keeps_told s s'"
  using assms(3) unfolding request_def
proof (cases rule: py_bind_cases)
  case (raised e)
  from send_told(1) [OF assms(1,2) _ raised(1)] show ?thesis by simp
next
  case (returned x s1)
  from send_told(1) [OF assms(1,2) _ returned(1)] have k: "keeps_told s s1" by simp
  from keeps_trans [OF k recv_told [OF keeps_inv [OF k] returned(2)]] show ?thesis .
qed

text \<open>A request whose reply is only looked at.\<close>

lemma request_then_told:
  assumes "told_inv s" "\<not> is_status m" "py_bind (request P m what) g s = (r, s')"
    and "\<And>resp s1 r s2. g resp s1 = (r, s2) \<Longrightarrow> told_part s2 = told_part s1"
  shows "keeps_told s s'"
  using assms(3)
proof (cases rule: py_bind_cases)
  case (raised e)
  from request_told [OF assms(1,2) raised(1)] show ?thesis .
next
  case (returned x s1)
  from keeps_after [OF request_told [OF assms(1,2) returned(1)]] assms(4) [OF returned(2)] show ?thesis .
qed

lemma reply_part:
  "create_ack P resp s = (r1, s') \<Longrightarrow> told_part s' = told_part s"
  "lookup_reply P k resp s = (r2, s') \<Longrightarrow> told_part s' = told_part s"
  "dialog_reply P resp s = (r3, s') \<Longrightarrow> told_part s' = told_part s"
  "execute_reply P resp s = (r4, s') \<Longrightarrow> told_part s' = told_part s"
  "query_reply P resp s = (r5, s') \<Longrightarrow> told_part s' = told_part s"
  by (cases resp;
      auto simp: create_ack_def lookup_reply_def dialog_reply_def execute_reply_def query_reply_def
        expected_def open_block_def unwrap_dialog_response_def
        split: if_splits option.splits sum.splits FileDialogOutcome.splits)+

lemma cache_set_told:
  assumes "told_inv s" "cache_set P k x s = (r, s')"
  shows "keeps_told s s'"
proof (cases "\<exists>data name room. py_stream s \<and> px_dumps P x = Inr data \<and>
    px_create P (py_clock s) (length data) = Inr (name, room)")
  case False
  with assms have "s' = s" by (auto simp: cache_set_def split: if_splits sum.splits)
  with assms(1) show ?thesis by (simp add: keeps_refl)
next
  case True
  then obtain data name room where d: "py_stream s" "px_dumps P x = Inr data"
    "px_create P (py_clock s) (length data) = Inr (name, room)" by blast
  let ?s = "s\<lparr>py_shm := (py_shm s)(name \<mapsto> data @ drop (length data) room)\<rparr>"
  have inv: "told_inv ?s" by (rule told_inv_cong [OF assms(1)]) simp
  obtain r1 s1 where reg: "register_block P k (length data) name ?s = (r1, s1)" by force
  then have k: "keeps_told ?s s1" unfolding register_block_def
    by (rule request_then_told [OF inv, rotated]) (simp_all add: reply_part)
  have "keeps_told s s1" by (rule keeps_trans [OF keeps_part [OF assms(1)] k]) simp
  moreover have "told_part s' = told_part s1"
    using assms(2) reg by (auto simp: cache_set_def d told_part_def unlink_def split: sum.splits)
  ultimately show ?thesis by (rule keeps_after)
qed

lemma cache_release_told:
  assumes "told_inv s" "cache_release P k s = (r, s')"
  shows "keeps_told s s'"
proof -
  let ?s = "case map_of (py_refs s) k of None \<Rightarrow> s
      | Some name \<Rightarrow> let s' = s\<lparr>py_refs := AList.delete k (py_refs s)\<rparr> in
          if k \<in> py_owned s then (unlink name s')\<lparr>py_owned := py_owned s - {k}\<rparr> else s'"
  have part: "told_part ?s = told_part s" by (simp add: Let_def split: option.split)
  have inv: "told_inv ?s" by (rule told_inv_cong [OF assms(1) part])
  have "keeps_told ?s s'" using assms(2) unfolding cache_release_def
    by (rule send_told(1) [OF inv, rotated 2]) simp_all
  with keeps_part [OF assms(1) part] show ?thesis by (rule keeps_trans)
qed

text \<open>The requests that are nothing but a request and a look at the reply.\<close>

lemma plain_request_told:
  assumes "told_inv s" "\<not> is_status m" "\<And>resp s1 r s2. g resp s1 = (r, s2) \<Longrightarrow> told_part s2 = told_part s1"
    and "(if \<not> py_stream s then py_raise e s else py_bind (request P m what) g s) = (r, s')"
  shows "keeps_told s s'"
proof (cases "py_stream s")
  case True
  with assms(4) have "py_bind (request P m what) g s = (r, s')" by simp
  from request_then_told [OF assms(1,2) this assms(3)] show ?thesis .
qed (use assms in \<open>simp add: keeps_refl\<close>)

lemma requests_told:
  assumes "told_inv s"
  shows "cache_get P k s = (r1, s') \<Longrightarrow> keeps_told s s'" "dialog_open P t d fs s = (r2, s') \<Longrightarrow> keeps_told s s'"
    "dialog_save P t d nm fs s = (r2, s') \<Longrightarrow> keeps_told s s'" "db_execute P q ps s = (r3, s') \<Longrightarrow> keeps_told s s'"
    "db_query P q ps s = (r4, s') \<Longrightarrow> keeps_told s s'"
  unfolding cache_get_def dialog_open_def dialog_save_def db_execute_def db_query_def
  by (rule plain_request_told [OF assms, rotated 2], assumption, simp, erule reply_part)+

subsection \<open>Whole scripts\<close>

lemma got_eq: "got c f s = (r, s') \<Longrightarrow> \<exists>r'. f s = (r', s')"
  by (auto simp: got_def py_bind_def split: prod.splits sum.splits)

lemma send_event_told: "told_inv s \<Longrightarrow> \<not> is_status m \<Longrightarrow> send_msg P False m s = (r, s') \<Longrightarrow> keeps_told s s'"
  by (rule send_told(1)) simp_all

lemma progress_told: "told_inv s \<Longrightarrow> progress P c n l s = (r, s') \<Longrightarrow> keeps_told s s'"
  by (auto simp: progress_def keeps_refl elim!: send_event_told [rotated 2] split: if_splits)

lemma is_cancelled_told: "told_inv s \<Longrightarrow> is_cancelled P s = (r, s') \<Longrightarrow> keeps_told s s'"
  by (auto simp: is_cancelled_def Let_def keeps_elapse)

lemma perform_told:
  assumes inv: "told_inv s" and p: "perform P c s = (r, s')"
  shows "keeps_told s s'"
proof (cases c)
  case (Call_output t)
  with p got_eq obtain r' where "py_output P t s = (r', s')" by fastforce
  then show ?thesis unfolding py_output_def by (rule send_event_told [OF inv, rotated]) simp
next
  case (Call_progress a b l)
  with p got_eq obtain r' where "progress P a b l s = (r', s')" by fastforce
  then show ?thesis by (rule progress_told [OF inv])
next
  case Call_complete
  with p got_eq obtain r' where "complete P s = (r', s')" by fastforce
  then show ?thesis by (rule complete_told [OF inv])
next
  case (Call_fail t tb sev)
  with p got_eq obtain r' where "fail P t tb sev s = (r', s')" by fastforce
  then show ?thesis by (rule fail_told(1) [OF inv])
next
  case (Call_warn t)
  with p got_eq obtain r' where "warn P t s = (r', s')" by fastforce
  then show ?thesis unfolding warn_def by (rule send_event_told [OF inv, rotated]) simp
next
  case (Call_info t)
  with p got_eq obtain r' where "info P t s = (r', s')" by fastforce
  then show ?thesis unfolding info_def by (rule send_event_told [OF inv, rotated]) simp
next
  case Call_is_cancelled
  with p got_eq obtain r' where "is_cancelled P s = (r', s')" by fastforce
  then show ?thesis by (rule is_cancelled_told [OF inv])
next
  case (Call_cache_set k x)
  with p got_eq obtain r' where "cache_set P k x s = (r', s')" by fastforce
  then show ?thesis by (rule cache_set_told [OF inv])
next
  case (Call_cache_release k)
  with p got_eq obtain r' where "cache_release P k s = (r', s')" by fastforce
  then show ?thesis by (rule cache_release_told [OF inv])
qed (use p in \<open>auto dest!: got_eq intro: requests_told [OF inv]\<close>)

lemma exec_told: "told_inv s \<Longrightarrow> exec P scr s = (r, s') \<Longrightarrow> keeps_told s s'"
proof (induction scr arbitrary: s)
  case (Call c k)
  obtain r1 s1 where p: "perform P c s = (r1, s1)" by force
  with Call.prems have e: "exec P (k r1) s1 = (r, s')" by simp
  note k1 = perform_told [OF Call.prems(1) p]
  from keeps_trans [OF k1 Call.IH [OF _ keeps_inv [OF k1] e]] show ?case by simp
qed (simp_all add: keeps_refl)

lemma connect_told:
  assumes "told_inv s" "connect P s = (r, s')"
  shows "keeps_told s s'"
proof -
  have "told_part s' = told_part s"
    using assms(2) by (auto simp: connect_def Let_def split: option.splits if_splits stream_item.splits ServerMessage.splits)
  then show ?thesis by (rule keeps_part [OF assms(1)])
qed

lemma main_told:
  assumes "told_inv s" "main_body P f s = (r, s')"
  shows "keeps_told s s'"
  using assms(2) unfolding main_body_def
proof (cases rule: py_bind_cases)
  case (raised e)
  from connect_told [OF assms(1) raised(1)] show ?thesis .
next
  case (returned x s1)
  note k = connect_told [OF assms(1) returned(1)]
  from keeps_trans [OF k exec_told [OF keeps_inv [OF k] returned(2)]] show ?thesis .
qed

lemma fresh_told: "told_inv (fresh_runner shm)"
  by (simp add: fresh_runner_def told_inv_def well_told_def puts_def)

text \<open>The text a script that raised \<open>e\<close> is failed with; \<open>None\<close> when the wrapper lets it pass.\<close>

definition failure_text :: "'o python \<Rightarrow> Exn \<Rightarrow> string option" where
  "failure_text P e =
     (if e = KeyboardInterrupt \<or> e = SystemExit then Some ''cancelled''
      else if is_Exception e then Some (py_str P e) else None)"

lemma run_script_cases:
  assumes "main_body P f s = (r, s1)"
  shows "run_script P f s =
     (case r of
        Inr _ \<Rightarrow> (Inr (), s1)
      | Inl e \<Rightarrow> (case failure_text P e of Some t \<Rightarrow> fail P t None SEVERITY_ERROR s1 | None \<Rightarrow> (Inl e, s1)))"
  by (auto simp: run_script_def assms failure_text_def split: sum.split)

lemma int32_error: "int32 SEVERITY_ERROR"
  by (simp add: int32_def)

lemma run_told:
  assumes "told_inv s" "run_script P f s = (r, s')"
  shows "keeps_told s s'"
proof -
  obtain r1 s1 where m: "main_body P f s = (r1, s1)" by force
  note k = main_told [OF assms(1) m]
  have "keeps_told s1 s'"
    using assms(2) fail_told(1) [OF keeps_inv [OF k]] keeps_refl [OF keeps_inv [OF k]]
    by (auto simp: run_script_cases [OF m] split: sum.splits option.splits)
  with k show ?thesis by (rule keeps_trans)
qed

subsection \<open>What the server makes of it\<close>

lemma first_status_append: "first_status (xs @ ys) = or_else (first_status xs) (first_status ys)"
  by (induction xs rule: first_status.induct) auto

lemma first_status_None: "\<forall>m \<in> set ms. \<not> is_status m \<Longrightarrow> first_status ms = None"
  by (induction ms rule: first_status.induct) auto

lemma last_error_append: "last_error (xs @ ys) = or_else (last_error ys) (last_error xs)"
  by (induction xs) (auto simp: or_else_def split: option.splits)

lemma last_error_None: "last_error ms = None \<longleftrightarrow> (\<forall>m \<in> set ms. \<not> is_error m)"
  by (induction ms) (auto simp: is_error_def split: option.splits ClientMessage.splits)

text \<open>The messages of a script that reports nothing wrong and ends with \<open>complete()\<close>.\<close>

definition spotless :: "ClientMessage list \<Rightarrow> bool" where
  "spotless ms \<longleftrightarrow> ms \<noteq> [] \<and> last ms = ClientMessage_Status StatusCompleted \<and>
     (\<forall>m \<in> set (butlast ms). \<not> is_status m \<and> \<not> is_error m)"

lemma spotless_snoc:
  "spotless (body @ [m]) \<longleftrightarrow> m = ClientMessage_Status StatusCompleted \<and> (\<forall>m \<in> set body. \<not> is_status m \<and> \<not> is_error m)"
  by (simp add: spotless_def)

lemma spotless_one_status:
  assumes "spotless (body @ ClientMessage_Status st # t)"
  shows "t = [] \<and> st = StatusCompleted"
proof (cases t rule: rev_cases)
  case (snoc u m)
  with assms have "spotless ((body @ ClientMessage_Status st # u) @ [m])" by simp
  then show ?thesis unfolding spotless_snoc by simp
qed (use assms in \<open>simp add: spotless_snoc\<close>)

lemma well_told_verdict:
  assumes "well_told True ms"
  shows "run_verdict False code err ms =
     (if err = None \<and> code = 0 \<and> spotless ms then StatusCompleted else StatusFailed)"
proof -
  from assms obtain body st t where ms: "ms = body @ ClientMessage_Status st # t"
    and b: "\<forall>m \<in> set body. \<not> is_status m" "after_end t"
      "st = StatusCompleted \<or> st = StatusFailed \<and> body \<noteq> [] \<and> is_error (last body)"
    unfolding well_told_def by auto
  have st: "first_status ms = Some st"
    using b(3) by (auto simp: ms first_status_append first_status_None [OF b(1)])
  have "last_error ms = None \<and> st = StatusCompleted \<longleftrightarrow> spotless ms"
  proof
    assume l: "last_error ms = None \<and> st = StatusCompleted"
    then have no: "\<forall>m \<in> set ms. \<not> is_error m" by (simp add: last_error_None)
    have "t = []" using b(2) no by (cases t) (auto simp: after_end_def ms)
    with l no b(1) show "spotless ms" by (auto simp: ms spotless_snoc)
  next
    assume s: "spotless ms"
    from spotless_one_status [OF this [unfolded ms]] have e: "t = []" "st = StatusCompleted" by auto
    from s have "\<forall>m \<in> set ms. \<not> is_error m" unfolding ms e spotless_snoc by auto
    with e(2) show "last_error ms = None \<and> st = StatusCompleted" by (simp add: last_error_None)
  qed
  then show ?thesis by (auto simp: run_verdict_def st)
qed

lemma unfinished_verdict:
  assumes "well_told False ms" "prefix handled ms"
  shows "run_verdict False code err handled = StatusFailed"
proof -
  have "\<forall>m \<in> set handled. \<not> is_status m"
    using assms set_mono_prefix by (auto simp: well_told_def)
  then show ?thesis by (simp add: run_verdict_def first_status_None)
qed

subsection \<open>When the stream has ended\<close>

text \<open>Between the last message and the end of the stream everything has been taken.\<close>

definition drained :: "runner \<Rightarrow> bool" where
  "drained s \<longleftrightarrow> (py_half_closed s \<longrightarrow> it_queue (py_iter s) = [])"

lemma drained_cong: "drained s \<Longrightarrow> told_part s' = told_part s \<Longrightarrow> drained s'"
  by (simp add: drained_def told_part_def)

lemma event_drained: "drained s \<Longrightarrow> drained (event_step ev s)"
proof (cases ev)
  case Take
  assume "drained s"
  then show ?thesis unfolding Take
    by (cases "it_queue (py_iter s)") (auto simp: drained_def transport_take_def it_next_def)
qed (auto elim: drained_cong)

lemma elapse_drained: "drained s \<Longrightarrow> drained (elapse P s)"
proof -
  assume "drained s"
  then have "drained (fold event_step (px_events P (py_clock s)) s)"
    by (rule fold_invariant [of _ "\<lambda>_. True", rotated]) (auto intro: event_drained)
  then show ?thesis by (rule drained_cong) (simp add: elapse_def)
qed

lemma finish_drained: "drained s \<Longrightarrow> finish P s = (r, s') \<Longrightarrow> drained s'"
proof -
  assume d: "drained s" and f: "finish P s = (r, s')"
  have "drained (s\<lparr>py_finished := True, py_iter := it_close (py_iter s)\<rparr>)"
    using d by (simp add: drained_def it_close_def)
  with d f show "drained s'" by (auto simp: finish_def Let_def intro: elapse_drained split: if_splits)
qed

lemma open_not_half_closed: "told_inv s \<Longrightarrow> \<not> py_finished s \<Longrightarrow> \<not> py_half_closed s"
  by (simp add: told_inv_def)

lemma fail_drained:
  assumes "told_inv s" "\<not> py_finished s" "int32 sev" "fail P msg tb sev s = (r, s')"
  shows "drained s'"
proof -
  let ?m = "ClientMessage_Error msg (traceback_of P tb s) sev"
  obtain r1 s1 where s1: "send_msg P True ?m s = (r1, s1)" by force
  then have r1: "r1 = Inr ()" by (simp add: send_msg_def send_now_def Let_def split: if_splits)
  note sent = send_told [OF assms(1) _ _ s1, simplified]
  let ?t = "elapse P s1"
  let ?u = "?t\<lparr>py_iter := it_put (ClientMessage_Status StatusFailed) (py_iter ?t)\<rparr>"
  have inv1: "told_inv s1" using sent(1) by (rule keeps_inv)
  note t = elapse_told [OF inv1, of P]
  have "\<not> py_half_closed ?t" by (rule open_not_half_closed [OF t(1)]) (simp add: t(3) sent(2) assms(2))
  then have "drained ?u" by (simp add: drained_def)
  moreover have "finish P ?u = (r, s')"
    using assms(3,4) s1 r1 by (simp add: fail_def py_bind_def send_msg_def [of P True "ClientMessage_Status StatusFailed"] send_now_def Let_def)
  ultimately show ?thesis by (rule finish_drained)
qed

subsection \<open>Properties\<close>

text \<open>C10: A script decides what becomes of its run, whatever gRPC, the reader and the server do
  meanwhile. A script that raises before it has finished, be it an exception of its own, an error
  of the library or a cancel noticed in a call, is failed: behind everything it said come one error
  with the text of the exception and the failed status, the iterator is closed, and once the stream
  has ended the server has all of it and the run, unless cancelled, fails with that text. A script
  that just returns without \<open>complete\<close> or \<open>fail\<close> fails, whatever part of its messages arrived. And a
  run whose stream has ended is completed exactly when the process exited cleanly and the script
  reported no error, warning or information and ended with \<open>complete\<close>. Only the exceptions the
  wrapper does not catch leave it.\<close>

theorem script_decides_its_run:
  assumes "main_body P f (fresh_runner shm) = (r, s1)" "run_script P f (fresh_runner shm) = (res, s)"
  shows "(\<forall>e t. r = Inl e \<and> failure_text P e = Some t \<and> \<not> py_finished s1 \<longrightarrow>
       res = Inr () \<and> py_finished s \<and>
       (\<exists>tb. puts s = puts s1 @ [ClientMessage_Error t tb SEVERITY_ERROR, ClientMessage_Status StatusFailed]) \<and>
       (py_half_closed s \<longrightarrow> py_sent s = puts s \<and> last_error (py_sent s) = Some t \<and>
          (\<forall>code err. run_verdict False code err (py_sent s) = StatusFailed))) \<and>
     (r = Inr () \<and> \<not> py_finished s1 \<longrightarrow>
       (\<forall>handled code err. prefix handled (puts s) \<longrightarrow> run_verdict False code err handled = StatusFailed)) \<and>
     (py_half_closed s \<longrightarrow>
       (\<forall>code err. run_verdict False code err (py_sent s) =
          (if err = None \<and> code = 0 \<and> spotless (py_sent s) then StatusCompleted else StatusFailed))) \<and>
     (\<forall>e. res = Inl e \<longrightarrow> r = Inl e \<and> failure_text P e = None)"
proof -
  note inv1 = keeps_inv [OF main_told [OF fresh_told assms(1)]]
  note inv = keeps_inv [OF run_told [OF fresh_told assms(2)]]
  note eq = assms(2) [unfolded run_script_cases [OF assms(1)]]
  have closed: "well_told True (py_sent s)" if "py_half_closed s" using inv that by (simp add: told_inv_def)
  have raised: "res = Inr () \<and> py_finished s \<and>
      (\<exists>tb. puts s = puts s1 @ [ClientMessage_Error t tb SEVERITY_ERROR, ClientMessage_Status StatusFailed]) \<and>
      (py_half_closed s \<longrightarrow> py_sent s = puts s \<and> last_error (py_sent s) = Some t \<and>
         (\<forall>code err. run_verdict False code err (py_sent s) = StatusFailed))"
    if e: "r = Inl e" "failure_text P e = Some t" "\<not> py_finished s1" for e t
  proof -
    have f: "fail P t None SEVERITY_ERROR s1 = (res, s)" using eq e by simp
    note said = fail_told(2,3) [OF inv1 f int32_error]
    have sent: "py_sent s = puts s" if "py_half_closed s"
      using fail_drained [OF inv1 e(3) int32_error f] that by (simp add: drained_def puts_def)
    have "last_error (puts s) = Some t" "last (puts s) \<noteq> ClientMessage_Status StatusCompleted"
      unfolding said(2) by (simp_all add: last_error_append)
    then show ?thesis
      using said sent closed well_told_verdict by (auto simp: spotless_def)
  qed
  have "run_verdict False code err handled = StatusFailed"
    if "r = Inr ()" "\<not> py_finished s1" "prefix handled (puts s)" for handled code err
  proof -
    have "s = s1" using eq that(1) by simp
    with inv1 that(2) have "well_told False (puts s)" by (simp add: told_inv_def)
    then show ?thesis by (rule unfinished_verdict [OF _ that(3)])
  qed
  moreover have "r = Inl e \<and> failure_text P e = None" if "res = Inl e" for e
    using eq that by (auto dest: fail_told(2) [OF inv1 _ int32_error] split: sum.splits option.splits)
  ultimately show ?thesis using raised closed well_told_verdict by blast
qed


text \<open>\<open>warn\<close> is documented to leave the run's results valid; but the server takes every error message
  for an error, whatever its severity, so a script that warns before it has finished has failed, even
  if it goes on to call \<open>complete\<close>.\<close>

lemma warn_says:
  assumes "told_inv s" "\<not> py_finished s" "perform P (Call_warn w) s = (Inr x, s1)"
  shows "told_inv s1 \<and> \<not> py_finished s1 \<and> puts s1 = puts s @ [ClientMessage_Error w [] SEVERITY_WARN]"
proof -
  obtain x' where w: "warn P w s = (Inr x', s1)"
    using assms(3) by (auto simp: got_def py_bind_Inr)
  let ?t = "elapse P s"
  note t = elapse_told [OF assms(1), of P]
  have "s1 = ?t\<lparr>py_iter := it_put (ClientMessage_Error w [] SEVERITY_WARN) (py_iter ?t)\<rparr>"
    using w t(3) assms(2) by (auto simp: warn_def send_msg_def send_now_def Let_def split: if_splits)
  moreover have "keeps_told s s1"
    using w unfolding warn_def by (rule send_event_told [OF assms(1), rotated]) simp
  ultimately show ?thesis using t assms(2) by (simp add: keeps_inv)
qed

theorem warned_run_fails:
  assumes "told_inv s" "\<not> py_finished s" "perform P (Call_warn w) s = (Inr x, s1)"
    and "exec P scr s1 = (r, s')" "py_half_closed s'"
  shows "run_verdict False code err (py_sent s') = StatusFailed"
proof -
  note w = warn_says [OF assms(1-3)]
  have k: "keeps_told s1 s'" using w exec_told assms(4) by blast
  then have told: "well_told True (py_sent s')" "prefix (puts s1) (puts s')"
    using assms(5) by (auto simp: keeps_told_def told_inv_def)
  have "prefix (py_sent s') (puts s')" by (simp add: puts_def)
  with told(2) have "prefix (puts s1) (py_sent s') \<or> prefix (py_sent s') (puts s1)"
    by (rule prefix_same_cases)
  moreover have "\<not> prefix (py_sent s') (puts s1)"
  proof
    assume "prefix (py_sent s') (puts s1)"
    moreover have "well_told False (puts s1)" using w by (auto simp: told_inv_def)
    ultimately have "\<forall>m \<in> set (py_sent s'). \<not> is_status m"
      using set_mono_prefix by (auto simp: well_told_def)
    with told(1) show False by (auto simp: well_told_def)
  qed
  ultimately obtain rest where sent: "py_sent s' = puts s @ ClientMessage_Error w [] SEVERITY_WARN # rest"
    using w by (auto simp: prefix_def)
  then have "last_error (py_sent s') \<noteq> None" by (auto simp: last_error_None)
  then show ?thesis by (simp add: run_verdict_def)
qed

text \<open>An exception after \<open>complete\<close>, with the stream ended: \<open>run\<close> answers with \<open>fail\<close>, which nobody
  hears; the run stays completed.\<close>

lemma half_closed_sent: "py_half_closed s \<Longrightarrow> py_half_closed (elapse P s) \<and> py_sent (elapse P s) = py_sent s"
proof -
  assume h: "py_half_closed s"
  have ev: "py_half_closed (event_step ev t) \<and> py_sent (event_step ev t) = py_sent t" if "py_half_closed t" for ev t
  proof (cases ev)
    case (Arrive i)
    have "told_part (event_step ev t) = told_part t" by (simp add: Arrive)
    with that show ?thesis by (simp add: told_part_def)
  qed (simp add: transport_take_def that)
  have "py_half_closed (fold event_step evs t) \<and> py_sent (fold event_step evs t) = py_sent t" if "py_half_closed t" for evs t
    using that ev by (induction evs arbitrary: t) auto
  with h show ?thesis by (simp add: elapse_def)
qed

theorem late_failure_unheard:
  assumes "main_body P f s = (Inl e, s1)" "py_finished s1" "py_half_closed s1" "run_script P f s = (res, s')"
  shows "py_sent s' = py_sent s1"
proof (cases "failure_text P e")
  case None
  with assms(4) show ?thesis by (simp add: run_script_cases [OF assms(1)])
next
  case (Some t)
  with assms(4) have "fail P t None SEVERITY_ERROR s1 = (res, s')" by (simp add: run_script_cases [OF assms(1)])
  then show ?thesis
    using half_closed_sent [of s1 P] half_closed_sent [of "_\<lparr>py_iter := _\<rparr>" P] assms(2,3)
    by (auto simp: fail_def int32_error py_bind_def send_msg_def send_now_def finish_def Let_def split: if_splits)
qed

subsection \<open>Witnesses\<close>

definition test_python :: "string python" where
  "test_python = \<lparr>px_environ = [''GRPC_ADDRESS'' \<mapsto> ''localhost:5'', ''RUN_ID'' \<mapsto> ''r1''],
     px_first = Item (ServerMessage_Start []), px_events = (\<lambda>_. [Take, Take]),
     px_format_exc = (\<lambda>_. ''Traceback''), px_create = (\<lambda>n z. Inr (''psm_'' @ dec_nat n, replicate z (CHR 0x00))),
     px_dumps = Inr, px_loads = Inr, px_repr = (\<lambda>t. t), px_show = (\<lambda>_. ''reply''), px_range = (\<lambda>_. ''range'')\<rparr>"

definition hello_script :: "string main_func" where
  "hello_script params = Call (Call_output ''hello'') (\<lambda>_. Call Call_complete (\<lambda>_. Return))"

definition broken_script :: "string main_func" where
  "broken_script params = Call (Call_output ''hello'') (\<lambda>_. Raise (OtherError ''boom''))"

lemma hello_runs:
  "\<exists>s. run_script test_python hello_script (fresh_runner Map.empty) = (Inr (), s) \<and> py_half_closed s \<and>
     py_sent s = quiet_msgs"
proof -
  have "case run_script test_python hello_script (fresh_runner Map.empty) of (r, s) \<Rightarrow>
      r = Inr () \<and> py_half_closed s \<and> py_sent s = quiet_msgs" by code_simp
  then show ?thesis by (auto split: prod.splits)
qed

lemma broken_runs:
  "\<exists>s1 s. main_body test_python broken_script (fresh_runner Map.empty) = (Inl (OtherError ''boom''), s1) \<and>
     \<not> py_finished s1 \<and>
     run_script test_python broken_script (fresh_runner Map.empty) = (Inr (), s) \<and> py_half_closed s"
proof -
  have "case main_body test_python broken_script (fresh_runner Map.empty) of (r, s1) \<Rightarrow>
      r = Inl (OtherError ''boom'') \<and> \<not> py_finished s1" by code_simp
  moreover have "case run_script test_python broken_script (fresh_runner Map.empty) of (r, s) \<Rightarrow>
      r = Inr () \<and> py_half_closed s" by code_simp
  ultimately show ?thesis by (auto split: prod.splits)
qed

lemma script_decides_its_run_witness:
  "\<exists>s. run_script test_python broken_script (fresh_runner Map.empty) = (Inr (), s) \<and>
     last_error (py_sent s) = Some ''boom'' \<and> run_verdict False 0 None (py_sent s) = ''failed''"
proof -
  obtain s1 s where m: "main_body test_python broken_script (fresh_runner Map.empty) = (Inl (OtherError ''boom''), s1)"
    and r: "run_script test_python broken_script (fresh_runner Map.empty) = (Inr (), s)"
    and h: "\<not> py_finished s1" "py_half_closed s" using broken_runs by blast
  have "failure_text test_python (OtherError ''boom'') = Some ''boom''" by (simp add: failure_text_def)
  with script_decides_its_run [OF m r] r h show ?thesis by blast
qed


definition cautious_script :: "string main_func" where
  "cautious_script params = Call (Call_warn ''row 7 skipped'') (\<lambda>_. Call Call_complete (\<lambda>_. Return))"

lemma warned_run_fails_witness:
  "\<exists>s. run_script test_python cautious_script (fresh_runner Map.empty) = (Inr (), s) \<and>
     run_verdict False 0 None (py_sent s) = ''failed''"
proof -
  let ?s0 = "(fresh_runner Map.empty)\<lparr>py_stream := True, py_reader := Reading\<rparr>"
  have conn: "connect test_python (fresh_runner Map.empty) = (Inr [], ?s0)"
    by (simp add: connect_def test_python_def start_reader_thread_def fresh_runner_def)
  have s0: "told_inv ?s0" "\<not> py_finished ?s0"
    using fresh_told [of Map.empty] by (auto elim: told_inv_cong) (simp add: fresh_runner_def)
  have "case perform test_python (Call_warn ''row 7 skipped'') ?s0 of (x, s1) \<Rightarrow> x = Inr Got_nothing \<and>
      (case exec test_python (Call Call_complete (\<lambda>_. Return)) s1 of (r, s) \<Rightarrow> r = Inr () \<and> py_half_closed s)"
    by code_simp
  then obtain s1 s where s1: "perform test_python (Call_warn ''row 7 skipped'') ?s0 = (Inr Got_nothing, s1)"
    and s: "exec test_python (Call Call_complete (\<lambda>_. Return)) s1 = (Inr (), s)" "py_half_closed s"
    by (auto split: prod.splits)
  have "main_body test_python cautious_script (fresh_runner Map.empty) = (Inr (), s)"
    using s1 s(1) by (simp add: main_body_def py_bind_def conn cautious_script_def)
  then have "run_script test_python cautious_script (fresh_runner Map.empty) = (Inr (), s)"
    by (simp add: run_script_cases)
  with warned_run_fails [OF s0 s1 s] show ?thesis by blast
qed

end
