(* ===== verification/PyCache.thy ===== *)
theory PyCache
  imports PyScript
begin

section \<open>PyCache: objects shared between scripts\<close>

text \<open>
  The shared cache seen from the scripts: \<open>cache_set\<close>, \<open>cache_get\<close>, \<open>cache_release\<close> and the cleanup
  at exit of \<^verbatim>\<open>runner.py\<close>, together with the registry the server keeps (\<open>Cache\<close>). An object one
  script has cached comes back in another as long as the first one holds it; a \<open>cache_set\<close> that
  fails leaves nothing behind; and the owner's release takes the memory away from the others. The
  last part carries the rows of a database reply to the script.
\<close>

subsection \<open>What leaves shared memory alone\<close>

definition mem_part :: "runner \<Rightarrow> (string \<rightharpoonup> string) \<times> (string \<times> string) list \<times> string set" where
  "mem_part s = (py_shm s, py_refs s, py_owned s)"

lemma mem_part_frame [simp]:
  "mem_part (s\<lparr>py_iter := it\<rparr>) = mem_part s" "mem_part (s\<lparr>py_sent := ms\<rparr>) = mem_part s"
  "mem_part (s\<lparr>py_half_closed := b\<rparr>) = mem_part s" "mem_part (s\<lparr>py_cancel := b\<rparr>) = mem_part s"
  "mem_part (s\<lparr>py_responses := q\<rparr>) = mem_part s" "mem_part (s\<lparr>py_reader := t\<rparr>) = mem_part s"
  "mem_part (s\<lparr>py_reader_error := e\<rparr>) = mem_part s" "mem_part (s\<lparr>py_clock := n\<rparr>) = mem_part s"
  "mem_part (start_reader_thread s) = mem_part s" "mem_part (reader_step i s) = mem_part s"
  "mem_part (transport_take s) = mem_part s"
  by (auto simp: mem_part_def start_reader_thread_def reader_step_def transport_take_def it_next_def
      split: stream_item.split list.split)

lemma event_mem [simp]: "mem_part (event_step ev s) = mem_part s"
  by (cases ev) simp_all

lemma events_mem [simp]: "mem_part (fold event_step evs s) = mem_part s"
  by (induction evs arbitrary: s) simp_all

lemma elapse_mem [simp]: "mem_part (elapse P s) = mem_part s"
  by (simp add: elapse_def)

lemma send_mem: "send_msg P force m s = (r, s') \<Longrightarrow> mem_part s' = mem_part s"
  by (auto simp: send_msg_def send_now_def split: if_splits)

lemma take_mem: "take_response what s = (r, s') \<Longrightarrow> mem_part s' = mem_part s"
  by (auto simp: take_response_def split: list.splits option.splits)

lemma recv_mem: "recv_response P what s = (r, s') \<Longrightarrow> mem_part s' = mem_part s"
  by (auto simp: recv_response_def dest: take_mem split: if_splits)

lemma bind_mem:
  assumes "py_bind f g s = (r, s')" "\<And>r' t. f s = (r', t) \<Longrightarrow> mem_part t = mem_part s"
    and "\<And>x t r' t'. g x t = (r', t') \<Longrightarrow> mem_part t' = mem_part t"
  shows "mem_part s' = mem_part s"
  using assms(1)
proof (cases rule: py_bind_cases)
  case (raised e)
  from assms(2) [OF raised(1)] show ?thesis .
next
  case (returned x s1)
  from assms(2) [OF returned(1)] assms(3) [OF returned(2)] show ?thesis by simp
qed

lemma request_mem: "request P m what s = (r, s') \<Longrightarrow> mem_part s' = mem_part s"
  unfolding request_def by (erule bind_mem) (erule send_mem, erule recv_mem)

lemma create_ack_same: "create_ack P resp s = (r, s') \<Longrightarrow> s' = s"
  by (cases resp) (auto simp: create_ack_def expected_def split: if_splits)

lemma register_mem: "register_block P k n name s = (r, s') \<Longrightarrow> mem_part s' = mem_part s"
  unfolding register_block_def by (erule bind_mem) (erule request_mem, drule create_ack_same, simp)

subsection \<open>Setting\<close>

text \<open>What \<open>cache_set\<close> does, by the way it ends.\<close>

lemma cache_set_cases:
  assumes "cache_set P k x s = (r, s')"
  obtains (early) "\<exists>e. r = Inl e" "s' = s"
  | (rejected) data name room s1 e where "px_dumps P x = Inr data"
      "px_create P (py_clock s) (length data) = Inr (name, room)" "r = Inl e"
      "register_block P k (length data) name
         (s\<lparr>py_shm := (py_shm s)(name \<mapsto> data @ drop (length data) room)\<rparr>) = (Inl e, s1)"
      "s' = unlink name s1"
  | (registered) data name room s1 where "px_dumps P x = Inr data"
      "px_create P (py_clock s) (length data) = Inr (name, room)" "r = Inr ()"
      "register_block P k (length data) name
         (s\<lparr>py_shm := (py_shm s)(name \<mapsto> data @ drop (length data) room)\<rparr>) = (Inr (), s1)"
      "s' = s1\<lparr>py_refs := AList.update k name (py_refs s1), py_owned := insert k (py_owned s1)\<rparr>"
  using assms by (auto simp: cache_set_def split: if_splits sum.splits prod.splits)

text \<open>C18: \<open>cache_set\<close> shares the object or nothing. When it returns, the block it created holds the
  pickled object, and the key is open in this process and owned by it; the others' blocks are as they
  were. When it raises, for whatever reason (pickle, the operating system, a cancel, a refusal or a
  lost connection), shared memory, the open blocks and the owned keys are exactly what they were
  before: the block is not leaked.\<close>

theorem cache_set_all_or_nothing:
  assumes "cache_set P k x s = (r, s')"
    and "\<And>n name room. px_create P (py_clock s) n = Inr (name, room) \<Longrightarrow> py_shm s name = None"
  shows "case r of
      Inl e \<Rightarrow> py_shm s' = py_shm s \<and> py_refs s' = py_refs s \<and> py_owned s' = py_owned s
    | Inr _ \<Rightarrow> \<exists>data name room. px_dumps P x = Inr data \<and>
        px_create P (py_clock s) (length data) = Inr (name, room) \<and>
        py_shm s' = (py_shm s)(name \<mapsto> data @ drop (length data) room) \<and>
        map_of (py_refs s') k = Some name \<and> py_owned s' = insert k (py_owned s)"
  using assms(1)
proof (cases rule: cache_set_cases)
  case (rejected data name room s1 e)
  have "py_shm s name = None" by (rule assms(2) [OF rejected(2)])
  then show ?thesis using register_mem [OF rejected(4)] rejected(3,5)
    by (auto simp: mem_part_def unlink_def fun_upd_idem)
next
  case (registered data name room s1)
  show ?thesis using register_mem [OF registered(4)] registered(1,2,3,5)
    by (auto simp: mem_part_def update_conv')
qed auto

text \<open>The message it sends.\<close>

lemma send_event_puts:
  assumes "told_inv s" "\<not> py_finished s" "send_msg P False m s = (Inr x, s')"
  shows "puts s' = puts s @ [m]"
  using elapse_told [OF assms(1), of P] assms(2,3) by (auto simp: send_msg_def send_now_def split: if_splits)

lemma recv_puts:
  assumes "told_inv s" "recv_response P what s = (r, s')"
  shows "puts s' = puts s"
proof -
  have "told_inv (start_reader_thread s)" by (rule told_inv_cong [OF assms(1)]) simp
  note t = elapse_told(2) [OF this, of P]
  have "puts (start_reader_thread s) = puts s" using told_part_puts [of "start_reader_thread s" s] by simp
  with t assms(2) show ?thesis
    by (auto simp: recv_response_def take_response_def puts_def split: if_splits list.splits option.splits)
qed

lemma request_puts:
  assumes "told_inv s" "\<not> py_finished s" "\<not> is_status m" "request P m what s = (Inr x, s')"
  shows "puts s' = puts s @ [m]"
proof -
  obtain y s1 where sent: "send_msg P False m s = (Inr y, s1)" and got: "recv_response P what s1 = (Inr x, s')"
    using assms(4) unfolding request_def py_bind_Inr by blast
  have "told_inv s1" using keeps_inv [OF send_event_told [OF assms(1,3) sent]] .
  from recv_puts [OF this got] send_event_puts [OF assms(1,2) sent] show ?thesis by simp
qed

lemma register_ok:
  assumes "told_inv s" "\<not> py_finished s" "register_block P k n name s = (Inr (), s')"
  shows "puts s' = puts s @ [ClientMessage_CacheCreate k (int n) name]"
proof -
  obtain resp s1 where q: "request P (ClientMessage_CacheCreate k (int n) name) ''cache create'' s = (Inr resp, s1)"
    and ack: "create_ack P resp s1 = (Inr (), s')"
    using assms(3) unfolding register_block_def py_bind_Inr by blast
  from create_ack_same [OF ack] request_puts [OF assms(1,2) _ q] show ?thesis by simp
qed

subsection \<open>Getting\<close>

text \<open>A key its holder does not give up stays registered, under the same block.\<close>

lemma held_block_stays:
  assumes "range_order (cm_blocks cm) (ord (cm_blocks cm))" "op_run p \<noteq> r" "cache_inv cm"
    and "cm_blocks cm k = Some b" "r \<in> set (cb_Refs b)"
  shows "\<exists>b'. cm_blocks (snd (cache_do ord p cm)) k = Some b' \<and> cb_ShmName b' = cb_ShmName b \<and>
     cb_Size b' = cb_Size b \<and> r \<in> set (cb_Refs b')"
proof (cases p)
  case (OpRegister k' n sz q)
  then show ?thesis using assms by (auto simp: Register_def split: option.splits)
next
  case (OpLookup k' q)
  then show ?thesis using assms by (auto simp: LookupAndRef_def split: option.splits)
next
  case (OpRelease k' q)
  have "r \<in> set (remove1 q (cb_Refs b))" using assms(2,5) OpRelease by simp
  then have "without_ref q (Some b) = Some (b\<lparr>cb_Refs := remove1 q (cb_Refs b)\<rparr>)"
    by (auto simp: without_ref_def)
  with \<open>r \<in> set (remove1 q (cb_Refs b))\<close> show ?thesis using assms(4,5)
    by (auto simp: OpRelease Release_blocks)
next
  case (OpCleanup q)
  have r: "r \<in> set (remove1 q (cb_Refs b))" using assms(2,5) OpCleanup by simp
  then have "without_ref q (Some b) = Some (b\<lparr>cb_Refs := remove1 q (cb_Refs b)\<rparr>)"
    by (auto simp: without_ref_def)
  with r show ?thesis using assms(1,4,5)
    by (simp add: OpCleanup CleanupRun_blocks range_order_def)
qed

lemma held_block_stays_run:
  assumes "\<And>m. finite (dom m) \<Longrightarrow> range_order m (ord m)" "cache_ok cm" "r \<notin> op_run ` set ps"
    and "cm_blocks cm k = Some b" "r \<in> set (cb_Refs b)"
  shows "\<exists>b'. cm_blocks (snd (ops_run (cache_do ord) ps cm)) k = Some b' \<and> cb_ShmName b' = cb_ShmName b \<and>
     cb_Size b' = cb_Size b \<and> r \<in> set (cb_Refs b')"
  using assms(2-5)
proof (induction ps arbitrary: cm b)
  case Nil
  then show ?case by simp
next
  case (Cons p ps)
  obtain x cm1 where p: "cache_do ord p cm = (x, cm1)" by force
  have ok: "cache_inv cm" "range_order (cm_blocks cm) (ord (cm_blocks cm))"
    using Cons.prems(1) assms(1) by (auto simp: cache_ok_def)
  have "op_run p \<noteq> r" using Cons.prems(2) by auto
  from held_block_stays [where ord = ord, OF ok(2) this ok(1) Cons.prems(3,4)] obtain b1 where
    b1: "cm_blocks cm1 k = Some b1" "cb_ShmName b1 = cb_ShmName b" "cb_Size b1 = cb_Size b" "r \<in> set (cb_Refs b1)"
    by (auto simp: p)
  have "cache_ok cm1" using cache_do_ok [OF Cons.prems(1), of ord p] by (simp add: p)
  from Cons.IH [OF this _ b1(1,4)] Cons.prems(2) b1(2,3) show ?case
    by (simp add: p split: prod.splits) fastforce
qed

text \<open>C17: An object a script has cached comes back in another one. When \<open>cache_set\<close> has returned, it
  has sent one registration, of a block that holds the pickled object; once the server has taken that
  registration, then as long as the run neither releases the key nor is cleaned up, and whatever the
  other runs register, look up and release in between, in whatever order a cleanup visits the keys, a
  lookup by any run finds the same block with its size, and, while the operating system keeps the
  block, \<open>cache_get\<close> answers that reply with the object itself.\<close>

theorem cached_object_comes_back:
  assumes "told_inv s" "\<not> py_finished s" "cache_set P k x s = (Inr (), s')"
    and "\<And>data. px_dumps P x = Inr data \<Longrightarrow> px_loads Q data = Inr x"
    and "\<And>m. finite (dom m) \<Longrightarrow> range_order m (ord m)" "cache_ok cm" "r1 \<notin> op_run ` set ps"
  shows "\<exists>name n. puts s' = puts s @ [ClientMessage_CacheCreate k n name] \<and>
     (\<forall>cm1. Register k name n r1 cm = (True, cm1) \<longrightarrow>
        (\<exists>cm2. LookupAndRef k r2 (snd (ops_run (cache_do ord) ps cm1)) = ((name, n, True), cm2)) \<and>
        (\<forall>t. py_shm t name = py_shm s' name \<longrightarrow>
           fst (lookup_reply Q k (ServerMessage_CacheLookupResponse k True name n) t) = Inr x))"
  using assms(3)
proof (cases rule: cache_set_cases)
  case (registered data name room s1)
  let ?s = "s\<lparr>py_shm := (py_shm s)(name \<mapsto> data @ drop (length data) room)\<rparr>"
  let ?n = "int (length data)"
  have inv: "told_inv ?s" by (rule told_inv_cong [OF assms(1)]) simp
  have "puts s1 = puts ?s @ [ClientMessage_CacheCreate k ?n name]"
    using register_ok [OF inv _ registered(4)] assms(2) by simp
  then have puts: "puts s' = puts s @ [ClientMessage_CacheCreate k ?n name]" by (simp add: registered(5) puts_def)
  have shm: "py_shm s' name = Some (data @ drop (length data) room)"
    using register_mem [OF registered(4)] by (simp add: registered(5) mem_part_def)
  have loads: "px_loads Q data = Inr x" by (rule assms(4) [OF registered(1)])
  have again: "fst (lookup_reply Q k (ServerMessage_CacheLookupResponse k True name ?n) t) = Inr x"
    if "py_shm t name = py_shm s' name" for t
    by (simp add: lookup_reply_def open_block_def that shm py_prefix_def loads)
  have found: "\<exists>cm2. LookupAndRef k r2 (snd (ops_run (cache_do ord) ps cm1)) = ((name, ?n, True), cm2)"
    if reg: "Register k name ?n r1 cm = (True, cm1)" for cm1
  proof -
    have b: "cm_blocks cm1 k = Some \<lparr>cb_Key = k, cb_ShmName = name, cb_Size = ?n, cb_OwnerRun = r1, cb_Refs = [r1]\<rparr>"
      using reg by (auto simp: Register_def split: option.splits)
    have "cache_ok cm1" using cache_do_ok [OF assms(6), of ord "OpRegister k name ?n r1"] by (simp add: reg)
    from held_block_stays_run [where ord = ord, OF assms(5) this assms(7) b] show ?thesis
      by (auto simp: LookupAndRef_def)
  qed
  from puts again found show ?thesis by blast
qed auto

subsection \<open>Releasing\<close>

text \<open>The server keeps a block while some run holds it; the owner's library does not ask: its release
  unlinks the memory at once. What the registry still promises to the others is then gone.\<close>

lemma release_mem:
  assumes "cache_release P k s = (r, s')"
  shows "mem_part s' = (case map_of (py_refs s) k of
      None \<Rightarrow> mem_part s
    | Some name \<Rightarrow> if k \<in> py_owned s
        then ((py_shm s)(name := None), AList.delete k (py_refs s), py_owned s - {k})
        else (py_shm s, AList.delete k (py_refs s), py_owned s))"
  using send_mem [OF assms [unfolded cache_release_def]]
  by (auto simp: mem_part_def unlink_def Let_def split: option.splits if_splits)

theorem owner_release_takes_memory_away:
  assumes "map_of (py_refs s) k = Some name" "k \<in> py_owned s" "cache_release P k s = (r, s')"
    and "cache_inv cm" "cm_blocks cm k = Some b" "cb_ShmName b = name" "{r1, r2} \<subseteq> set (cb_Refs b)" "r1 \<noteq> r2"
  shows "\<exists>cm1. LookupAndRef k r3 (snd (Release k r1 cm)) = ((name, cb_Size b, True), cm1) \<and>
     (\<forall>t. py_shm t = py_shm s' \<longrightarrow>
        fst (lookup_reply Q k (ServerMessage_CacheLookupResponse k True name (cb_Size b)) t) = Inl (block_gone k name))"
proof -
  have gone: "py_shm s' name = None"
    using release_mem [OF assms(3)] assms(1,2) by (simp add: mem_part_def)
  have "r2 \<in> set (remove1 r1 (cb_Refs b))" using assms(7,8) by simp
  then have "cm_blocks (snd (Release k r1 cm)) k = Some (b\<lparr>cb_Refs := remove1 r1 (cb_Refs b)\<rparr>)"
    using assms(5) by (auto simp: Release_blocks without_ref_def)
  then show ?thesis
    using gone assms(6) by (auto simp: LookupAndRef_def lookup_reply_def open_block_def)
qed

text \<open>The cleanup at exit unlinks exactly the blocks of the owned keys, and doing it again does nothing.\<close>

lemma cleanup_fold:
  "fold (\<lambda>(key, name) t. if key \<in> py_owned t then unlink name t else t) kns s =
     s\<lparr>py_shm := (\<lambda>n. if \<exists>k \<in> py_owned s. (k, n) \<in> set kns then None else py_shm s n)\<rparr>"
proof (induction kns arbitrary: s)
  case (Cons kn kns)
  obtain k n where kn: "kn = (k, n)" by force
  have fold: "fold (\<lambda>(key, name) t. if key \<in> py_owned t then unlink name t else t) (kn # kns) s =
      fold (\<lambda>(key, name) t. if key \<in> py_owned t then unlink name t else t) kns
        (if k \<in> py_owned s then unlink n s else s)" by (simp add: kn)
  show ?case unfolding fold Cons.IH by (auto simp: kn unlink_def fun_eq_iff intro!: runner.fold_congs)
qed simp

lemma cleanup_cache_eq:
  "cleanup_cache s = s\<lparr>py_shm := (\<lambda>n. if \<exists>k \<in> py_owned s. (k, n) \<in> set (py_refs s) then None else py_shm s n),
     py_refs := [], py_owned := {}\<rparr>"
  by (simp add: cleanup_cache_def cleanup_fold)

lemma cleanup_cache_idem: "cleanup_cache (cleanup_cache s) = cleanup_cache s"
  by (simp add: cleanup_cache_eq)

subsection \<open>Rows of the database\<close>

lemma row_dicts_rect:
  "\<forall>vs \<in> set rows. length vs = length cols \<Longrightarrow>
     row_dicts cols rows = Inr (map (\<lambda>vs. fold (\<lambda>(c, v) d. AList.update c v d) (zip cols vs) []) rows)"
  by (induction rows) (simp_all add: row_dict_def)

lemma dict_lookup:
  "distinct (map fst kvs) \<Longrightarrow> map_of (fold (\<lambda>(c, v) d. AList.update c v d) kvs d) = map_of d ++ map_of kvs"
proof (induction kvs arbitrary: d)
  case (Cons kv kvs)
  obtain c v where kv: "kv = (c, v)" by force
  with Cons have "map_of (fold (\<lambda>(c, v) d. AList.update c v d) (kv # kvs) d) = map_of (AList.update c v d) ++ map_of kvs"
    by simp
  moreover have "c \<notin> dom (map_of kvs)" using Cons.prems by (auto simp: kv dom_map_of_conv_image_fst)
  ultimately show ?case by (auto simp: kv update_conv' map_add_def fun_eq_iff split: option.splits)
qed simp

text \<open>C39: A query of a script comes back as the database answered it. The server's reply to it never
  makes the library's strict \<open>zip\<close> fail: the script gets either the server's error as an exception or
  one dict per row, and then the query ran, every row of the result was scanned and none is missing,
  and with distinct column names each dict maps every column to its value in that row, NULL to the
  empty string.\<close>

theorem query_rows_reach_the_script:
  assumes "rc_stream (chan_at a sv) = Some s" "sv_db sv = Some db"
    and "\<And>n row vs. sd_scanTexts (ox_sql out) n row = Inr vs \<Longrightarrow> length vs = n"
    and "\<And>e. (\<exists>n row. sd_scanTexts (ox_sql out) n row = Inl e) \<or>
       (\<exists>q ps d rows. fst (sd_query (ox_sql out) q ps d) = Inl e \<or>
          fst (sd_query (ox_sql out) q ps d) = Inr rows \<and> (rw_Err rows = Some e \<or> rw_Columns rows = Inl e)) \<Longrightarrow>
       error_text e \<noteq> []"
  shows "\<exists>cols rs err sv2. handleDbQuery out r a sql ps sv =
       Ret (stream_Send out s (ServerMessage_DbQueryResponse cols rs err) sv2) \<and>
     (\<forall>t. query_reply P (ServerMessage_DbQueryResponse cols rs err) t =
        (if err \<noteq> [] then Inl (RuntimeError (''SQL error: '' @ err))
         else Inr (map (\<lambda>vs. fold (\<lambda>(c, v) d. AList.update c v d) (zip cols vs) []) rs), t)) \<and>
     (err = [] \<longrightarrow> (\<exists>rows. fst (sd_query (ox_sql out) sql (map SqlText ps) db) = Inr rows \<and>
        rw_Columns rows = Inr cols \<and> rw_Err rows = None \<and>
        list_all2 (\<lambda>row vals. \<exists>vs. sd_scanTexts (ox_sql out) (length cols) row = Inr vs \<and> vals = map null_string vs)
          (rw_Rows rows) rs)) \<and>
     (distinct cols \<longrightarrow> (\<forall>vs \<in> set rs. map_of (fold (\<lambda>(c, v) d. AList.update c v d) (zip cols vs) []) = map_of (zip cols vs)))"
proof -
  have "\<exists>cols rs err sv2. handleDbQuery out r a sql ps sv =
       Ret (stream_Send out s (ServerMessage_DbQueryResponse cols rs err) sv2) \<and>
     (\<forall>row \<in> set rs. length row = length cols) \<and>
     (err = [] \<longrightarrow> (\<exists>rows. fst (sd_query (ox_sql out) sql (map SqlText ps) db) = Inr rows \<and>
        rw_Columns rows = Inr cols \<and> rw_Err rows = None \<and>
        list_all2 (\<lambda>row vals. \<exists>vs. sd_scanTexts (ox_sql out) (length cols) row = Inr vs \<and> vals = map null_string vs)
          (rw_Rows rows) rs))"
    by (rule query_answers_complete [OF assms(1,2)]) (rule assms(3), assumption, rule assms(4), assumption)
  then obtain cols rs err sv2 where h: "handleDbQuery out r a sql ps sv =
       Ret (stream_Send out s (ServerMessage_DbQueryResponse cols rs err) sv2)"
    and rect: "\<forall>vs \<in> set rs. length vs = length cols"
    and ok: "err = [] \<longrightarrow> (\<exists>rows. fst (sd_query (ox_sql out) sql (map SqlText ps) db) = Inr rows \<and>
        rw_Columns rows = Inr cols \<and> rw_Err rows = None \<and>
        list_all2 (\<lambda>row vals. \<exists>vs. sd_scanTexts (ox_sql out) (length cols) row = Inr vs \<and> vals = map null_string vs)
          (rw_Rows rows) rs)"
    by blast
  have "map_of (fold (\<lambda>(c, v) d. AList.update c v d) (zip cols vs) []) = map_of (zip cols vs)"
    if "distinct cols" "vs \<in> set rs" for vs
    using that rect by (subst dict_lookup) simp_all
  then have dicts: "distinct cols \<longrightarrow> (\<forall>vs \<in> set rs.
      map_of (fold (\<lambda>(c, v) d. AList.update c v d) (zip cols vs) []) = map_of (zip cols vs))" by blast
  have "query_reply P (ServerMessage_DbQueryResponse cols rs err) t =
      (if err \<noteq> [] then Inl (RuntimeError (''SQL error: '' @ err))
       else Inr (map (\<lambda>vs. fold (\<lambda>(c, v) d. AList.update c v d) (zip cols vs) []) rs), t)" for t
    by (simp add: query_reply_def row_dicts_rect [OF rect])
  with h ok dicts show ?thesis by blast
qed

subsection \<open>Witnesses\<close>

text \<open>A script that is connected, with the reply to its registration in the response queue.\<close>

definition sharing_runner :: "ServerMessage \<Rightarrow> runner" where
  "sharing_runner reply = (fresh_runner [''x9'' \<mapsto> ''other''])\<lparr>py_stream := True, py_reader := Reading,
     py_responses := [Some reply]\<rparr>"

lemma sharing_runner_told: "told_inv (sharing_runner reply)" "\<not> py_finished (sharing_runner reply)"
  unfolding sharing_runner_def by (rule told_inv_cong [OF fresh_told]) (simp_all add: told_part_def fresh_runner_def)

lemma cache_set_all_or_nothing_witness:
  "\<exists>e s'. cache_set test_python ''k'' ''data''
       (sharing_runner (ServerMessage_CacheCreateResponse ''k'' CACHE_CREATE_DUPLICATE_KEY ''taken'')) = (Inl e, s') \<and>
     py_shm s' = [''x9'' \<mapsto> ''other''] \<and> py_refs s' = []"
proof -
  let ?s = "sharing_runner (ServerMessage_CacheCreateResponse ''k'' CACHE_CREATE_DUPLICATE_KEY ''taken'')"
  have "case cache_set test_python ''k'' ''data'' ?s of (r, s') \<Rightarrow> r = Inl (RuntimeError ''cache_set rejected: taken'')"
    by code_simp
  then obtain s' where c: "cache_set test_python ''k'' ''data'' ?s = (Inl (RuntimeError ''cache_set rejected: taken''), s')"
    by (auto split: prod.splits)
  have fresh: "py_shm ?s name = None" if "px_create test_python (py_clock ?s) n = Inr (name, room)" for n name room
    using that by (auto simp: test_python_def sharing_runner_def fresh_runner_def dec_nat.simps digit_char_def)
  from cache_set_all_or_nothing [OF c fresh] c show ?thesis
    by (auto simp: sharing_runner_def fresh_runner_def)
qed

lemma cached_object_comes_back_witness:
  "\<exists>s' name n cm1 cm2. cache_set test_python ''k'' ''data''
       (sharing_runner (ServerMessage_CacheCreateResponse ''k'' CACHE_CREATE_OK [])) = (Inr (), s') \<and>
     Register ''k'' name n ''a'' (NewCacheManager False {}) = (True, cm1) \<and>
     LookupAndRef ''k'' ''b'' (snd (ops_run (cache_do sorted_keys) [OpLookup ''k'' ''c'', OpCleanup ''c''] cm1)) =
       ((name, n, True), cm2) \<and>
     fst (lookup_reply test_python ''k'' (ServerMessage_CacheLookupResponse ''k'' True name n) s') = Inr ''data''"
proof -
  let ?s = "sharing_runner (ServerMessage_CacheCreateResponse ''k'' CACHE_CREATE_OK [])"
  have "case cache_set test_python ''k'' ''data'' ?s of (r, s') \<Rightarrow> r = Inr ()" by code_simp
  then obtain s' where c: "cache_set test_python ''k'' ''data'' ?s = (Inr (), s')" by (auto split: prod.splits)
  have loads: "px_loads test_python d = Inr x" if "px_dumps test_python x = Inr d" for d and x :: string
    using that by (simp add: test_python_def)
  have other: "''a'' \<notin> op_run ` set [OpLookup ''k'' ''c'', OpCleanup ''c'']" by simp
  from cached_object_comes_back [OF sharing_runner_told c loads sorted_keys_range NewCacheManager_ok other, of False "{}" "''b''"]
  obtain name n where n: "\<forall>cm1. Register ''k'' name n ''a'' (NewCacheManager False {}) = (True, cm1) \<longrightarrow>
        (\<exists>cm2. LookupAndRef ''k'' ''b'' (snd (ops_run (cache_do sorted_keys) [OpLookup ''k'' ''c'', OpCleanup ''c''] cm1)) =
           ((name, n, True), cm2)) \<and>
        (\<forall>t. py_shm t name = py_shm s' name \<longrightarrow>
           fst (lookup_reply test_python ''k'' (ServerMessage_CacheLookupResponse ''k'' True name n) t) = Inr ''data'')" by blast
  obtain cm1 where "Register ''k'' name n ''a'' (NewCacheManager False {}) = (True, cm1)"
    by (simp add: Register_def NewCacheManager_def)
  with n c show ?thesis by blast
qed

lemma owner_release_takes_memory_away_witness:
  "\<exists>s' cm1. cache_release test_python ''k'' (sharing_runner ServerMessage_Cancel\<lparr>py_shm := [''psm_1'' \<mapsto> ''data''],
       py_refs := [(''k'', ''psm_1'')], py_owned := {''k''}\<rparr>) = (Inr (), s') \<and>
     LookupAndRef ''k'' ''c'' (snd (Release ''k'' ''a'' two_blocks)) = ((''psm_1'', 64, True), cm1) \<and>
     fst (lookup_reply test_python ''k'' (ServerMessage_CacheLookupResponse ''k'' True ''psm_1'' 64) s') =
       Inl (block_gone ''k'' ''psm_1'')"
proof -
  let ?s = "sharing_runner ServerMessage_Cancel\<lparr>py_shm := [''psm_1'' \<mapsto> ''data''],
       py_refs := [(''k'', ''psm_1'')], py_owned := {''k''}\<rparr>"
  let ?b = "\<lparr>cb_Key = ''k'', cb_ShmName = ''psm_1'', cb_Size = 64, cb_OwnerRun = ''a'', cb_Refs = [''a'', ''b'']\<rparr>"
  have "case cache_release test_python ''k'' ?s of (r, s') \<Rightarrow> r = Inr ()" by code_simp
  then obtain s' where c: "cache_release test_python ''k'' ?s = (Inr (), s')" by (auto split: prod.splits)
  have refs: "map_of (py_refs ?s) ''k'' = Some ''psm_1''" "''k'' \<in> py_owned ?s" by simp_all
  have b: "cache_inv two_blocks" "cm_blocks two_blocks ''k'' = Some ?b" "cb_ShmName ?b = ''psm_1''"
    "{''a'', ''b''} \<subseteq> set (cb_Refs ?b)" "''a'' \<noteq> ''b''"
    using two_blocks_ok by (simp_all add: cache_ok_def two_blocks_def)
  from owner_release_takes_memory_away [OF refs c b, of "''c''" test_python] c show ?thesis by auto
qed

lemma query_rows_reach_the_script_witness:
  "\<exists>cols rs err sv2. handleDbQuery test_out ''r1'' 0 ''SELECT'' [] dialog_server =
       Ret (stream_Send test_out 5 (ServerMessage_DbQueryResponse cols rs err) sv2) \<and>
     (err = [] \<longrightarrow> length rs = 2) \<and>
     (\<exists>r. query_reply test_python (ServerMessage_DbQueryResponse cols rs err) (sharing_runner ServerMessage_Cancel) =
        (r, sharing_runner ServerMessage_Cancel))"
proof -
  have db: "sv_db dialog_server = Some ()"
    by (simp add: dialog_server_def SetDialogHandler_def one_run_def RegisterRun_def
        fresh_server_def NewGRPCServer_def)
  have len: "length rs = 2" if "list_all2 R (rw_Rows rows) rs"
    "fst (sd_query (ox_sql test_out) ''SELECT'' (map SqlText []) ()) = Inr rows" for rs rows and R :: "string option list \<Rightarrow> string list \<Rightarrow> bool"
    using that by (auto simp: test_out_def test_sql_def dest: list_all2_lengthD)
  have "length vs = n" if "sd_scanTexts (ox_sql test_out) n row = Inr vs" for n row vs
    using that by (auto simp: test_out_def test_sql_def split: if_splits)
  moreover have "error_text e \<noteq> []" if "(\<exists>n row. sd_scanTexts (ox_sql test_out) n row = Inl e) \<or>
       (\<exists>q ps d rows. fst (sd_query (ox_sql test_out) q ps d) = Inl e \<or>
          fst (sd_query (ox_sql test_out) q ps d) = Inr rows \<and> (rw_Err rows = Some e \<or> rw_Columns rows = Inl e))" for e
    using that by (auto simp: test_out_def test_sql_def split: if_splits)
  ultimately obtain cols rs err sv2 where h: "handleDbQuery test_out ''r1'' 0 ''SELECT'' [] dialog_server =
       Ret (stream_Send test_out 5 (ServerMessage_DbQueryResponse cols rs err) sv2)"
    and q: "\<forall>t. query_reply test_python (ServerMessage_DbQueryResponse cols rs err) t =
        (if err \<noteq> [] then Inl (RuntimeError (''SQL error: '' @ err))
         else Inr (map (\<lambda>vs. fold (\<lambda>(c, v) d. AList.update c v d) (zip cols vs) []) rs), t)"
    and ok: "err = [] \<longrightarrow> (\<exists>rows. fst (sd_query (ox_sql test_out) ''SELECT'' (map SqlText []) ()) = Inr rows \<and>
        rw_Columns rows = Inr cols \<and> rw_Err rows = None \<and>
        list_all2 (\<lambda>row vals. \<exists>vs. sd_scanTexts (ox_sql test_out) (length cols) row = Inr vs \<and> vals = map null_string vs)
          (rw_Rows rows) rs)"
    using query_rows_reach_the_script [OF dialog_server_stream db, of test_out "''r1''" "''SELECT''" "[]" test_python] by blast
  from ok len have "err = [] \<longrightarrow> length rs = 2" by blast
  with h q show ?thesis by blast
qed

end
