(* ===== verification/Conversation.thy ===== *)
theory Conversation
  imports PyScript
begin

section \<open>Conversation: a script's threads and the server, on one stream\<close>

text \<open>
  The two ends of one stream as one system: the threads of a script, which take \<open>_request_lock\<close>
  for a request and the wait for its reply, gRPC, which takes the messages from the iterator, the
  server's handler, which answers them one by one, the reader thread, cancels, and whatever the
  server does for others. Replies carry no number: a wait takes the next reply there is. The
  invariant says which request that reply belongs to.
\<close>

subsection \<open>The system\<close>

text \<open>
  \<open>cv_lock\<close> is the thread that holds the lock, its request, and whether \<open>_send\<close> has put it on the
  iterator (it does not once the script has finished). \<open>cv_popped\<close> counts the replies waits have
  taken, \<open>cv_lost\<close> the requests whose wait gave up, \<open>cv_read\<close> what the reader has read of the
  server's half, \<open>cv_handled\<close> what the handler has handled of the script's.
\<close>

record 'd conv =
  cv_py :: runner
  cv_lock :: "(nat \<times> ClientMessage \<times> bool) option"
  cv_popped :: nat
  cv_lost :: nat
  cv_read :: nat
  cv_handled :: nat
  cv_sv :: "'d server"

text \<open>What the server has sent on stream \<open>c\<close>.\<close>

definition out_on :: "nat \<Rightarrow> 'd server \<Rightarrow> ServerMessage list" where
  "out_on c sv = map snd (filter (\<lambda>w. fst w = c) (sv_wire sv))"

inductive conv_step :: "'d outside \<Rightarrow> run_id \<Rightarrow> nat \<Rightarrow> nat \<Rightarrow> 'd conv \<Rightarrow> 'd conv \<Rightarrow> bool"
  for out :: "'d outside" and r :: run_id and a :: nat and c :: nat
where
  conv_event: "\<not> is_request m \<Longrightarrow> send_now force m (cv_py v) = (x, py) \<Longrightarrow>
    conv_step out r a c v (v\<lparr>cv_py := py\<rparr>)"
| conv_close: "conv_step out r a c v (v\<lparr>cv_py := (cv_py v)\<lparr>py_finished := True, py_iter := it_close (py_iter (cv_py v))\<rparr>\<rparr>)"
| conv_ask: "cv_lock v = None \<Longrightarrow> is_request q \<Longrightarrow> send_now False q (cv_py v) = (Inr (), py) \<Longrightarrow>
    conv_step out r a c v (v\<lparr>cv_py := py, cv_lock := Some (th, q, \<not> py_finished (cv_py v))\<rparr>)"
| conv_answer: "cv_lock v = Some (th, q, s) \<Longrightarrow> take_response what (cv_py v) = (Inr m, py) \<Longrightarrow>
    conv_step out r a c v (v\<lparr>cv_py := py, cv_lock := None, cv_popped := Suc (cv_popped v)\<rparr>)"
| conv_give_up: "cv_lock v = Some (th, q, s) \<Longrightarrow> take_response what (cv_py v) = (Inl e, py) \<Longrightarrow>
    conv_step out r a c v (v\<lparr>cv_py := py, cv_lock := None, cv_lost := cv_lost v + (if s then 1 else 0)\<rparr>)"
| conv_take: "conv_step out r a c v (v\<lparr>cv_py := transport_take (cv_py v)\<rparr>)"
| conv_handle: "cv_handled v < length (py_sent (cv_py v)) \<Longrightarrow>
    handleClientMessage out r a (py_sent (cv_py v) ! cv_handled v) (cv_sv v) = Ret (None, sv) \<Longrightarrow>
    conv_step out r a c v (v\<lparr>cv_handled := Suc (cv_handled v), cv_sv := sv\<rparr>)"
| conv_read: "cv_read v < length (out_on c (cv_sv v)) \<Longrightarrow> py_reader (cv_py v) = Reading \<Longrightarrow>
    conv_step out r a c v (v\<lparr>cv_py := reader_step (Item (out_on c (cv_sv v) ! cv_read v)) (cv_py v),
      cv_read := Suc (cv_read v)\<rparr>)"
| conv_end: "i = StreamEnd \<or> i = StreamError e \<Longrightarrow>
    conv_step out r a c v (v\<lparr>cv_py := reader_step i (cv_py v)\<rparr>)"
| conv_cancel: "SendCancel out r' (cv_sv v) = (res, sv) \<Longrightarrow> conv_step out r a c v (v\<lparr>cv_sv := sv\<rparr>)"
| conv_elsewhere: "can_serve a c sv \<Longrightarrow> out_on c sv = out_on c (cv_sv v) \<Longrightarrow>
    conv_step out r a c v (v\<lparr>cv_sv := sv\<rparr>)"

inductive_cases conv_stepE: "conv_step out r a c v w"

text \<open>Right after \<open>connect\<close>: the start message has been read, nothing was said yet.\<close>

definition conv_init :: "nat \<Rightarrow> nat \<Rightarrow> 'd conv \<Rightarrow> bool" where
  "conv_init a c v \<longleftrightarrow>
     (\<exists>shm. cv_py v = (fresh_runner shm)\<lparr>py_stream := True, py_reader := Reading\<rparr>) \<and> cv_lock v = None \<and>
     cv_popped v = 0 \<and> cv_lost v = 0 \<and> cv_handled v = 0 \<and> can_serve a c (cv_sv v) \<and>
     (\<exists>ps. out_on c (cv_sv v) = [ServerMessage_Start ps]) \<and> cv_read v = 1"

subsection \<open>Requests and replies\<close>

text \<open>The requests sent so far, oldest first, and the replies among what the server sent.\<close>

definition asked :: "'d conv \<Rightarrow> ClientMessage list" where
  "asked v = filter is_request (puts (cv_py v))"

fun is_reply :: "ServerMessage \<Rightarrow> bool" where
  "is_reply (ServerMessage_Start ps) = False"
| "is_reply ServerMessage_Cancel = False"
| "is_reply m = True"

definition replies :: "nat \<Rightarrow> 'd conv \<Rightarrow> ServerMessage list" where
  "replies c v = filter is_reply (out_on c (cv_sv v))"

definition received :: "nat \<Rightarrow> 'd conv \<Rightarrow> ServerMessage list" where
  "received c v = filter is_reply (take (cv_read v) (out_on c (cv_sv v)))"

text \<open>The replies waiting in the response queue, the sentinels left out.\<close>

definition queued :: "'d conv \<Rightarrow> ServerMessage list" where
  "queued v = List.map_filter (\<lambda>x. x) (py_responses (cv_py v))"

definition waiting :: "'d conv \<Rightarrow> nat" where
  "waiting v = (case cv_lock v of Some (th, q, s) \<Rightarrow> (if s then 1 else 0) | None \<Rightarrow> 0)"

text \<open>
  Three parts: the server has answered what it has handled, in order; what it has sent and the
  reader has read is what the waits have taken and what is queued; every request sent was answered,
  given up or is being waited for.
\<close>

definition served :: "nat \<Rightarrow> nat \<Rightarrow> 'd conv \<Rightarrow> bool" where
  "served a c v \<longleftrightarrow>
     can_serve a c (cv_sv v) \<and> cv_handled v \<le> length (py_sent (cv_py v)) \<and>
     list_all2 answers (filter is_request (take (cv_handled v) (py_sent (cv_py v)))) (replies c v)"

definition delivered :: "nat \<Rightarrow> 'd conv \<Rightarrow> bool" where
  "delivered c v \<longleftrightarrow>
     cv_read v \<le> length (out_on c (cv_sv v)) \<and>
     (\<forall>m \<in> set (drop (cv_read v) (out_on c (cv_sv v))). is_reply m \<or> m = ServerMessage_Cancel) \<and>
     cv_popped v \<le> length (received c v) \<and> queued v = drop (cv_popped v) (received c v)"

definition accounted :: "'d conv \<Rightarrow> bool" where
  "accounted v \<longleftrightarrow>
     length (asked v) \<le> cv_popped v + cv_lost v + waiting v \<and>
     (\<forall>th q. cv_lock v = Some (th, q, True) \<longrightarrow> asked v \<noteq> [] \<and> last (asked v) = q)"

definition conv_inv :: "nat \<Rightarrow> nat \<Rightarrow> 'd conv \<Rightarrow> bool" where
  "conv_inv a c v \<longleftrightarrow> served a c v \<and> delivered c v \<and> accounted v"

subsection \<open>Steps of the script's side\<close>

lemma served_cong:
  "served a c v \<Longrightarrow> cv_sv w = cv_sv v \<Longrightarrow> cv_handled w = cv_handled v \<Longrightarrow>
     prefix (py_sent (cv_py v)) (py_sent (cv_py w)) \<Longrightarrow> served a c w"
  by (auto simp: served_def replies_def prefix_def)

lemma delivered_cong:
  "delivered c v \<Longrightarrow> cv_sv w = cv_sv v \<Longrightarrow> cv_read w = cv_read v \<Longrightarrow> cv_popped w = cv_popped v \<Longrightarrow>
     queued w = queued v \<Longrightarrow> delivered c w"
  by (simp add: delivered_def received_def)

lemma accounted_cong:
  "accounted v \<Longrightarrow> asked w = asked v \<Longrightarrow> cv_popped w = cv_popped v \<Longrightarrow> cv_lost w = cv_lost v \<Longrightarrow>
     cv_lock w = cv_lock v \<Longrightarrow> accounted w"
  by (simp add: accounted_def waiting_def)

lemma queued_cong: "py_responses (cv_py w) = py_responses (cv_py v) \<Longrightarrow> queued w = queued v"
  by (simp add: queued_def)

lemma send_now_cases:
  assumes "send_now force m s = (x, s')"
  obtains (dropped) "x = Inr ()" "s' = s" "py_finished s"
  | (cancelled) e where "x = Inl e" "s' = s"
  | (sent) "x = Inr ()" "s' = s\<lparr>py_iter := it_put m (py_iter s)\<rparr>" "\<not> py_finished s \<or> force"
  using assms by (auto simp: send_now_def split: if_splits)

lemma take_response_cases:
  assumes "take_response what s = (x, s')"
  obtains (empty) e where "x = Inl e" "s' = s" "py_responses s = []"
  | (ended) e rest where "x = Inl e" "s' = s\<lparr>py_responses := rest\<rparr>" "py_responses s = None # rest"
  | (reply) m rest where "x = Inr m" "s' = s\<lparr>py_responses := rest\<rparr>" "py_responses s = Some m # rest"
  using assms by (auto simp: take_response_def split: list.splits option.splits)

lemma transport_take_puts: "puts (transport_take s) = puts s"
  by (cases "it_queue (py_iter s)") (auto simp: transport_take_def it_next_def puts_def)

lemma transport_take_sent: "prefix (py_sent s) (py_sent (transport_take s))"
  by (cases "it_queue (py_iter s)") (auto simp: transport_take_def it_next_def)

lemma transport_take_responses: "py_responses (transport_take s) = py_responses s"
  by (cases "it_queue (py_iter s)") (auto simp: transport_take_def it_next_def)

lemma drop_ConsD: "drop n xs = x # ys \<Longrightarrow> n < length xs \<and> drop (Suc n) xs = ys \<and> xs ! n = x"
  by (induction xs arbitrary: n) (auto simp: drop_Cons split: nat.splits)

lemma quiet_step:
  assumes "conv_inv a c v" "cv_sv w = cv_sv v" "cv_handled w = cv_handled v" "cv_read w = cv_read v"
    "cv_popped w = cv_popped v" "cv_lost w = cv_lost v" "cv_lock w = cv_lock v"
    "prefix (py_sent (cv_py v)) (py_sent (cv_py w))" "queued w = queued v" "asked w = asked v"
  shows "conv_inv a c w"
  using assms served_cong [of a c v w] delivered_cong [of c v w] accounted_cong [of v w]
  by (simp add: conv_inv_def)

lemma event_keeps:
  assumes "conv_inv a c v" "\<not> is_request m" "send_now force m (cv_py v) = (x, py)"
  shows "conv_inv a c (v\<lparr>cv_py := py\<rparr>)"
proof (rule quiet_step [OF assms(1)])
  have "py_sent py = py_sent (cv_py v) \<and> py_responses py = py_responses (cv_py v) \<and>
      filter is_request (puts py) = filter is_request (puts (cv_py v))"
    using assms(3) by (cases rule: send_now_cases) (simp_all add: assms(2))
  then show "prefix (py_sent (cv_py v)) (py_sent (cv_py (v\<lparr>cv_py := py\<rparr>)))" "queued (v\<lparr>cv_py := py\<rparr>) = queued v"
    "asked (v\<lparr>cv_py := py\<rparr>) = asked v" by (simp_all add: queued_def asked_def)
qed simp_all

lemma ask_keeps:
  assumes inv: "conv_inv a c v" "cv_lock v = None" "is_request q" "send_now False q (cv_py v) = (Inr (), py)"
  shows "conv_inv a c (v\<lparr>cv_py := py, cv_lock := Some (th, q, \<not> py_finished (cv_py v))\<rparr>)" (is "conv_inv a c ?w")
proof -
  have py: "py_sent py = py_sent (cv_py v) \<and> py_responses py = py_responses (cv_py v) \<and>
      filter is_request (puts py) = filter is_request (puts (cv_py v)) @ (if py_finished (cv_py v) then [] else [q])"
    using assms(4) by (cases rule: send_now_cases) (auto simp: assms(3) send_now_def split: if_splits)
  have "served a c ?w" by (rule served_cong [of a c v]) (use inv(1) py in \<open>simp_all add: conv_inv_def\<close>)
  moreover have "delivered c ?w"
    by (rule delivered_cong [of c v]) (use inv(1) py in \<open>simp_all add: conv_inv_def queued_def\<close>)
  moreover have "accounted ?w"
    using inv(1,2) py by (cases "py_finished (cv_py v)") (simp_all add: conv_inv_def accounted_def waiting_def asked_def)
  ultimately show ?thesis by (simp add: conv_inv_def)
qed

lemma answer_keeps:
  assumes inv: "conv_inv a c v" "cv_lock v = Some (th, q, s)" "take_response what (cv_py v) = (Inr m, py)"
  shows "conv_inv a c (v\<lparr>cv_py := py, cv_lock := None, cv_popped := Suc (cv_popped v)\<rparr>)" (is "conv_inv a c ?w")
proof -
  from assms(3) obtain rest where py: "py = (cv_py v)\<lparr>py_responses := rest\<rparr>" "py_responses (cv_py v) = Some m # rest"
    by (cases rule: take_response_cases) auto
  have q: "queued v = m # queued ?w" by (simp add: queued_def py map_filter_simps)
  have d: "cv_popped v \<le> length (received c v)" "queued v = drop (cv_popped v) (received c v)"
    using inv(1) by (simp_all add: conv_inv_def delivered_def)
  then have "drop (cv_popped v) (received c v) = m # queued ?w" using q by simp
  then have "cv_popped v < length (received c v) \<and> queued ?w = drop (Suc (cv_popped v)) (received c v)"
    using drop_ConsD by metis
  moreover have "received c ?w = received c v" by (simp add: received_def)
  ultimately have "delivered c ?w" using inv(1) by (simp add: conv_inv_def delivered_def)
  moreover have "served a c ?w"
    by (rule served_cong [of a c v]) (use inv(1) in \<open>simp_all add: conv_inv_def py\<close>)
  moreover have asked: "asked ?w = asked v" by (simp add: asked_def puts_def py)
  have "length (asked v) \<le> cv_popped v + cv_lost v + (if s then 1 else 0)"
    using inv(1,2) by (simp add: conv_inv_def accounted_def waiting_def)
  then have "accounted ?w" by (simp add: accounted_def waiting_def asked split: if_splits)
  ultimately show ?thesis by (simp add: conv_inv_def)
qed

lemma give_up_keeps:
  assumes inv: "conv_inv a c v" "cv_lock v = Some (th, q, s)" "take_response what (cv_py v) = (Inl e, py)"
  shows "conv_inv a c (v\<lparr>cv_py := py, cv_lock := None, cv_lost := cv_lost v + (if s then 1 else 0)\<rparr>)" (is "conv_inv a c ?w")
proof -
  have py: "py_sent py = py_sent (cv_py v) \<and> puts py = puts (cv_py v) \<and> queued ?w = queued v"
    using assms(3) by (cases rule: take_response_cases) (simp_all add: puts_def queued_def map_filter_simps)
  have "served a c ?w" by (rule served_cong [of a c v]) (use inv(1) py in \<open>simp_all add: conv_inv_def\<close>)
  moreover have "delivered c ?w"
    by (rule delivered_cong [of c v]) (use inv(1) py in \<open>simp_all add: conv_inv_def\<close>)
  moreover have "length (asked v) \<le> cv_popped v + cv_lost v + (if s then 1 else 0)"
    using inv(1,2) by (simp add: conv_inv_def accounted_def waiting_def)
  then have "accounted ?w" using py by (simp add: accounted_def waiting_def asked_def)
  ultimately show ?thesis by (simp add: conv_inv_def)
qed

subsection \<open>Steps of the server's side\<close>

lemma out_on_append [simp]:
  "sv_wire sv' = sv_wire sv @ ws \<Longrightarrow> out_on c sv' = out_on c sv @ map snd (filter (\<lambda>w. fst w = c) ws)"
  by (simp add: out_on_def)

text \<open>The server's half grows by \<open>ms\<close>, replies and cancels; the script's side stays as it is.\<close>

lemma server_grows:
  assumes inv: "conv_inv a c v" and out: "out_on c (cv_sv w) = out_on c (cv_sv v) @ ms"
    and ms: "\<forall>m \<in> set ms. is_reply m \<or> m = ServerMessage_Cancel" and s: "served a c w"
    and same: "cv_py w = cv_py v" "cv_lock w = cv_lock v" "cv_popped w = cv_popped v" "cv_lost w = cv_lost v"
      "cv_read w = cv_read v"
  shows "conv_inv a c w"
proof -
  have "received c w = received c v" using inv by (simp add: received_def same out conv_inv_def delivered_def)
  then have "delivered c w"
    using inv ms by (auto simp: conv_inv_def delivered_def out same queued_def)
  moreover have "accounted w" using inv accounted_cong [of v w] by (simp add: conv_inv_def same asked_def)
  ultimately show ?thesis using s by (simp add: conv_inv_def)
qed

lemma answers_reply: "answers q m \<Longrightarrow> is_reply m"
  by (cases m; cases q) simp_all

lemma handle_keeps:
  assumes inv: "conv_inv a c v" and n: "cv_handled v < length (py_sent (cv_py v))"
    and h: "handleClientMessage out r a (py_sent (cv_py v) ! cv_handled v) (cv_sv v) = Ret (None, sv)"
  shows "conv_inv a c (v\<lparr>cv_handled := Suc (cv_handled v), cv_sv := sv\<rparr>)" (is "conv_inv a c ?w")
proof -
  let ?m = "py_sent (cv_py v) ! cv_handled v"
  have s: "served a c v" using inv by (simp add: conv_inv_def)
  then have cs: "can_serve a c (cv_sv v)" by (simp add: served_def)
  then have d4: "server_inv (cv_sv v)" "a < length (sv_chans (cv_sv v))" "rc_stream (chan_at a (cv_sv v)) = Some c"
    "sv_db (cv_sv v) \<noteq> None" by (simp_all add: can_serve_def)
  have room: "room_for (chan_at a (cv_sv v)) (length (forwarded ?m))"
    using message_step [OF d4, of ?m out r] h by (auto split: if_splits)
  have done_: "message_done out r a c ?m (cv_sv v) None sv"
    using message_step [OF d4, of ?m out r] h room by auto
  have cs': "can_serve a c sv" using can_serve_step [OF cs room done_] by simp
  have took: "take (Suc (cv_handled v)) (py_sent (cv_py v)) = take (cv_handled v) (py_sent (cv_py v)) @ [?m]"
    using n by (rule take_Suc_conv_app_nth)
  obtain ms where wire: "sv_wire sv = sv_wire (cv_sv v) @ map (Pair c) ms"
    and ans: "list_all2 answers (filter is_request [?m]) ms"
  proof (cases "is_request ?m")
    case True
    with done_ obtain reply where "answers ?m reply" "sv_wire sv = sv_wire (cv_sv v) @ [(c, reply)]"
      by (auto simp: message_done_def)
    with that [of "[reply]"] True show ?thesis by simp
  next
    case False
    with done_ that [of "[]"] show ?thesis by (simp add: message_done_def)
  qed
  have rep: "\<forall>m \<in> set ms. is_reply m"
    using ans answers_reply by (fastforce simp: list_all2_conv_all_nth in_set_conv_nth)
  have out: "out_on c sv = out_on c (cv_sv v) @ ms"
    using wire by (simp add: out_on_def filter_map o_def)
  have "replies c ?w = replies c v @ ms"
    using rep by (simp add: replies_def out)
  then have "served a c ?w"
    using s n cs' took ans by (auto simp: served_def intro!: list_all2_appendI)
  with rep show ?thesis by (intro server_grows [OF inv]) (auto simp: out)
qed

lemma cancel_keeps:
  assumes inv: "conv_inv a c v" and k: "SendCancel out r (cv_sv v) = (res, sv)"
  shows "conv_inv a c (v\<lparr>cv_sv := sv\<rparr>)"
proof -
  have s: "served a c v" using inv by (simp add: conv_inv_def)
  obtain ws where w: "sv_wire sv = sv_wire (cv_sv v) @ ws" "\<forall>w \<in> set ws. snd w = ServerMessage_Cancel"
    and same: "sv_runs sv = sv_runs (cv_sv v)" "sv_chans sv = sv_chans (cv_sv v)" "sv_cache sv = sv_cache (cv_sv v)"
      "sv_db sv = sv_db (cv_sv v)"
    using k by (auto simp: SendCancel_def send_imperative_def stream_Send_def split: option.splits)
  have cs: "can_serve a c (cv_sv v)" using s by (simp add: served_def)
  then have ok: "server_inv (cv_sv v)" by (simp add: can_serve_def)
  have "server_inv sv"
    by (rule server_inv_cong [OF ok]) (simp_all add: same server_inv_cache [OF ok])
  with cs have "can_serve a c sv" by (simp add: can_serve_def chan_at_def same)
  moreover have out: "out_on c sv = out_on c (cv_sv v) @ map snd (filter (\<lambda>w. fst w = c) ws)" using w(1) by simp
  then have "replies c (v\<lparr>cv_sv := sv\<rparr>) = replies c v" using w(2) by (auto simp: replies_def filter_empty_conv)
  ultimately have "served a c (v\<lparr>cv_sv := sv\<rparr>)" using s by (simp add: served_def)
  then show ?thesis using w(2) out by (intro server_grows [OF inv]) auto
qed

lemma elsewhere_keeps:
  assumes inv: "conv_inv a c v" and e: "can_serve a c sv" "out_on c sv = out_on c (cv_sv v)"
  shows "conv_inv a c (v\<lparr>cv_sv := sv\<rparr>)"
proof -
  have "served a c (v\<lparr>cv_sv := sv\<rparr>)" using inv e by (simp add: conv_inv_def served_def replies_def)
  then show ?thesis by (intro server_grows [OF inv, where ms = "[]"]) (simp_all add: e)
qed

lemma read_keeps:
  assumes inv: "conv_inv a c v" and n: "cv_read v < length (out_on c (cv_sv v))" "py_reader (cv_py v) = Reading"
  shows "conv_inv a c (v\<lparr>cv_py := reader_step (Item (out_on c (cv_sv v) ! cv_read v)) (cv_py v),
      cv_read := Suc (cv_read v)\<rparr>)" (is "conv_inv a c ?w")
proof -
  let ?m = "out_on c (cv_sv v) ! cv_read v"
  have d: "delivered c v" using inv by (simp add: conv_inv_def)
  have rest: "drop (cv_read v) (out_on c (cv_sv v)) = ?m # drop (Suc (cv_read v)) (out_on c (cv_sv v))"
    using n(1) by (rule Cons_nth_drop_Suc [symmetric])
  then have kind: "is_reply ?m \<or> ?m = ServerMessage_Cancel"
    using d by (auto simp: delivered_def)
  have got: "received c ?w = received c v @ (if is_reply ?m then [?m] else [])"
    using n(1) by (simp add: received_def take_Suc_conv_app_nth)
  have q: "queued ?w = queued v @ (if is_reply ?m then [?m] else [])"
    using kind n(2) by (auto simp: queued_def reader_step_def map_filter_def)
  have "delivered c ?w"
    using d n(1) got q rest by (auto simp: delivered_def)
  moreover have part: "told_part (cv_py ?w) = told_part (cv_py v)" by simp
  then have "served a c ?w" using inv by (auto simp: conv_inv_def told_part_def elim!: served_cong)
  moreover have "accounted ?w"
    using inv accounted_cong [of v ?w] told_part_puts [OF part] by (simp add: conv_inv_def asked_def)
  ultimately show ?thesis by (simp add: conv_inv_def)
qed

lemma end_keeps:
  assumes inv: "conv_inv a c v" and i: "i = StreamEnd \<or> i = StreamError e"
  shows "conv_inv a c (v\<lparr>cv_py := reader_step i (cv_py v)\<rparr>)"
proof (rule quiet_step [OF inv])
  have part: "told_part (reader_step i (cv_py v)) = told_part (cv_py v)" by simp
  then show "prefix (py_sent (cv_py v)) (py_sent (cv_py (v\<lparr>cv_py := reader_step i (cv_py v)\<rparr>)))"
    by (simp add: told_part_def)
  show "asked (v\<lparr>cv_py := reader_step i (cv_py v)\<rparr>) = asked v"
    using told_part_puts [OF part] by (simp add: asked_def)
  show "queued (v\<lparr>cv_py := reader_step i (cv_py v)\<rparr>) = queued v"
    using i by (auto simp: queued_def reader_step_def map_filter_def)
qed simp_all

lemma conv_step_inv:
  assumes inv: "conv_inv a c v" and st: "conv_step out r a c v w"
  shows "conv_inv a c w"
  using st
proof cases
  case (conv_close)
  then show ?thesis by (auto intro!: quiet_step [OF inv] simp: asked_def queued_def puts_def it_close_def)
next
  case conv_take
  show ?thesis unfolding conv_take
    by (rule quiet_step [OF inv])
      (simp_all add: asked_def transport_take_puts transport_take_sent queued_def transport_take_responses)
next
  case (conv_event m force x py)
  then show ?thesis using event_keeps [OF inv] by blast
next
  case (conv_ask q py th)
  then show ?thesis using ask_keeps [OF inv] by blast
next
  case (conv_answer th q s what m py)
  then show ?thesis using answer_keeps [OF inv] by blast
next
  case (conv_give_up th q s what e py)
  show ?thesis unfolding conv_give_up(1) by (rule give_up_keeps [OF inv conv_give_up(2,3)])
next
  case (conv_handle sv)
  then show ?thesis using handle_keeps [OF inv] by blast
next
  case conv_read
  then show ?thesis using read_keeps [OF inv] by blast
next
  case (conv_end i e)
  then show ?thesis using end_keeps [OF inv] by blast
next
  case (conv_cancel r' res sv)
  then show ?thesis using cancel_keeps [OF inv] by blast
next
  case (conv_elsewhere sv)
  then show ?thesis using elsewhere_keeps [OF inv] by blast
qed

lemma conv_init_inv: "conv_init a c v \<Longrightarrow> conv_inv a c v"
  by (auto simp: conv_init_def conv_inv_def served_def delivered_def accounted_def replies_def received_def
      queued_def asked_def waiting_def fresh_runner_def puts_def map_filter_def)

interpretation conv: inv_system "conv_init a c" "conv_step out r a c" "conv_inv a c"
  for a c out r
  by unfold_locales (auto intro: conv_init_inv conv_step_inv)

subsection \<open>Properties\<close>

text \<open>C11: Every reply belongs to the request it is for, as long as nobody has given up. However the
  threads of a script, gRPC, the server, the reader thread and cancels interleave, the reply a waiting
  thread takes is the oldest reply not yet taken, and it answers the oldest request not yet answered.
  If no wait has given up before, that is the request of the waiting thread itself, because the lock
  admits one at a time: each request gets the reply of its own kind, and with its own key.\<close>

theorem replies_pair_with_requests:
  assumes "reach (conv_init a c) (conv_step out r a c) v"
    and "cv_lock v = Some (th, q, sent)" "take_response what (cv_py v) = (Inr m, py)"
  shows "cv_popped v < length (replies c v) \<and> m = replies c v ! cv_popped v \<and>
     cv_popped v < length (asked v) \<and> answers (asked v ! cv_popped v) m \<and>
     (sent \<and> cv_lost v = 0 \<longrightarrow> asked v ! cv_popped v = q \<and> answers q m)"
proof -
  have inv: "served a c v" "delivered c v" "accounted v"
    using conv.reach_inv [OF assms(1)] by (simp_all add: conv_inv_def)
  from assms(3) obtain rest where "py_responses (cv_py v) = Some m # rest"
    by (cases rule: take_response_cases) auto
  then have "queued v = m # List.map_filter (\<lambda>x. x) rest" by (simp add: queued_def map_filter_simps)
  with inv(2) have "drop (cv_popped v) (received c v) = m # List.map_filter (\<lambda>x. x) rest"
    by (simp add: delivered_def)
  from drop_ConsD [OF this] have n: "cv_popped v < length (received c v)" "received c v ! cv_popped v = m" by auto
  have "prefix (received c v) (replies c v)"
    unfolding received_def replies_def by (intro filter_mono_prefix take_is_prefix)
  then obtain more where rep: "replies c v = received c v @ more" by (auto simp: prefix_def)
  let ?done = "filter is_request (take (cv_handled v) (py_sent (cv_py v)))"
  have all: "list_all2 answers ?done (replies c v)" using inv(1) by (simp add: served_def)
  have "prefix ?done (asked v)" unfolding asked_def puts_def
    by (intro filter_mono_prefix) (metis append_take_drop_id append_assoc prefixI)
  then obtain later where asked: "asked v = ?done @ later" by (auto simp: prefix_def)
  have at: "cv_popped v < length ?done" "cv_popped v < length (replies c v)" "replies c v ! cv_popped v = m"
    using n rep list_all2_lengthD [OF all] by (simp_all add: nth_append)
  have ans: "answers (asked v ! cv_popped v) m"
    using list_all2_nthD [OF all at(1)] at by (simp add: asked nth_append)
  have own: "asked v ! cv_popped v = q" if "sent" "cv_lost v = 0"
  proof -
    from inv(3) that assms(2) have l: "length (asked v) \<le> Suc (cv_popped v)" "last (asked v) = q" "asked v \<noteq> []"
      by (auto simp: accounted_def waiting_def)
    then have "cv_popped v = length (asked v) - 1" using at(1) by (simp add: asked)
    with l show ?thesis by (simp add: last_conv_nth)
  qed
  from at ans own show ?thesis by (auto simp: asked)
qed

text \<open>The reader thread was meant to keep a timed out wait from desynchronising the protocol, but the
  late reply stays in the queue: once a wait has given up, the next request is answered with it.
  A file dialog left open for more than 30 seconds is enough.\<close>

theorem late_reply_goes_to_next_request:
  fixes v0 :: "'d conv" and out :: "'d outside"
  assumes init: "conv_init a c v0" and q: "is_request q1" "is_request q2" and send: "\<And>n. ox_send out c n = None"
  shows "\<exists>v m py. reach (conv_init a c) (conv_step out r a c) v \<and> cv_lock v = Some (1, q2, True) \<and>
     take_response what (cv_py v) = (Inr m, py) \<and> answers q1 m"
proof -
  obtain shm ps where v0: "cv_py v0 = (fresh_runner shm)\<lparr>py_stream := True, py_reader := Reading\<rparr>" "cv_lock v0 = None"
    "cv_popped v0 = 0" "cv_lost v0 = 0" "cv_handled v0 = 0" "can_serve a c (cv_sv v0)"
    "out_on c (cv_sv v0) = [ServerMessage_Start ps]" "cv_read v0 = 1"
    using init unfolding conv_init_def by blast
  have b0: "reach (conv_init a c) (conv_step out r a c) v0" using init by (rule reach_init)
  obtain p1 where p1: "p1 = (cv_py v0)\<lparr>py_iter := it_put q1 (py_iter (cv_py v0))\<rparr>" by blast
  obtain v1 where v1: "v1 = v0\<lparr>cv_py := p1, cv_lock := Some (0, q1, True)\<rparr>" by blast
  have "conv_step out r a c v0 v1"
    using conv_ask [of v0 q1 p1 out r a c 0] q v0 by (simp add: send_now_def fresh_runner_def v1 p1)
  with b0 have b1: "reach (conv_init a c) (conv_step out r a c) v1" by (rule reach_step)
  have f1: "py_responses p1 = []" by (simp add: p1 v0 fresh_runner_def)
  then obtain e where e: "take_response what (cv_py v1) = (Inl e, p1)" by (simp add: take_response_def v1)
  obtain v2 where v2: "v2 = v1\<lparr>cv_py := p1, cv_lock := None, cv_lost := cv_lost v1 + (if True then 1 else 0)\<rparr>" by blast
  have "cv_lock v1 = Some (0, q1, True)" by (simp add: v1)
  then have "conv_step out r a c v1 v2" unfolding v2 using e by (rule conv_give_up)
  with b1 have b2: "reach (conv_init a c) (conv_step out r a c) v2" by (rule reach_step)
  obtain p3 where p3: "p3 = transport_take (cv_py v2)" by blast
  obtain v3 where v3: "v3 = v2\<lparr>cv_py := p3\<rparr>" by blast
  have "conv_step out r a c v2 v3" unfolding v3 p3 by (rule conv_take)
  with b2 have b3: "reach (conv_init a c) (conv_step out r a c) v3" by (rule reach_step)
  have f3: "py_sent p3 = [q1]" "py_reader p3 = Reading" "py_responses p3 = []" "\<not> py_finished p3" "\<not> py_cancel p3"
    by (simp_all add: p3 v2 p1 v0 fresh_runner_def transport_take_def it_next_def it_put_def)
  have c3: "cv_py v3 = p3" "cv_handled v3 = 0" "cv_sv v3 = cv_sv v0" "cv_lock v3 = None" "cv_read v3 = 1"
    by (simp_all add: v3 v2 v1 v0)
  have srv: "rc_stream (chan_at a (cv_sv v0)) = Some c" "sv_db (cv_sv v0) \<noteq> None" using v0(6) by (simp_all add: can_serve_def)
  obtain res sv where h: "handleClientMessage out r a q1 (cv_sv v0) = Ret (res, sv)"
    and d: "message_done out r a c q1 (cv_sv v0) res sv" by (rule request_done [OF q(1) srv])
  have res: "res = None" using d q(1) send by (auto simp: message_done_def)
  obtain m where m: "answers q1 m" "out_on c sv = [ServerMessage_Start ps, m]"
    using d q(1) res v0(7) by (auto simp: message_done_def out_on_def)
  obtain v4 where v4: "v4 = v3\<lparr>cv_handled := Suc (cv_handled v3), cv_sv := sv\<rparr>" by blast
  have "conv_step out r a c v3 v4"
    unfolding v4 using h res by (intro conv_handle) (simp_all add: c3 f3)
  with b3 have b4: "reach (conv_init a c) (conv_step out r a c) v4" by (rule reach_step)
  obtain p5 where p5: "p5 = p3\<lparr>py_iter := it_put q2 (py_iter p3)\<rparr>" by blast
  obtain v5 where v5: "v5 = v4\<lparr>cv_py := p5, cv_lock := Some (1, q2, True)\<rparr>" by blast
  have "conv_step out r a c v4 v5"
    using conv_ask [of v4 q2 p5 out r a c 1] q(2) by (simp add: send_now_def v5 v4 c3 p5 f3)
  with b4 have b5: "reach (conv_init a c) (conv_step out r a c) v5" by (rule reach_step)
  have c5: "cv_py v5 = p5" "cv_sv v5 = sv" "cv_read v5 = 1" "cv_lock v5 = Some (1, q2, True)" "py_reader p5 = Reading"
    "py_responses p5 = []"
    by (simp_all add: v5 v4 c3 p5 f3)
  obtain v6 where v6: "v6 = v5\<lparr>cv_py := reader_step (Item (out_on c (cv_sv v5) ! cv_read v5)) (cv_py v5),
      cv_read := Suc (cv_read v5)\<rparr>" by blast
  have "conv_step out r a c v5 v6" unfolding v6 by (rule conv_read) (simp_all add: c5 m)
  with b5 have b6: "reach (conv_init a c) (conv_step out r a c) v6" by (rule reach_step)
  have "m \<noteq> ServerMessage_Cancel" using answers_reply [OF m(1)] by auto
  then have "py_responses (cv_py v6) = [Some m]" by (simp add: v6 c5 m reader_step_def)
  then have "\<exists>py. take_response what (cv_py v6) = (Inr m, py)" by (simp add: take_response_def)
  moreover have "cv_lock v6 = Some (1, q2, True)" by (simp add: v6 c5)
  ultimately show ?thesis using b6 m(1) by blast
qed

subsection \<open>Witnesses\<close>

lemma one_exchange:
  fixes v0 :: "'d conv" and out :: "'d outside"
  assumes init: "conv_init a c v0" and q: "is_request q" and send: "\<And>n. ox_send out c n = None"
  shows "\<exists>v m py. reach (conv_init a c) (conv_step out r a c) v \<and> cv_lock v = Some (0, q, True) \<and> cv_lost v = 0 \<and>
     take_response what (cv_py v) = (Inr m, py)"
proof -
  obtain shm ps where v0: "cv_py v0 = (fresh_runner shm)\<lparr>py_stream := True, py_reader := Reading\<rparr>" "cv_lock v0 = None"
    "cv_popped v0 = 0" "cv_lost v0 = 0" "cv_handled v0 = 0" "can_serve a c (cv_sv v0)"
    "out_on c (cv_sv v0) = [ServerMessage_Start ps]" "cv_read v0 = 1"
    using init unfolding conv_init_def by blast
  have b0: "reach (conv_init a c) (conv_step out r a c) v0" using init by (rule reach_init)
  obtain p1 where p1: "p1 = (cv_py v0)\<lparr>py_iter := it_put q (py_iter (cv_py v0))\<rparr>" by blast
  obtain v1 where v1: "v1 = v0\<lparr>cv_py := p1, cv_lock := Some (0, q, True)\<rparr>" by blast
  have "conv_step out r a c v0 v1"
    using conv_ask [of v0 q p1 out r a c 0] q v0 by (simp add: send_now_def fresh_runner_def v1 p1)
  with b0 have b1: "reach (conv_init a c) (conv_step out r a c) v1" by (rule reach_step)
  obtain p2 where p2: "p2 = transport_take (cv_py v1)" by blast
  obtain v2 where v2: "v2 = v1\<lparr>cv_py := p2\<rparr>" by blast
  have "conv_step out r a c v1 v2" unfolding v2 p2 by (rule conv_take)
  with b1 have b2: "reach (conv_init a c) (conv_step out r a c) v2" by (rule reach_step)
  have f2: "py_sent p2 = [q]" "py_reader p2 = Reading" "py_responses p2 = []"
    by (simp_all add: p2 v1 p1 v0 fresh_runner_def transport_take_def it_next_def it_put_def)
  have srv: "rc_stream (chan_at a (cv_sv v0)) = Some c" "sv_db (cv_sv v0) \<noteq> None" using v0(6) by (simp_all add: can_serve_def)
  obtain res sv where h: "handleClientMessage out r a q (cv_sv v0) = Ret (res, sv)"
    and d: "message_done out r a c q (cv_sv v0) res sv" by (rule request_done [OF q srv])
  have res: "res = None" using d q send by (auto simp: message_done_def)
  obtain m where m: "answers q m" "out_on c sv = [ServerMessage_Start ps, m]"
    using d q res v0(7) by (auto simp: message_done_def out_on_def)
  obtain v3 where v3: "v3 = v2\<lparr>cv_handled := Suc (cv_handled v2), cv_sv := sv\<rparr>" by blast
  have "conv_step out r a c v2 v3"
    unfolding v3 using h res by (intro conv_handle) (simp_all add: v2 v1 v0 f2)
  with b2 have b3: "reach (conv_init a c) (conv_step out r a c) v3" by (rule reach_step)
  have c3: "cv_py v3 = p2" "cv_sv v3 = sv" "cv_read v3 = 1" "cv_lock v3 = Some (0, q, True)" "cv_lost v3 = 0"
    by (simp_all add: v3 v2 v1 v0)
  obtain v4 where v4: "v4 = v3\<lparr>cv_py := reader_step (Item (out_on c (cv_sv v3) ! cv_read v3)) (cv_py v3),
      cv_read := Suc (cv_read v3)\<rparr>" by blast
  have "conv_step out r a c v3 v4" unfolding v4 by (rule conv_read) (simp_all add: c3 m f2)
  with b3 have b4: "reach (conv_init a c) (conv_step out r a c) v4" by (rule reach_step)
  have "m \<noteq> ServerMessage_Cancel" using answers_reply [OF m(1)] by auto
  then have "py_responses (cv_py v4) = [Some m]" by (simp add: v4 c3 m f2 reader_step_def)
  then have "\<exists>py. take_response what (cv_py v4) = (Inr m, py)" by (simp add: take_response_def)
  moreover have "cv_lock v4 = Some (0, q, True)" "cv_lost v4 = 0" by (simp_all add: v4 c3)
  ultimately show ?thesis using b4 by blast
qed

definition test_conv :: "unit conv" where
  "test_conv = \<lparr>cv_py = (fresh_runner Map.empty)\<lparr>py_stream := True, py_reader := Reading\<rparr>, cv_lock = None,
     cv_popped = 0, cv_lost = 0, cv_read = 1, cv_handled = 0,
     cv_sv = (set_chan 0 (connected 5 (chan_at 0 one_run)) one_run)\<lparr>sv_wire := [(5, ServerMessage_Start [])]\<rparr>\<rparr>"

lemma test_conv_init: "conv_init 0 5 test_conv"
proof -
  have "can_serve 0 5 (cv_sv test_conv)"
    using connected_can_serve [OF one_run_awaiting, of 5]
    by (simp add: test_conv_def can_serve_def server_inv_def chan_at_def)
  then show ?thesis by (auto simp: conv_init_def test_conv_def out_on_def)
qed

lemma test_out_sends: "ox_send test_out c n = None"
  by (simp add: test_out_def)

lemma replies_pair_with_requests_witness:
  "\<exists>v m py. reach (conv_init 0 5) (conv_step test_out ''r1'' 0 5) v \<and>
     cv_lock v = Some (0, ClientMessage_CacheLookup ''k'', True) \<and>
     take_response ''cache lookup'' (cv_py v) = (Inr m, py) \<and> answers (ClientMessage_CacheLookup ''k'') m"
proof -
  obtain v m py where v: "reach (conv_init 0 5) (conv_step test_out ''r1'' 0 5) v"
    "cv_lock v = Some (0, ClientMessage_CacheLookup ''k'', True)" "cv_lost v = 0"
    "take_response ''cache lookup'' (cv_py v) = (Inr m, py)"
    using one_exchange [OF test_conv_init _ test_out_sends, of "ClientMessage_CacheLookup ''k''"] by fastforce
  from replies_pair_with_requests [OF v(1,2,4)] v show ?thesis by blast
qed

lemma late_reply_goes_to_next_request_witness:
  "\<exists>v m py. reach (conv_init 0 5) (conv_step test_out ''r1'' 0 5) v \<and>
     cv_lock v = Some (1, ClientMessage_DbQuery ''SELECT'' [], True) \<and>
     take_response ''db query'' (cv_py v) = (Inr m, py) \<and> \<not> answers (ClientMessage_DbQuery ''SELECT'' []) m"
proof -
  have "is_request (ClientMessage_FileDialog 1 ''Open'' [] [] [])" "is_request (ClientMessage_DbQuery ''SELECT'' [])"
    by simp_all
  from late_reply_goes_to_next_request [OF test_conv_init this test_out_sends, of "''r1''" "''db query''"]
  obtain v m py where v: "reach (conv_init 0 5) (conv_step test_out ''r1'' 0 5) v"
    "cv_lock v = Some (1, ClientMessage_DbQuery ''SELECT'' [], True)" "take_response ''db query'' (cv_py v) = (Inr m, py)"
    "answers (ClientMessage_FileDialog 1 ''Open'' [] [] []) m" by blast
  then have "\<not> answers (ClientMessage_DbQuery ''SELECT'' []) m" by (cases m) simp_all
  with v show ?thesis by blast
qed

end
