(* ===== verification/Process.thy ===== *)
theory Process
  imports Paths
begin

section \<open>Process: the Python process of a run\<close>

text \<open>
  Models \<^verbatim>\<open>internal/runner/process.go\<close>: the environment handed to the child, the search for
  an interpreter, and the handshake between the stderr reader, \<open>Wait\<close>, \<open>Cancel\<close> and \<open>Done\<close>. The
  operating system is the parameter \<open>os\<close>; what the child did (its exit, what could be read
  from its stderr) are arguments. Paths use the slash; the two places where the code asks for
  the platform (the interpreter's name, the list separator) follow \<open>os_windows\<close>.
\<close>

record os =
  os_windows :: bool
  os_Getwd :: "goerror + string"
  os_Executable :: "goerror + string"
  os_Stat :: "string \<Rightarrow> goerror option"
  os_CreateTemp :: "string \<Rightarrow> goerror option"
  os_Environ :: "string list"
  os_Getenv :: "string \<Rightarrow> string"
  os_ErrClosed :: "goerror \<Rightarrow> bool"

subsection \<open>Finding the interpreter\<close>

record VenvInfo =
  vi_Root :: string
  vi_Python :: string
  vi_Editable :: bool

definition isWritable :: "os \<Rightarrow> string \<Rightarrow> bool" where
  "isWritable sys dir = (case os_CreateTemp sys dir of Some e \<Rightarrow> False | None \<Rightarrow> True)"

text \<open>\<open>filepath.Dir\<close>: the text up to the last slash, cleaned.\<close>

definition Dir :: "string \<Rightarrow> string" where
  "Dir p = Clean (rev (dropWhile (\<lambda>c. c \<noteq> slash) (rev p)))"

definition pythonRel :: "os \<Rightarrow> string" where
  "pythonRel sys = (if os_windows sys then Join ''Scripts'' ''python.exe'' else Join ''bin'' ''python3'')"

definition venv_at :: "os \<Rightarrow> string \<Rightarrow> VenvInfo" where
  "venv_at sys root = \<lparr>vi_Root = root, vi_Python = Join root (pythonRel sys), vi_Editable = isWritable sys root\<rparr>"

definition no_python :: goerror where
  "no_python = Errorf ''python not found: checked .venv/ and python/ directories'' None"

text \<open>The part of \<open>FindVenv\<close> that needs the executable.\<close>

definition FindVenv_exe :: "os \<Rightarrow> goerror + VenvInfo" where
  "FindVenv_exe sys =
     (case os_Executable sys of
        Inl e \<Rightarrow> Inl no_python
      | Inr execPath \<Rightarrow>
          (let execDir = Dir execPath;
               bundled = Join execDir ''python'';
               last_try = (if os_Stat sys (Join bundled (pythonRel sys)) = None then Inr (venv_at sys bundled)
                           else Inl no_python)
           in case Abs (os_Getwd sys) (Join_all [execDir, ''..'', ''.venv'']) of
                Inl e \<Rightarrow> last_try
              | Inr root \<Rightarrow>
                  if os_Stat sys (Join root (pythonRel sys)) = None then Inr (venv_at sys root) else last_try))"

definition FindVenv :: "os \<Rightarrow> goerror + VenvInfo" where
  "FindVenv sys =
     (case Abs (os_Getwd sys) ''.venv'' of
        Inl e \<Rightarrow> FindVenv_exe sys
      | Inr root \<Rightarrow>
          if os_Stat sys (Join root (pythonRel sys)) = None then Inr (venv_at sys root) else FindVenv_exe sys)"

subsection \<open>The process\<close>

text \<open>
  \<open>pr_cmd\<close> is the command line and environment set up by \<open>Start\<close>, \<open>pr_running\<close> says that the
  child was spawned and its stderr reader started, \<open>pr_ctx_done\<close> that the context was
  cancelled, \<open>pr_stderrDone\<close> that the reader has closed its channel.
\<close>

record process =
  pr_RunID :: run_id
  pr_ScriptDir :: string
  pr_LibDir :: string
  pr_Params :: "(string \<times> string) list"
  pr_GRPCAddr :: string
  pr_PythonPath :: string
  pr_cmd :: "(string list \<times> string list) option"
  pr_running :: bool
  pr_ctx_done :: bool
  pr_stderr :: string
  pr_stderrDone :: bool

definition NewProcess :: "run_id \<Rightarrow> string \<Rightarrow> string \<Rightarrow> (string \<times> string) list \<Rightarrow> string \<Rightarrow> process" where
  "NewProcess runID scriptDir libDir params grpcAddr =
     \<lparr>pr_RunID = runID, pr_ScriptDir = scriptDir, pr_LibDir = libDir, pr_Params = params,
      pr_GRPCAddr = grpcAddr, pr_PythonPath = [], pr_cmd = None, pr_running = False,
      pr_ctx_done = False, pr_stderr = [], pr_stderrDone = False\<rparr>"

definition list_separator :: "os \<Rightarrow> string" where
  "list_separator sys = (if os_windows sys then '';'' else '':'')"

definition process_env :: "os \<Rightarrow> process \<Rightarrow> string list" where
  "process_env sys p =
     (let env = os_Environ sys @ [''GRPC_ADDRESS='' @ pr_GRPCAddr p, ''RUN_ID='' @ pr_RunID p]
      in if pr_LibDir p \<noteq> [] then
           (let existing = os_Getenv sys ''PYTHONPATH''
            in if existing = [] then env @ [''PYTHONPATH='' @ pr_LibDir p]
               else env @ [''PYTHONPATH='' @ pr_LibDir p @ list_separator sys @ existing])
         else env)"

text \<open>\<open>pipeErr\<close> and \<open>startErr\<close> are what \<open>StderrPipe\<close> and \<open>cmd.Start\<close> answer.\<close>

definition process_Start :: "os \<Rightarrow> goerror option \<Rightarrow> goerror option \<Rightarrow> process \<Rightarrow> goerror option \<times> process" where
  "process_Start sys pipeErr startErr p =
     (case (if pr_PythonPath p \<noteq> [] then Inr (pr_PythonPath p)
            else (case FindVenv sys of
                    Inl e \<Rightarrow> Inl (Errorf (''finding python: '' @ error_text e) (Some e))
                  | Inr v \<Rightarrow> Inr (vi_Python v))) of
        Inl e \<Rightarrow> (Some e, p)
      | Inr pythonPath \<Rightarrow>
          (let p1 = p\<lparr>pr_cmd := Some ([pythonPath, Join (pr_ScriptDir p) ''main.py''], process_env sys p)\<rparr>
           in case pipeErr of
                Some e \<Rightarrow> (Some (Errorf (''stderr pipe: '' @ error_text e) (Some e)), p1)
              | None \<Rightarrow>
                  (case startErr of
                     Some e \<Rightarrow> (Some (Errorf (''starting process: '' @ error_text e) (Some e)), p1)
                   | None \<Rightarrow> (None, p1\<lparr>pr_running := True\<rparr>))))"

text \<open>The reader goroutine: \<open>data\<close> and \<open>err\<close> are what \<open>io.ReadAll\<close> returned; closing the channel twice
  would panic.\<close>

definition stderr_reader :: "os \<Rightarrow> string \<Rightarrow> goerror option \<Rightarrow> process \<Rightarrow> process go" where
  "stderr_reader sys data err p =
     (let p1 = p\<lparr>pr_stderr := pr_stderr p @ data @
            (case err of
               Some e \<Rightarrow> if os_ErrClosed sys e then []
                         else ''[stderr capture failed: '' @ error_text e @ '']''
             | None \<Rightarrow> [])\<rparr>
      in if pr_stderrDone p then Panic ''close of closed channel'' else Ret (p1\<lparr>pr_stderrDone := True\<rparr>))"

text \<open>
  What \<open>cmd.Wait\<close> answers: success, an \<open>ExitError\<close> with its code, or another error. \<open>Wait\<close> cancels
  the context and then waits for the reader.
\<close>

datatype wait_answer = WaitOk | WaitExit int goerror | WaitOther goerror

definition process_Cancel :: "process \<Rightarrow> process" where
  "process_Cancel p = p\<lparr>pr_ctx_done := True\<rparr>"

definition process_Wait :: "wait_answer \<Rightarrow> process \<Rightarrow> ((int \<times> string \<times> goerror option) \<times> process) go" where
  "process_Wait w p =
     (case pr_cmd p of
        None \<Rightarrow> Panic ''nil pointer dereference''
      | Some _ \<Rightarrow>
          (let p1 = process_Cancel p
           in if \<not> pr_stderrDone p1 then Block
              else Ret (case w of
                          WaitOk \<Rightarrow> (0, pr_stderr p1, None)
                        | WaitExit code e \<Rightarrow> (code, pr_stderr p1, Some e)
                        | WaitOther e \<Rightarrow> (-1, pr_stderr p1, Some e), p1)))"

definition process_Done :: "process \<Rightarrow> bool" where
  "process_Done p = pr_ctx_done p"

subsection \<open>The search order\<close>

text \<open>The directories tried, in order: those that could be computed.\<close>

definition candidates_cwd :: "os \<Rightarrow> string list" where
  "candidates_cwd sys = (case Abs (os_Getwd sys) ''.venv'' of Inl e \<Rightarrow> [] | Inr root \<Rightarrow> [root])"

definition candidates_exe :: "os \<Rightarrow> string list" where
  "candidates_exe sys =
     (case os_Executable sys of
        Inl e \<Rightarrow> []
      | Inr p \<Rightarrow>
          (case Abs (os_Getwd sys) (Join_all [Dir p, ''..'', ''.venv'']) of Inl e \<Rightarrow> [] | Inr root \<Rightarrow> [root])
          @ [Join (Dir p) ''python''])"

text \<open>\<open>FindVenv\<close> answers the first of its candidates (the working directory's environment, the one
  next to the executable's directory, the bundled interpreter) whose interpreter exists, with
  its interpreter path and whether it can be written to, and fails only when none has one. A
  candidate that cannot be computed is skipped, it does not end the search.\<close>

theorem venv_is_first_candidate:
  "FindVenv sys =
     (case find (\<lambda>root. os_Stat sys (Join root (pythonRel sys)) = None) (candidates_cwd sys @ candidates_exe sys) of
        Some root \<Rightarrow> Inr (venv_at sys root)
      | None \<Rightarrow> Inl no_python)"
proof -
  have exe: "FindVenv_exe sys =
     (case find (\<lambda>root. os_Stat sys (Join root (pythonRel sys)) = None) (candidates_exe sys) of
        Some root \<Rightarrow> Inr (venv_at sys root) | None \<Rightarrow> Inl no_python)"
  proof (cases "os_Executable sys")
    case (Inr p)
    then show ?thesis
      by (cases "Abs (os_Getwd sys) (Join_all [Dir p, ''..'', ''.venv''])")
        (simp_all add: FindVenv_exe_def candidates_exe_def Let_def)
  qed (simp add: FindVenv_exe_def candidates_exe_def)
  show ?thesis
    by (cases "Abs (os_Getwd sys) ''.venv''") (simp_all add: FindVenv_def candidates_cwd_def exe)
qed

subsection \<open>The child's environment\<close>

text \<open>What the child sees of a list of assignments: the last one for a name counts.\<close>

definition env_lookup :: "string \<Rightarrow> string list \<Rightarrow> string option" where
  "env_lookup k env =
     map_option (drop (Suc (length k))) (find (\<lambda>e. hasPrefix e (k @ ''='')) (rev env))"

lemma env_lookup_snoc:
  "env_lookup k (env @ [e]) =
     (if hasPrefix e (k @ ''='') then Some (drop (Suc (length k)) e) else env_lookup k env)"
  by (simp add: env_lookup_def)

lemma hasPrefix_assign:
  "CHR ''='' \<notin> set k \<Longrightarrow> CHR ''='' \<notin> set n \<Longrightarrow> hasPrefix (n @ CHR ''='' # v) (k @ ''='') \<longleftrightarrow> k = n"
proof -
  assume k: "CHR ''='' \<notin> set k" and n: "CHR ''='' \<notin> set n"
  have "k = n" if "prefix (k @ ''='') (n @ CHR ''='' # v)"
  proof -
    from that obtain rest where "n @ CHR ''='' # v = k @ CHR ''='' # rest" by (auto simp: prefix_def)
    then have "takeWhile (\<lambda>c. c \<noteq> CHR ''='') (n @ CHR ''='' # v) = takeWhile (\<lambda>c. c \<noteq> CHR ''='') (k @ CHR ''='' # rest)"
      by simp
    moreover have "takeWhile (\<lambda>c. c \<noteq> CHR ''='') xs = xs" if "CHR ''='' \<notin> set xs" for xs
      using that by (auto simp: takeWhile_eq_all_conv)
    ultimately show ?thesis using k n by (simp add: takeWhile_append)
  qed
  then show ?thesis by (auto simp: hasPrefix_iff_prefix)
qed

lemma process_env_lookup:
  assumes "CHR ''='' \<notin> set k"
  shows "env_lookup k (process_env sys p) =
     (if k = ''RUN_ID'' then Some (pr_RunID p)
      else if k = ''GRPC_ADDRESS'' then Some (pr_GRPCAddr p)
      else if k = ''PYTHONPATH'' \<and> pr_LibDir p \<noteq> [] then
        Some (pr_LibDir p @ (if os_Getenv sys ''PYTHONPATH'' = [] then []
                             else list_separator sys @ os_Getenv sys ''PYTHONPATH''))
      else env_lookup k (os_Environ sys))"
proof -
  have run: "hasPrefix (''RUN_ID='' @ v) (k @ ''='') \<longleftrightarrow> k = ''RUN_ID''" for v
    using hasPrefix_assign [OF assms, of "''RUN_ID''" v] by simp
  have addr: "hasPrefix (''GRPC_ADDRESS='' @ v) (k @ ''='') \<longleftrightarrow> k = ''GRPC_ADDRESS''" for v
    using hasPrefix_assign [OF assms, of "''GRPC_ADDRESS''" v] by simp
  have path: "hasPrefix (''PYTHONPATH='' @ v) (k @ ''='') \<longleftrightarrow> k = ''PYTHONPATH''" for v
    using hasPrefix_assign [OF assms, of "''PYTHONPATH''" v] by simp
  have base: "env_lookup k (os_Environ sys @ [''GRPC_ADDRESS='' @ pr_GRPCAddr p, ''RUN_ID='' @ pr_RunID p]) =
     (if k = ''RUN_ID'' then Some (pr_RunID p) else if k = ''GRPC_ADDRESS'' then Some (pr_GRPCAddr p)
      else env_lookup k (os_Environ sys))"
    using env_lookup_snoc [of k "os_Environ sys @ [''GRPC_ADDRESS='' @ pr_GRPCAddr p]" "''RUN_ID='' @ pr_RunID p"]
      env_lookup_snoc [of k "os_Environ sys" "''GRPC_ADDRESS='' @ pr_GRPCAddr p"]
    unfolding run addr by simp
  show ?thesis
  proof (cases "pr_LibDir p = []")
    case True
    then show ?thesis using base by (simp add: process_env_def Let_def)
  next
    case False
    define v where "v = pr_LibDir p @ (if os_Getenv sys ''PYTHONPATH'' = [] then []
        else list_separator sys @ os_Getenv sys ''PYTHONPATH'')"
    have "process_env sys p = (os_Environ sys @ [''GRPC_ADDRESS='' @ pr_GRPCAddr p, ''RUN_ID='' @ pr_RunID p])
        @ [''PYTHONPATH='' @ v]"
      using False by (simp add: process_env_def Let_def v_def)
    then show ?thesis
      using env_lookup_snoc [of k "os_Environ sys @ [''GRPC_ADDRESS='' @ pr_GRPCAddr p, ''RUN_ID='' @ pr_RunID p]" "''PYTHONPATH='' @ v"]
      unfolding path base using False by (simp add: v_def)
  qed
qed

text \<open>The environment of the script's process: it finds the server's address and its own run id,
  whatever the parent's environment held for them; \<open>PYTHONPATH\<close> is the library directory, put
  in front of the parent's if that has one, and is left alone when there is no library
  directory; every other variable is the parent's.\<close>

theorem child_environment:
  assumes "CHR ''='' \<notin> set k"
  shows "env_lookup k (process_env sys p) =
     (if k = ''RUN_ID'' then Some (pr_RunID p)
      else if k = ''GRPC_ADDRESS'' then Some (pr_GRPCAddr p)
      else if k = ''PYTHONPATH'' \<and> pr_LibDir p \<noteq> [] then
        Some (pr_LibDir p @ (if os_Getenv sys ''PYTHONPATH'' = [] then []
                             else list_separator sys @ os_Getenv sys ''PYTHONPATH''))
      else env_lookup k (os_Environ sys))"
  by (rule process_env_lookup [OF assms])

definition test_os :: os where
  "test_os = \<lparr>os_windows = False, os_Getwd = Inr ''/w'', os_Executable = Inr ''/app/bin/runner'',
     os_Stat = (\<lambda>p. if p = ''/app/.venv/bin/python3'' then None else Some (Errorf ''no such file'' None)),
     os_CreateTemp = (\<lambda>_. None), os_Environ = [''PATH=/bin'', ''RUN_ID=old'', ''PYTHONPATH=/old''],
     os_Getenv = (\<lambda>k. if k = ''PYTHONPATH'' then ''/old'' else []), os_ErrClosed = (\<lambda>_. False)\<rparr>"

lemma child_environment_witness:
  "env_lookup ''PYTHONPATH'' (process_env test_os (NewProcess ''r1'' ''/s'' ''/lib'' [] ''localhost:1'')) = Some ''/lib:/old'' \<and>
   env_lookup ''RUN_ID'' (process_env test_os (NewProcess ''r1'' ''/s'' ''/lib'' [] ''localhost:1'')) = Some ''r1''"
  using child_environment [of "''PYTHONPATH''" test_os "NewProcess ''r1'' ''/s'' ''/lib'' [] ''localhost:1''"]
    child_environment [of "''RUN_ID''" test_os "NewProcess ''r1'' ''/s'' ''/lib'' [] ''localhost:1''"]
  by (simp add: NewProcess_def test_os_def list_separator_def)

end
