(* ===== verification/ProcessRun.thy ===== *)
theory ProcessRun
  imports Lifecycle Process
begin

section \<open>ProcessRun: the goroutines around a child process\<close>

text \<open>
  The stages of \<^verbatim>\<open>internal/runner/process.go\<close> in time: the child and whatever inherited its stderr
  write to the pipe, the reader goroutine of \<open>Start\<close> drains it, \<open>Wait\<close> reaps the child, and anybody
  may cancel. The steps use the operations of \<open>Process\<close>. Of \<^verbatim>\<open>os/exec\<close> they rest on what it
  documents: the child of a command with a cancelled context is killed; \<open>cmd.Wait\<close> closes the
  parent's end of the pipe once it has seen the child exit, and reading a closed pipe fails with
  \<open>os.ErrClosed\<close>. Then the process is joined with the manager: \<open>StartRun\<close> with the process it
  spawns, and \<open>waitForExit\<close> fed by \<open>Wait\<close>.
\<close>

subsection \<open>Pipe, reader, Wait\<close>

datatype wait_pc = WaitBegun | Reaped wait_answer | Draining wait_answer | WaitReturned "int \<times> string \<times> goerror option"

text \<open>
  \<open>pw_written\<close> is everything that was written to the pipe, \<open>pw_pipe\<close> what is still in it,
  \<open>pw_read\<close> what \<open>io.ReadAll\<close> has so far; \<open>pw_writers\<close> says that somebody holds the write end,
  \<open>pw_closed\<close> that the read end was closed, \<open>pw_exit\<close> what \<open>cmd.Wait\<close> answers once the child has
  exited.
\<close>

record proc_world =
  pw_proc :: process
  pw_written :: string
  pw_pipe :: string
  pw_read :: string
  pw_writers :: bool
  pw_closed :: bool
  pw_exit :: "wait_answer option"
  pw_wait :: wait_pc

text \<open>The steps that lead to the return of \<open>Wait\<close>, and the others.\<close>

inductive wait_step :: "os \<Rightarrow> proc_world \<Rightarrow> proc_world \<Rightarrow> bool" for sys :: os where
  ws_kill: "process_Done (pw_proc w) \<Longrightarrow> pw_exit w = None \<Longrightarrow> wait_step sys w (w\<lparr>pw_exit := Some ans\<rparr>)"
| ws_reap: "pw_wait w = WaitBegun \<Longrightarrow> pw_exit w = Some ans \<Longrightarrow>
    wait_step sys w (w\<lparr>pw_closed := True, pw_wait := Reaped ans\<rparr>)"
| ws_cancel: "pw_wait w = Reaped ans \<Longrightarrow>
    wait_step sys w (w\<lparr>pw_proc := process_Cancel (pw_proc w), pw_wait := Draining ans\<rparr>)"
| ws_return: "pw_wait w = Draining ans \<Longrightarrow> process_Wait ans (pw_proc w) = Ret (res, p) \<Longrightarrow>
    wait_step sys w (w\<lparr>pw_proc := p, pw_wait := WaitReturned res\<rparr>)"
| ws_eof: "\<not> pr_stderrDone (pw_proc w) \<Longrightarrow> \<not> pw_closed w \<Longrightarrow> \<not> pw_writers w \<Longrightarrow> pw_pipe w = [] \<Longrightarrow>
    stderr_reader sys (pw_read w) None (pw_proc w) = Ret p \<Longrightarrow> wait_step sys w (w\<lparr>pw_proc := p\<rparr>)"
| ws_closed: "\<not> pr_stderrDone (pw_proc w) \<Longrightarrow> pw_closed w \<Longrightarrow> os_ErrClosed sys e \<Longrightarrow>
    stderr_reader sys (pw_read w) (Some e) (pw_proc w) = Ret p \<Longrightarrow> wait_step sys w (w\<lparr>pw_proc := p\<rparr>)"

inductive side_step :: "os \<Rightarrow> proc_world \<Rightarrow> proc_world \<Rightarrow> bool" for sys :: os where
  ss_write: "pw_writers w \<Longrightarrow> \<not> pw_closed w \<Longrightarrow>
    side_step sys w (w\<lparr>pw_written := pw_written w @ s, pw_pipe := pw_pipe w @ s\<rparr>)"
| ss_exit: "pw_exit w = None \<Longrightarrow> side_step sys w (w\<lparr>pw_exit := Some ans\<rparr>)"
| ss_writers: "side_step sys w (w\<lparr>pw_writers := False\<rparr>)"
| ss_read: "\<not> pr_stderrDone (pw_proc w) \<Longrightarrow> \<not> pw_closed w \<Longrightarrow> pw_pipe w = xs @ ys \<Longrightarrow>
    side_step sys w (w\<lparr>pw_read := pw_read w @ xs, pw_pipe := ys\<rparr>)"
| ss_error: "\<not> pr_stderrDone (pw_proc w) \<Longrightarrow> \<not> pw_closed w \<Longrightarrow>
    stderr_reader sys (pw_read w) (Some e) (pw_proc w) = Ret p \<Longrightarrow> side_step sys w (w\<lparr>pw_proc := p\<rparr>)"
| ss_cancel: "side_step sys w (w\<lparr>pw_proc := process_Cancel (pw_proc w)\<rparr>)"

definition proc_step :: "os \<Rightarrow> proc_world \<Rightarrow> proc_world \<Rightarrow> bool" where
  "proc_step sys w w' \<longleftrightarrow> wait_step sys w w' \<or> side_step sys w w'"

text \<open>After a \<open>Start\<close> that succeeded.\<close>

definition proc_init :: "os \<Rightarrow> process \<Rightarrow> proc_world \<Rightarrow> bool" where
  "proc_init sys p0 w \<longleftrightarrow>
     pr_stderr p0 = [] \<and> \<not> pr_stderrDone p0 \<and> process_Start sys None None p0 = (None, pw_proc w) \<and>
     pw_written w = [] \<and> pw_pipe w = [] \<and> pw_read w = [] \<and> pw_writers w \<and> \<not> pw_closed w \<and>
     pw_exit w = None \<and> pw_wait w = WaitBegun"

definition wait_result :: "wait_answer \<Rightarrow> string \<Rightarrow> int \<times> string \<times> goerror option" where
  "wait_result ans s = (case ans of WaitOk \<Rightarrow> (0, s, None) | WaitExit code e \<Rightarrow> (code, s, Some e) | WaitOther e \<Rightarrow> (-1, s, Some e))"

definition capture_note :: "os \<Rightarrow> string \<Rightarrow> bool" where
  "capture_note sys s \<longleftrightarrow> s = [] \<or>
     (\<exists>e. \<not> os_ErrClosed sys e \<and> s = ''[stderr capture failed: '' @ error_text e @ '']'')"

fun wait_ok :: "wait_pc \<Rightarrow> proc_world \<Rightarrow> bool" where
  "wait_ok WaitBegun w = (\<not> pw_closed w)"
| "wait_ok (Reaped ans) w = (pw_closed w \<and> pw_exit w = Some ans)"
| "wait_ok (Draining ans) w = (pw_closed w \<and> pw_exit w = Some ans \<and> process_Done (pw_proc w))"
| "wait_ok (WaitReturned res) w = (\<exists>ans. pw_closed w \<and> pw_exit w = Some ans \<and> process_Done (pw_proc w) \<and>
     pr_stderrDone (pw_proc w) \<and> res = wait_result ans (pr_stderr (pw_proc w)))"

definition proc_inv :: "os \<Rightarrow> proc_world \<Rightarrow> bool" where
  "proc_inv sys w \<longleftrightarrow>
     pr_cmd (pw_proc w) \<noteq> None \<and> pw_written w = pw_read w @ pw_pipe w \<and>
     (if pr_stderrDone (pw_proc w) then \<exists>note. pr_stderr (pw_proc w) = pw_read w @ note \<and> capture_note sys note
      else pr_stderr (pw_proc w) = []) \<and>
     wait_ok (pw_wait w) w"

lemma process_Cancel_fields [simp]:
  "pr_cmd (process_Cancel p) = pr_cmd p" "pr_stderr (process_Cancel p) = pr_stderr p"
  "pr_stderrDone (process_Cancel p) = pr_stderrDone p" "process_Done (process_Cancel p)"
  "pr_RunID (process_Cancel p) = pr_RunID p"
  by (simp_all add: process_Cancel_def process_Done_def)

lemma process_Wait_Ret:
  "process_Wait ans p = Ret (res, p') \<longleftrightarrow>
     pr_cmd p \<noteq> None \<and> pr_stderrDone p \<and> p' = process_Cancel p \<and> res = wait_result ans (pr_stderr p)"
  by (auto simp: process_Wait_def wait_result_def Let_def split: option.splits wait_answer.splits)

lemma stderr_reader_Ret:
  "stderr_reader sys data err p = Ret p' \<longleftrightarrow> \<not> pr_stderrDone p \<and>
     p' = p\<lparr>pr_stderr := pr_stderr p @ data @ (case err of None \<Rightarrow> []
       | Some e \<Rightarrow> if os_ErrClosed sys e then [] else ''[stderr capture failed: '' @ error_text e @ '']''),
       pr_stderrDone := True\<rparr>"
  by (auto simp: stderr_reader_def Let_def)

lemma process_Done_reader [simp]:
  "process_Done (p\<lparr>pr_stderr := s, pr_stderrDone := b\<rparr>) = process_Done p"
  by (simp add: process_Done_def)

lemma process_Cancel_done: "process_Done p \<Longrightarrow> process_Cancel p = p"
  by (simp add: process_Cancel_def process_Done_def)

lemma reader_note: "capture_note sys (case err of None \<Rightarrow> []
    | Some e \<Rightarrow> if os_ErrClosed sys e then [] else ''[stderr capture failed: '' @ error_text e @ '']'')"
  unfolding capture_note_def by (cases err) auto

lemma proc_inv_reader:
  assumes inv: "proc_inv sys w" and read: "stderr_reader sys (pw_read w) err (pw_proc w) = Ret p"
  shows "proc_inv sys (w\<lparr>pw_proc := p\<rparr>)"
proof -
  define rest where "rest = (case err of None \<Rightarrow> []
    | Some e \<Rightarrow> if os_ErrClosed sys e then [] else ''[stderr capture failed: '' @ error_text e @ '']'')"
  have done_: "\<not> pr_stderrDone (pw_proc w)"
    and p: "p = (pw_proc w)\<lparr>pr_stderr := pr_stderr (pw_proc w) @ pw_read w @ rest, pr_stderrDone := True\<rparr>"
    using read by (simp_all add: stderr_reader_Ret rest_def)
  have "capture_note sys rest" unfolding rest_def by (rule reader_note)
  with inv done_ show ?thesis unfolding p by (cases "pw_wait w") (auto simp: proc_inv_def)
qed

lemma proc_inv_wait:
  assumes "proc_inv sys w" "wait_step sys w w'"
  shows "proc_inv sys w'"
  using assms(2)
proof cases
  case (ws_kill ans)
  with assms(1) show ?thesis by (cases "pw_wait w") (auto simp: proc_inv_def)
next
  case (ws_reap ans)
  with assms(1) show ?thesis by (auto simp: proc_inv_def)
next
  case (ws_cancel ans)
  with assms(1) show ?thesis by (auto simp: proc_inv_def)
next
  case (ws_return ans res p)
  with assms(1) show ?thesis by (auto simp: proc_inv_def process_Wait_Ret)
next
  case (ws_eof p)
  with assms(1) show ?thesis by (auto intro: proc_inv_reader)
next
  case (ws_closed e p)
  with assms(1) show ?thesis by (auto intro: proc_inv_reader)
qed

lemma proc_inv_side:
  assumes "proc_inv sys w" "side_step sys w w'"
  shows "proc_inv sys w'"
  using assms(2)
proof cases
  case (ss_write s)
  with assms(1) show ?thesis by (cases "pw_wait w") (auto simp: proc_inv_def)
next
  case (ss_exit ans)
  with assms(1) show ?thesis by (cases "pw_wait w") (auto simp: proc_inv_def)
next
  case ss_writers
  with assms(1) show ?thesis by (cases "pw_wait w") (auto simp: proc_inv_def)
next
  case (ss_read xs ys)
  with assms(1) show ?thesis by (cases "pw_wait w") (auto simp: proc_inv_def)
next
  case (ss_error e p)
  with assms(1) show ?thesis by (auto intro: proc_inv_reader)
next
  case ss_cancel
  with assms(1) show ?thesis by (cases "pw_wait w") (auto simp: proc_inv_def)
qed

lemma process_Start_None:
  assumes "process_Start sys None None p0 = (None, p)"
  shows "\<exists>python. p = p0\<lparr>pr_cmd := Some ([python, Join (pr_ScriptDir p0) ''main.py''], process_env sys p0), pr_running := True\<rparr>"
  using assms by (fastforce simp: process_Start_def Let_def split: sum.splits if_splits)

interpretation reaping: inv_system "proc_init sys p0" "proc_step sys" "proc_inv sys" for sys :: os and p0 :: process
proof
  show "proc_inv sys w" if "proc_init sys p0 w" for w
    using that process_Start_None [of sys p0 "pw_proc w"] by (auto simp: proc_init_def proc_inv_def)
  show "proc_inv sys w'" if "proc_inv sys w" "proc_step sys w w'" for w w'
    using that by (auto simp: proc_step_def intro: proc_inv_wait proc_inv_side)
qed

subsection \<open>Progress\<close>

text \<open>How many steps \<open>Wait\<close> is away from returning, at most.\<close>

definition effort :: "proc_world \<Rightarrow> nat" where
  "effort w = (if pw_exit w = None then 1 else 0) + (if pr_stderrDone (pw_proc w) then 0 else 1) +
     (case pw_wait w of WaitBegun \<Rightarrow> 3 | Reaped ans \<Rightarrow> 2 | Draining ans \<Rightarrow> 1 | WaitReturned res \<Rightarrow> 0)"

definition ending :: "proc_world \<Rightarrow> bool" where
  "ending w \<longleftrightarrow> pw_exit w \<noteq> None \<or> process_Done (pw_proc w)"

definition wait_returned :: "proc_world \<Rightarrow> bool" where
  "wait_returned w \<longleftrightarrow> (\<exists>res. pw_wait w = WaitReturned res)"

lemma wait_step_effort: "wait_step sys w w' \<Longrightarrow> effort w' < effort w"
  by (erule wait_step.cases) (auto simp: effort_def process_Wait_Ret stderr_reader_Ret split: wait_pc.splits)

lemma side_step_effort: "side_step sys w w' \<Longrightarrow> effort w' \<le> effort w"
  by (erule side_step.cases) (auto simp: effort_def stderr_reader_Ret split: wait_pc.splits)

lemma effort_bound: "effort w \<le> 5"
  by (simp add: effort_def split: wait_pc.splits)

lemma ending_step: "proc_step sys w w' \<Longrightarrow> ending w \<Longrightarrow> ending w'"
  by (auto simp: proc_step_def ending_def process_Wait_Ret stderr_reader_Ret
      elim!: wait_step.cases side_step.cases)

lemma wait_enabled:
  assumes inv: "proc_inv sys w" and "ending w" "\<not> wait_returned w" and closed: "os_ErrClosed sys e"
  shows "\<exists>w'. wait_step sys w w'"
proof (cases "pw_wait w")
  case WaitBegun
  show ?thesis
  proof (cases "pw_exit w")
    case None
    with assms(2) show ?thesis by (auto simp: ending_def intro: ws_kill)
  next
    case (Some ans)
    with WaitBegun show ?thesis by (blast intro: ws_reap)
  qed
next
  case (Reaped ans)
  then show ?thesis by (blast intro: ws_cancel)
next
  case (Draining ans)
  then have w: "pw_closed w" "pr_cmd (pw_proc w) \<noteq> None" using inv by (auto simp: proc_inv_def)
  show ?thesis
  proof (cases "pr_stderrDone (pw_proc w)")
    case True
    with w show ?thesis
      using ws_return [OF Draining, of "wait_result ans (pr_stderr (pw_proc w))" "process_Cancel (pw_proc w)" sys]
      by (auto simp: process_Wait_Ret)
  next
    case False
    from ws_closed [OF this w(1) closed] False show ?thesis by (auto simp: stderr_reader_Ret)
  qed
next
  case (WaitReturned res)
  then have "wait_returned w" unfolding wait_returned_def by (rule exI)
  with assms(3) show ?thesis ..
qed

lemma wait_terminates:
  assumes "proc_inv sys w" "ending w" "os_ErrClosed sys e"
  shows "\<exists>w'. (wait_step sys)\<^sup>*\<^sup>* w w' \<and> wait_returned w'"
  using assms
proof (induction "effort w" arbitrary: w rule: less_induct)
  case less
  show ?case
  proof (cases "wait_returned w")
    case False
    obtain w1 where w1: "wait_step sys w w1" using wait_enabled [OF less.prems(1,2) False less.prems(3)] ..
    have "proc_inv sys w1" "ending w1"
      using less.prems w1 by (auto intro: proc_inv_wait ending_step simp: proc_step_def)
    then obtain w2 where "(wait_step sys)\<^sup>*\<^sup>* w1 w2" "wait_returned w2"
      using less.hyps [OF wait_step_effort [OF w1]] less.prems(3) by blast
    with w1 show ?thesis by (blast intro: converse_rtranclp_into_rtranclp)
  qed blast
qed

subsection \<open>The process of a run\<close>

text \<open>
  \<open>StartRun\<close> with the process it makes: \<open>libDir\<close> and \<open>pythonPath\<close> are the manager's fields,
  \<open>addr\<close> the server's address.
\<close>

definition spawn ::
    "os \<Rightarrow> goerror option \<Rightarrow> goerror option \<Rightarrow> string \<Rightarrow> string \<Rightarrow> string \<Rightarrow>
       run_id \<Rightarrow> string \<Rightarrow> (string \<times> string) list \<Rightarrow> goerror option \<times> process" where
  "spawn sys pipeErr startErr libDir pythonPath addr runID scriptDir params =
     process_Start sys pipeErr startErr
       ((NewProcess runID scriptDir libDir params addr)\<lparr>pr_PythonPath := pythonPath\<rparr>)"

definition StartRun_process ::
    "'d outside \<Rightarrow> ((string \<times> string) list \<Rightarrow> string) \<Rightarrow> os \<Rightarrow> goerror option \<Rightarrow> goerror option \<Rightarrow>
       string \<Rightarrow> string \<Rightarrow> string \<Rightarrow> run_id \<Rightarrow> time \<Rightarrow> script_id \<Rightarrow> (string \<times> string) list \<Rightarrow> string \<Rightarrow>
       'd manager \<Rightarrow> ((goerror + run_id \<times> nat) \<times> process \<times> 'd manager) go" where
  "StartRun_process out json sys pipeErr startErr libDir pythonPath addr runID startedAt scriptID params scriptDir m =
     (case spawn sys pipeErr startErr libDir pythonPath addr runID scriptDir params of
        (err, proc) \<Rightarrow> go_bind (StartRun out json err runID startedAt scriptID params m) (\<lambda>(res, m').
          Ret (res, proc, m')))"

lemma StartRun_awaiting:
  assumes inv: "server_inv m" and db: "sv_db m \<noteq> None" and s: "StartRun out json res r t sid ps m = Ret (Inr (q, a), m')"
  shows "res = None \<and> q = r \<and> awaiting r a m' \<and> chan_at a m' = newRunChannel"
proof (cases res)
  case (Some e)
  with s show ?thesis by (auto simp: StartRun_def go_bind_eq_Ret split: prod.splits)
next
  case None
  have m': "sv_runs m' = (sv_runs m)(r \<mapsto> length (sv_chans m))" "sv_chans m' = sv_chans m @ [newRunChannel]"
      "sv_cache m' = sv_cache m" "sv_db m' \<noteq> None" "q = r" "a = length (sv_chans m)"
    using StartRun_started [of out json r t sid ps m] s db None by auto
  have "server_inv m'"
    by (rule server_inv_cong [OF RegisterRun_inv [OF inv, of r]])
      (simp_all add: RegisterRun_def m' server_inv_cache [OF inv])
  moreover have "chan_at a m' = newRunChannel" by (simp add: chan_at_def m')
  ultimately show ?thesis using m' None by (simp add: awaiting_def) (simp add: newRunChannel_def)
qed

lemma spawn_started:
  assumes "spawn sys pipeErr startErr libDir python addr r dir ps = (None, p)"
  shows "\<exists>exe. pr_cmd p = Some ([exe, Join dir ''main.py''],
      process_env sys (NewProcess r dir libDir ps addr)) \<and> pr_running p"
proof -
  have "pipeErr = None" "startErr = None"
    using assms by (auto simp: spawn_def process_Start_def Let_def split: sum.splits option.splits)
  with assms have "process_Start sys None None ((NewProcess r dir libDir ps addr)\<lparr>pr_PythonPath := python\<rparr>) = (None, p)"
    by (simp add: spawn_def)
  from process_Start_None [OF this] show ?thesis
    by (auto simp: NewProcess_def process_env_def Let_def)
qed

text \<open>A cancel leaves the server and the channels as they are.\<close>

lemma CancelRun_server:
  "sv_runs (snd (CancelRun out r m)) = sv_runs m" "sv_chans (snd (CancelRun out r m)) = sv_chans m"
  "sv_cache (snd (CancelRun out r m)) = sv_cache m"
proof -
  have "sv_runs (snd (CancelRun out r m)) = sv_runs m \<and> sv_chans (snd (CancelRun out r m)) = sv_chans m \<and>
      sv_cache (snd (CancelRun out r m)) = sv_cache m"
  proof (cases "mg_activeRuns m r")
    case None
    then show ?thesis by (simp add: CancelRun_def)
  next
    case (Some s)
    let ?m = "m\<lparr>mg_activeRuns := (mg_activeRuns m)(r \<mapsto> s\<lparr>rs_cancelRequested := True\<rparr>)\<rparr>"
    obtain e m' where send: "SendCancel out r ?m = (e, m')" by force
    then have "m' = snd (send_imperative out r ServerMessage_Cancel ?m)" by (simp add: SendCancel_def)
    then have "sv_runs m' = sv_runs m" "sv_chans m' = sv_chans m" "sv_cache m' = sv_cache m"
      by (simp_all add: send_imperative_frame)
    with Some send show ?thesis by (cases e) (simp_all add: CancelRun_def Let_def proc_Cancel_def)
  qed
  then show "sv_runs (snd (CancelRun out r m)) = sv_runs m" "sv_chans (snd (CancelRun out r m)) = sv_chans m"
    "sv_cache (snd (CancelRun out r m)) = sv_cache m" by simp_all
qed

subsection \<open>Properties\<close>

text \<open>\<open>Wait\<close> always returns. From the moment the child has exited or somebody has cancelled, as
  long as \<open>Wait\<close> has not returned, one of the steps that lead to its return can be taken; each of
  them brings it closer, no other step takes it back, and five of them are always enough: neither
  a child that ignores the cancel nor a grandchild that keeps the pipe open can hold it up.\<close>

theorem wait_always_returns:
  assumes "reach (proc_init sys p0) (proc_step sys) w" and "pw_exit w \<noteq> None \<or> process_Done (pw_proc w)"
    and "os_ErrClosed sys e"
  shows "(\<not> wait_returned w \<longrightarrow> (\<exists>w'. wait_step sys w w')) \<and>
     (\<forall>w'. wait_step sys w w' \<longrightarrow> effort w' < effort w) \<and>
     (\<forall>w'. side_step sys w w' \<longrightarrow> effort w' \<le> effort w) \<and>
     (\<forall>w'. proc_step sys w w' \<longrightarrow> pw_exit w' \<noteq> None \<or> process_Done (pw_proc w')) \<and> effort w \<le> 5 \<and>
     (\<exists>w'. (wait_step sys)\<^sup>*\<^sup>* w w' \<and> wait_returned w')"
proof -
  have inv: "proc_inv sys w" by (rule reaping.reach_inv [OF assms(1)])
  have ending: "ending w" using assms(2) by (simp add: ending_def)
  show ?thesis
    using wait_enabled [OF inv ending _ assms(3)] wait_terminates [OF inv ending assms(3)]
      wait_step_effort [of sys w] side_step_effort [of sys w] effort_bound [of w] ending_step [OF _ ending, of sys]
    unfolding ending_def by blast
qed

text \<open>What \<open>Wait\<close> returns, under every interleaving of the child's writes, the reader, the closing of
  the pipe and cancels: the exit code and error of the child's exit, and of what was written to
  stderr an initial part, in order and unchanged, followed at most by the note that reading failed.
  By then the context is cancelled, so that whoever waits on \<open>Done\<close> goes on, and the reader is
  finished with the buffer.\<close>

theorem wait_reports_the_exit:
  assumes "reach (proc_init sys p0) (proc_step sys) w" and "pw_wait w = WaitReturned (code, stderr, err)"
  shows "\<exists>ans n s. pw_exit w = Some ans \<and>
     (code, err) = (case ans of WaitOk \<Rightarrow> (0, None) | WaitExit c e \<Rightarrow> (c, Some e) | WaitOther e \<Rightarrow> (-1, Some e)) \<and>
     stderr = take n (pw_written w) @ s \<and> capture_note sys s \<and>
     process_Done (pw_proc w) \<and> pr_stderrDone (pw_proc w)"
proof -
  have inv: "proc_inv sys w" by (rule reaping.reach_inv [OF assms(1)])
  then obtain ans where ans: "pw_exit w = Some ans" "process_Done (pw_proc w)" "pr_stderrDone (pw_proc w)"
    "(code, stderr, err) = wait_result ans (pr_stderr (pw_proc w))"
    using assms(2) by (auto simp: proc_inv_def)
  moreover obtain s where "pr_stderr (pw_proc w) = pw_read w @ s" "capture_note sys s"
    using inv ans(3) by (auto simp: proc_inv_def)
  moreover have "pw_read w = take (length (pw_read w)) (pw_written w)" using inv by (simp add: proc_inv_def)
  ultimately show ?thesis
    by (intro exI [of _ ans] exI [of _ "length (pw_read w)"] exI [of _ s])
      (auto simp: wait_result_def split: wait_answer.splits)
qed

text \<open>The prefix can be proper: a child that writes a traceback and exits is reaped before the reader has
  read anything, the pipe is closed under the reader, and the error is suppressed.\<close>

theorem stderr_can_be_cut_off:
  assumes "proc_init sys p0 w0" "os_ErrClosed sys e"
  shows "\<exists>w. reach (proc_init sys p0) (proc_step sys) w \<and> pw_written w = s \<and>
     pw_wait w = WaitReturned (1, [], Some err)"
proof -
  let ?w1 = "w0\<lparr>pw_written := s, pw_pipe := s\<rparr>"
  let ?w2 = "?w1\<lparr>pw_exit := Some (WaitExit 1 err)\<rparr>"
  let ?w3 = "?w2\<lparr>pw_closed := True, pw_wait := Reaped (WaitExit 1 err)\<rparr>"
  let ?p = "(pw_proc w0)\<lparr>pr_stderrDone := True\<rparr>"
  let ?w4 = "?w3\<lparr>pw_proc := ?p\<rparr>"
  let ?w5 = "?w4\<lparr>pw_proc := process_Cancel ?p, pw_wait := Draining (WaitExit 1 err)\<rparr>"
  let ?w6 = "?w5\<lparr>pw_wait := WaitReturned (1, [], Some err)\<rparr>"
  obtain cmd where p: "pw_proc w0 = p0\<lparr>pr_cmd := Some cmd, pr_running := True\<rparr>"
    using process_Start_None [of sys p0 "pw_proc w0"] assms(1) by (auto simp: proc_init_def)
  have w0: "pw_written w0 = []" "pw_pipe w0 = []" "pw_read w0 = []" "pw_writers w0" "\<not> pw_closed w0"
      "pw_exit w0 = None" "pw_wait w0 = WaitBegun" "pr_stderr (pw_proc w0) = []" "\<not> pr_stderrDone (pw_proc w0)"
      "pr_cmd (pw_proc w0) \<noteq> None"
    using assms(1) by (simp_all add: proc_init_def p)
  let ?r = "reach (proc_init sys p0) (proc_step sys)"
  have "?r w0" using assms(1) by (rule reach_init)
  moreover have "side_step sys w0 ?w1" using ss_write [of w0 sys s] w0 by simp
  ultimately have "?r ?w1" by (auto intro: reach_step simp: proc_step_def)
  moreover have "side_step sys ?w1 ?w2" using w0 by (intro ss_exit) simp
  ultimately have "?r ?w2" by (auto intro: reach_step simp: proc_step_def)
  moreover have "wait_step sys ?w2 ?w3" using w0 by (intro ws_reap) simp_all
  ultimately have "?r ?w3" by (auto intro: reach_step simp: proc_step_def)
  moreover have "wait_step sys ?w3 ?w4" using w0 assms(2) by (intro ws_closed [where e = e]) (simp_all add: stderr_reader_Ret)
  ultimately have "?r ?w4" by (auto intro: reach_step simp: proc_step_def)
  moreover have "wait_step sys ?w4 ?w5" using ws_cancel [of ?w4 "WaitExit 1 err" sys] by simp
  ultimately have "?r ?w5" by (auto intro: reach_step simp: proc_step_def)
  moreover have "wait_step sys ?w5 ?w6"
    using ws_return [of ?w5 "WaitExit 1 err" "(1, [], Some err)" "process_Cancel ?p" sys] w0
    by (simp add: process_Wait_Ret wait_result_def process_Cancel_done)
  ultimately have "?r ?w6" by (auto intro: reach_step simp: proc_step_def)
  then show ?thesis by (rule_tac x = ?w6 in exI) simp
qed


text \<open>A cancel settles the run, whatever the script does. \<open>CancelRun\<close> of an active run returns no error and
  has the process's \<open>Cancel\<close> called, at once or when the grace period is over; from then on \<open>Wait\<close>
  returns, and the exit records the run as cancelled, takes it out of the active runs and puts the
  cancelled status behind what the script said.\<close>

theorem cancel_settles_the_run:
  assumes "server_inv m" "sv_runs m r = Some a" "mg_activeRuns m r = Some s" "rs_cancel s" "\<not> IsTerminal (rs_Status s)"
      "room_for (chan_at a m) 1" "range_order (cm_blocks (sv_cache m)) order"
    and "reach (proc_init sys p0) (proc_step sys) w" "os_ErrClosed sys e" and m1: "m1 = snd (CancelRun out r m)"
  shows "fst (CancelRun out r m) = None \<and> (r \<in> set (mg_kills m1) \<or> r \<in> set (mg_timers m1)) \<and>
     (\<exists>w' exit m2. (wait_step sys)\<^sup>*\<^sup>* (w\<lparr>pw_proc := process_Cancel (pw_proc w)\<rparr>) w' \<and>
        pw_wait w' = WaitReturned exit \<and>
        waitForExit out order r sid t exit t' True m1 = Ret m2 \<and>
        mg_history m2 = mg_history m @ [\<lparr>rr_RunID = r, rr_ScriptID = sid, rr_Status = StatusCancelled,
          rr_StartedAt = t, rr_EndedAt = t'\<rparr>] \<and>
        mg_activeRuns m2 r = None \<and> ch_closed (rc_Messages (chan_at a m2)) \<and>
        ch_buf (rc_Messages (chan_at a m2)) = ch_buf (rc_Messages (chan_at a m)) @ [StatusMsg StatusCancelled])"
proof -
  let ?w = "w\<lparr>pw_proc := process_Cancel (pw_proc w)\<rparr>"
  have "proc_inv sys ?w" by (rule proc_inv_side [OF reaping.reach_inv [OF assms(8)] ss_cancel])
  from wait_terminates [OF this _ assms(9)] obtain w' exit
    where w': "(wait_step sys)\<^sup>*\<^sup>* ?w w'" "pw_wait w' = WaitReturned exit"
    by (auto simp: ending_def wait_returned_def)
  obtain code stderr err where exit: "exit = (code, stderr, err)" by (metis prod.exhaust)
  have chan: "chan_at a m1 = chan_at a m" by (simp add: m1 chan_at_def CancelRun_server)
  have inv1: "server_inv m1"
    by (rule server_inv_cong [OF assms(1)]) (simp_all add: m1 CancelRun_server server_inv_cache [OF assms(1)])
  have active: "mg_activeRuns m1 r = Some (s\<lparr>rs_cancelRequested := True\<rparr>)" by (simp add: m1 CancelRun_active assms(3))
  have runs: "sv_runs m1 r = Some a" and cache: "range_order (cm_blocks (sv_cache m1)) order"
    using assms(2,7) by (simp_all add: m1 CancelRun_server)
  have st: "StatusCancelled = deriveFinalStatus r code err m1"
    by (simp add: deriveFinalStatus_def WasCancelled_def active)
  have wait: "WaitStreamDone r True m1 = Ret ()" by (simp add: WaitStreamDone_def Let_def split: option.split)
  have running: "\<not> IsTerminal (rs_Status (s\<lparr>rs_cancelRequested := True\<rparr>))" using assms(5) by simp
  obtain m2 where m2: "waitForExit out order r sid t exit t' True m1 = Ret m2"
    "chan_ended StatusCancelled (chan_at a m) (chan_at a m2)" "mg_activeRuns m2 = (mg_activeRuns m1)(r := None)"
    "mg_history m2 = mg_history m1 @ [\<lparr>rr_RunID = r, rr_ScriptID = sid, rr_Status = StatusCancelled,
       rr_StartedAt = t, rr_EndedAt = t'\<rparr>]"
    using waitForExit_Ret [OF inv1 runs active running _ wait cache st, of out sid t stderr t'] assms(6)
    unfolding chan exit by metis
  have "r \<in> set (mg_kills m1) \<or> r \<in> set (mg_timers m1)"
    using CancelRun_signal [OF assms(3), of out] assms(4) by (auto simp: m1)
  moreover have "fst (CancelRun out r m) = None" by (simp add: CancelRun_result assms(3))
  moreover have "mg_history m1 = mg_history m" by (simp add: m1 CancelRun_active)
  then have "mg_history m2 = mg_history m @ [\<lparr>rr_RunID = r, rr_ScriptID = sid, rr_Status = StatusCancelled,
      rr_StartedAt = t, rr_EndedAt = t'\<rparr>]" "mg_activeRuns m2 r = None"
    using m2(3,4) by simp_all
  ultimately show ?thesis using w' m2(1,2) unfolding chan_ended_def by blast
qed

subsection \<open>Witnesses\<close>

definition test_sys :: os where
  "test_sys = test_os\<lparr>os_ErrClosed := \<lambda>e. e = Errorf ''file already closed'' None\<rparr>"

definition test_proc :: process where
  "test_proc = (NewProcess ''r1'' ''/s/good'' ''/lib'' [] ''localhost:1'')\<lparr>pr_PythonPath := ''python3''\<rparr>"

definition test_child :: process where
  "test_child = test_proc\<lparr>pr_cmd := Some ([''python3'', Join ''/s/good'' ''main.py''], process_env test_sys test_proc),
     pr_running := True\<rparr>"

lemma test_spawn: "process_Start test_sys None None test_proc = (None, test_child)"
  by (simp add: process_Start_def test_child_def test_proc_def NewProcess_def Let_def)

definition test_begun :: proc_world where
  "test_begun = \<lparr>pw_proc = test_child, pw_written = [], pw_pipe = [], pw_read = [], pw_writers = True,
     pw_closed = False, pw_exit = None, pw_wait = WaitBegun\<rparr>"

lemma test_begun_init: "proc_init test_sys test_proc test_begun"
  using test_spawn by (simp add: proc_init_def test_begun_def) (simp add: test_proc_def NewProcess_def)

lemma test_closed: "os_ErrClosed test_sys (Errorf ''file already closed'' None)"
  by (simp add: test_sys_def)

lemma test_begun_reach: "reach (proc_init test_sys test_proc) (proc_step test_sys) test_begun"
  by (rule reach_init) (rule test_begun_init)

lemma test_cancelled_reach:
  "reach (proc_init test_sys test_proc) (proc_step test_sys) (test_begun\<lparr>pw_proc := process_Cancel test_child\<rparr>)"
  using reach_step [OF test_begun_reach, of "test_begun\<lparr>pw_proc := process_Cancel test_child\<rparr>"]
    ss_cancel [of test_sys test_begun] by (simp add: proc_step_def test_begun_def)

lemma wait_always_returns_witness:
  "\<exists>w'. (wait_step test_sys)\<^sup>*\<^sup>* (test_begun\<lparr>pw_proc := process_Cancel test_child\<rparr>) w' \<and> wait_returned w'"
  using wait_always_returns [OF test_cancelled_reach _ test_closed] by simp

lemma stderr_can_be_cut_off_witness:
  "\<exists>w. reach (proc_init test_sys test_proc) (proc_step test_sys) w \<and> pw_written w = ''Traceback'' \<and>
     pw_wait w = WaitReturned (1, [], Some (Errorf ''exit status 1'' None))"
  by (rule stderr_can_be_cut_off [OF test_begun_init test_closed])

text \<open>A child that exits at once: the reader sees the end of the pipe, \<open>Wait\<close> reaps and returns.\<close>

definition test_ended :: proc_world where
  "test_ended = test_begun\<lparr>pw_writers := False, pw_exit := Some WaitOk, pw_closed := True,
     pw_proc := process_Cancel (test_child\<lparr>pr_stderrDone := True\<rparr>), pw_wait := WaitReturned (0, [], None)\<rparr>"

lemma test_ended_reach: "reach (proc_init test_sys test_proc) (proc_step test_sys) test_ended"
proof -
  let ?r = "reach (proc_init test_sys test_proc) (proc_step test_sys)"
  let ?p = "test_child\<lparr>pr_stderrDone := True\<rparr>"
  let ?w1 = "test_begun\<lparr>pw_writers := False\<rparr>"
  let ?w2 = "?w1\<lparr>pw_exit := Some WaitOk\<rparr>"
  let ?w3 = "?w2\<lparr>pw_proc := ?p\<rparr>"
  let ?w4 = "?w3\<lparr>pw_closed := True, pw_wait := Reaped WaitOk\<rparr>"
  let ?w5 = "?w4\<lparr>pw_proc := process_Cancel ?p, pw_wait := Draining WaitOk\<rparr>"
  have child: "pr_stderr test_child = []" "\<not> pr_stderrDone test_child" "pr_cmd test_child \<noteq> None"
    by (simp_all add: test_child_def test_proc_def NewProcess_def)
  have s1: "side_step test_sys test_begun ?w1" by (rule ss_writers)
  have s2: "side_step test_sys ?w1 ?w2" by (rule ss_exit) (simp add: test_begun_def)
  have s3: "wait_step test_sys ?w2 ?w3"
    by (rule ws_eof) (simp_all add: test_begun_def child stderr_reader_Ret)
  have s4: "wait_step test_sys ?w3 ?w4" by (rule ws_reap) (simp_all add: test_begun_def)
  have s5: "wait_step test_sys ?w4 ?w5" using ws_cancel [of ?w4 WaitOk test_sys] by simp
  have s6: "wait_step test_sys ?w5 test_ended"
    using ws_return [of ?w5 WaitOk "(0, [], None)" "process_Cancel ?p" test_sys]
    by (simp add: process_Wait_Ret wait_result_def child process_Cancel_done test_ended_def)
  have go_w: "?r w \<Longrightarrow> wait_step test_sys w w' \<Longrightarrow> ?r w'" for w w'
    by (erule reach_step) (simp add: proc_step_def)
  have go_s: "?r w \<Longrightarrow> side_step test_sys w w' \<Longrightarrow> ?r w'" for w w'
    by (erule reach_step) (simp add: proc_step_def)
  show ?thesis
    by (rule go_w [OF go_w [OF go_w [OF go_w [OF go_s [OF go_s [OF test_begun_reach s1] s2] s3] s4] s5] s6])
qed

lemma wait_reports_the_exit_witness:
  "pw_wait test_ended = WaitReturned (0, [], None) \<and> process_Done (pw_proc test_ended) \<and>
   pr_stderrDone (pw_proc test_ended)"
  using wait_reports_the_exit [OF test_ended_reach, of 0 "[]" None] by (simp add: test_ended_def)


lemma cancel_settles_the_run_witness:
  "\<exists>w' exit m2. (wait_step test_sys)\<^sup>*\<^sup>* (test_begun\<lparr>pw_proc := process_Cancel test_child\<rparr>) w' \<and>
     pw_wait w' = WaitReturned exit \<and>
     waitForExit test_out [] ''r1'' ''s'' 5 exit 9 True (snd (CancelRun test_out ''r1'' started_manager)) = Ret m2 \<and>
     mg_history m2 = [\<lparr>rr_RunID = ''r1'', rr_ScriptID = ''s'', rr_Status = StatusCancelled, rr_StartedAt = 5, rr_EndedAt = 9\<rparr>]"
proof -
  let ?s = "\<lparr>rs_RunID = ''r1'', rs_ScriptID = ''s'', rs_Status = StatusRunning, rs_messages = Some 0,
    rs_cancel = True, rs_cancelRequested = False\<rparr>"
  have m: "sv_runs started_manager ''r1'' = Some 0" "mg_activeRuns started_manager ''r1'' = Some ?s" "rs_cancel ?s"
    "\<not> IsTerminal (rs_Status ?s)" "room_for (chan_at 0 started_manager) 1"
    "range_order (cm_blocks (sv_cache started_manager)) []"
    by (simp_all add: started_manager_fields IsTerminal_def started_manager_chan room_for_def newRunChannel_def
        range_order_def NewCacheManager_def)
  have p: "pw_proc test_begun = test_child" by (simp add: test_begun_def)
  from cancel_settles_the_run [OF started_manager_inv m test_begun_reach test_closed refl, of test_out "''s''" 5 9]
  show ?thesis unfolding p started_manager_fields(4) append_Nil by blast
qed

end
