(* ===== verification/EnvService.thy ===== *)
theory EnvService
  imports Notify Process "HOL-Library.Multiset"
begin

section \<open>EnvService: inspecting and changing the Python environment\<close>

text \<open>
  Models \<^verbatim>\<open>internal/services/env_service.go\<close>. \<open>en_op\<close> is the atomic that serializes
  installs and uninstalls, \<open>en_emits\<close> the Wails events, \<open>en_runs\<close> the command lines run. What a
  command does (its output lines on two pipes, how they interleave, how it ends) is an
  argument. The stages of \<open>runInstall\<close> are definitions of their own, which are also the steps
  concurrent callers take.
\<close>

subsection \<open>State\<close>

record EnvInfo =
  ei_PythonPath :: string
  ei_PythonVersion :: string
  ei_VenvPath :: string
  ei_ToolName :: string
  ei_Editable :: bool

record Package =
  pk_Name :: string
  pk_Version :: string

record envService =
  en_info :: EnvInfo
  en_op :: int
  en_rsv :: reservoir
  en_app :: bool
  en_emits :: "(string \<times> payload) list"
  en_runs :: "string list list"

abbreviation (input) envOpIdle :: int where "envOpIdle \<equiv> 0"
abbreviation (input) envOpRunning :: int where "envOpRunning \<equiv> 1"

definition en_report :: "env \<Rightarrow> Event \<Rightarrow> envService \<Rightarrow> envService" where
  "en_report ev e s = s\<lparr>en_rsv := Report ev e (en_rsv s)\<rparr>"

definition en_emit :: "string \<Rightarrow> payload \<Rightarrow> envService \<Rightarrow> envService" where
  "en_emit name p s = (if en_app s then s\<lparr>en_emits := en_emits s @ [(name, p)]\<rparr> else s)"

definition op_payload :: "string \<Rightarrow> string \<Rightarrow> payload" where
  "op_payload op spec = [(''op'', JStr op), (''spec'', JStr spec)]"

definition tryEnter :: "string \<Rightarrow> string \<Rightarrow> envService \<Rightarrow> bool \<times> envService" where
  "tryEnter op spec s =
     (if en_op s \<noteq> envOpIdle then (False, s)
      else (True, en_emit ''env:operation:start'' (op_payload op spec) (s\<lparr>en_op := envOpRunning\<rparr>)))"

definition exit_op :: "string \<Rightarrow> string \<Rightarrow> envService \<Rightarrow> envService" where
  "exit_op op spec s = (en_emit ''env:operation:end'' (op_payload op spec) s)\<lparr>en_op := envOpIdle\<rparr>"

text \<open>\<open>strings.TrimSpace\<close>, for the ASCII white space.\<close>

definition is_space :: "char \<Rightarrow> bool" where
  "is_space c \<longleftrightarrow> c \<in> {CHR 0x20, CHR 0x09, CHR 0x0A, CHR 0x0B, CHR 0x0C, CHR 0x0D}"

definition TrimSpace :: "string \<Rightarrow> string" where
  "TrimSpace t = rev (dropWhile is_space (rev (dropWhile is_space t)))"

text \<open>\<open>hasUv\<close> says whether \<open>exec.LookPath\<close> found uv, \<open>probe\<close> is the output of \<open>python --version\<close>.\<close>

definition init_event :: "EnvInfo \<Rightarrow> Event" where
  "init_event i = Event0\<lparr>ev_Severity := SeverityInfo, ev_Persistence := PersistenceOneShot, ev_Source := SourceBackend,
     ev_Message := ''env service initialized: python='' @ ei_PythonPath i @ '' venv='' @ ei_VenvPath i @ '' tool='' @
       ei_ToolName i @ '' version='' @ ei_PythonVersion i @ '' editable='' @ (if ei_Editable i then ''true'' else ''false'')\<rparr>"

definition NewEnvService :: "env \<Rightarrow> os \<Rightarrow> bool \<Rightarrow> goerror + string \<Rightarrow> reservoir \<Rightarrow> (goerror + envService) \<times> reservoir" where
  "NewEnvService ev sys hasUv probe rsv =
     (case FindVenv sys of
        Inl e \<Rightarrow> (Inl (Errorf (''locating venv: '' @ error_text e) (Some e)), rsv)
      | Inr venv \<Rightarrow>
          (let info = \<lparr>ei_PythonPath = vi_Python venv,
                       ei_PythonVersion = (case probe of Inl e \<Rightarrow> [] | Inr out \<Rightarrow> TrimSpace out),
                       ei_VenvPath = vi_Root venv, ei_ToolName = (if hasUv then ''uv'' else ''pip''),
                       ei_Editable = vi_Editable venv\<rparr>;
               rsv' = Report ev (init_event info) rsv
           in (Inr \<lparr>en_info = info, en_op = envOpIdle, en_rsv = rsv', en_app = False, en_emits = [], en_runs = []\<rparr>, rsv')))"

definition EnvService_SetApp :: "envService \<Rightarrow> envService" where
  "EnvService_SetApp s = s\<lparr>en_app := True\<rparr>"

definition GetEnvInfo :: "envService \<Rightarrow> EnvInfo" where
  "GetEnvInfo s = en_info s"

definition EnvBusy :: "envService \<Rightarrow> bool" where
  "EnvBusy s \<longleftrightarrow> en_op s = envOpRunning"

subsection \<open>Running a command\<close>

definition tool_args :: "EnvInfo \<Rightarrow> string list \<Rightarrow> string list" where
  "tool_args info tail =
     (if ei_ToolName info = ''uv'' then [''uv'', ''pip''] @ tail @ [''--python'', ei_PythonPath info]
      else [ei_PythonPath info, ''-m'', ''pip''] @ tail)"

text \<open>
  \<open>bufio.Scanner\<close> with its line splitting and a limit on the token: the text is cut at line feeds,
  an empty rest is no line, one carriage return is dropped at the end of each line, and the
  scan ends for good at the first line that does not fit the buffer.
\<close>

fun cut_lines :: "string \<Rightarrow> string list" where
  "cut_lines [] = [[]]"
| "cut_lines (c # cs) =
     (if c = CHR 0x0A then [] # cut_lines cs
      else (case cut_lines cs of [] \<Rightarrow> [[c]] | l # ls \<Rightarrow> (c # l) # ls))"

definition dropCR :: "string \<Rightarrow> string" where
  "dropCR l = (if l \<noteq> [] \<and> last l = CHR 0x0D then butlast l else l)"

definition scan_lines :: "nat \<Rightarrow> string \<Rightarrow> string list" where
  "scan_lines limit text =
     (let ls = cut_lines text;
          ls' = (if last ls = [] then butlast ls else ls)
      in map dropCR (takeWhile (\<lambda>l. length l < limit) ls'))"

abbreviation (input) maxLine :: nat where "maxLine \<equiv> 1048576"

text \<open>The two forwarding goroutines take turns as \<open>sched\<close> says (\<open>True\<close> is stdout's).\<close>

fun merge_streams :: "bool list \<Rightarrow> 'a list \<Rightarrow> 'a list \<Rightarrow> 'a list" where
  "merge_streams sched [] ys = ys"
| "merge_streams sched (x # xs) [] = x # xs"
| "merge_streams [] (x # xs) (y # ys) = x # merge_streams [] xs (y # ys)"
| "merge_streams (True # sched) (x # xs) (y # ys) = x # merge_streams sched xs (y # ys)"
| "merge_streams (False # sched) (x # xs) (y # ys) = y # merge_streams sched (x # xs) ys"

text \<open>What running a command with its output streamed meets.\<close>

record cmd_run =
  cr_stdoutPipe :: "goerror option"
  cr_stderrPipe :: "goerror option"
  cr_Start :: "goerror option"
  cr_stdout :: string
  cr_stderr :: string
  cr_sched :: "bool list"
  cr_Wait :: "goerror option"

definition line_payload :: "string \<times> string \<Rightarrow> payload" where
  "line_payload sl = [(''stream'', JStr (fst sl)), (''line'', JStr (snd sl))]"

definition forwarded_lines :: "cmd_run \<Rightarrow> (string \<times> string) list" where
  "forwarded_lines r = merge_streams (cr_sched r)
     (map (\<lambda>l. (''stdout'', l)) (scan_lines maxLine (cr_stdout r)))
     (map (\<lambda>l. (''stderr'', l)) (scan_lines maxLine (cr_stderr r)))"

definition forward_lines :: "cmd_run \<Rightarrow> envService \<Rightarrow> envService" where
  "forward_lines r s = fold (\<lambda>sl. en_emit ''env:operation:log'' (line_payload sl)) (forwarded_lines r) s"

definition runStreamed :: "cmd_run \<Rightarrow> string list \<Rightarrow> envService \<Rightarrow> goerror option \<times> envService" where
  "runStreamed r argv s =
     (if argv = [] then (Some (Errorf ''empty argv'' None), s)
      else (case cr_stdoutPipe r of
              Some e \<Rightarrow> (Some (Errorf (''stdout pipe: '' @ error_text e) (Some e)), s)
            | None \<Rightarrow>
           (case cr_stderrPipe r of
              Some e \<Rightarrow> (Some (Errorf (''stderr pipe: '' @ error_text e) (Some e)), s)
            | None \<Rightarrow>
           (case cr_Start r of
              Some e \<Rightarrow> (Some (Errorf (''starting command: '' @ error_text e) (Some e)), s)
            | None \<Rightarrow> (cr_Wait r, forward_lines r (s\<lparr>en_runs := en_runs s @ [argv]\<rparr>))))))"

text \<open>\<open>out\<close> is what \<open>cmd.Output\<close> answered, \<open>stderr\<close> what was collected.\<close>

definition runCapture :: "goerror + string \<Rightarrow> string \<Rightarrow> string list \<Rightarrow> envService \<Rightarrow> (goerror + string) \<times> envService" where
  "runCapture out stderr argv s =
     (if argv = [] then (Inl (Errorf ''empty argv'' None), s)
      else (case out of
              Inl e \<Rightarrow> Inl (Errorf (error_text e @ '': '' @ TrimSpace stderr) (Some e))
            | Inr o' \<Rightarrow> Inr o', s\<lparr>en_runs := en_runs s @ [argv]\<rparr>))"

definition env_error :: "string \<Rightarrow> string \<Rightarrow> goerror \<Rightarrow> Event" where
  "env_error title msg err = Event0\<lparr>ev_Severity := SeverityError, ev_Persistence := PersistenceOneShot,
     ev_Source := SourceBackend, ev_Title := title, ev_Message := msg, ev_Err := Some err\<rparr>"

text \<open>\<open>unmarshal\<close> is \<open>json.Unmarshal\<close> into a list of packages.\<close>

definition ListPackages ::
    "env \<Rightarrow> (string \<Rightarrow> goerror + Package list) \<Rightarrow> goerror + string \<Rightarrow> string \<Rightarrow> envService \<Rightarrow>
       (goerror + Package list) \<times> envService" where
  "ListPackages ev unmarshal out stderr s =
     (case runCapture out stderr (tool_args (en_info s) [''list'', ''--format=json'']) s of
        (Inl e, s1) \<Rightarrow> (Inl (Errorf (''listing packages: '' @ error_text e) (Some e)),
                        en_report ev (env_error ''ListPackages failed'' (error_text e) e) s1)
      | (Inr bytes, s1) \<Rightarrow>
          (case unmarshal bytes of
             Inl e \<Rightarrow> (Inl (Errorf (''parsing pip list output: '' @ error_text e) (Some e)),
                       en_report ev (env_error ''ListPackages parse failed'' (error_text e) e) s1)
           | Inr pkgs \<Rightarrow> (Inr pkgs, s1)))"

subsection \<open>Installing and uninstalling\<close>

definition busy_error :: goerror where
  "busy_error = Errorf ''another install/uninstall is already in flight'' None"

definition install_args :: "string \<Rightarrow> string \<Rightarrow> string list \<Rightarrow> string list" where
  "install_args op indexURL opArgs =
     (if hasPrefix op ''install'' then
        [''install''] @ opArgs @ (if indexURL \<noteq> [] then [''--index-url='' @ indexURL] else [])
      else opArgs)"

definition op_failed :: "string \<Rightarrow> string \<Rightarrow> goerror \<Rightarrow> Event" where
  "op_failed op spec e = env_error (op @ '' failed'') (op @ '' '' @ spec @ '': '' @ error_text e) e"

definition op_succeeded :: "string \<Rightarrow> string \<Rightarrow> Event" where
  "op_succeeded op spec = Event0\<lparr>ev_Severity := SeverityInfo, ev_Persistence := PersistenceOneShot,
     ev_Source := SourceBackend, ev_Message := op @ '' succeeded: spec='' @ spec\<rparr>"

text \<open>\<open>runInstall\<close> between \<open>tryEnter\<close> and the deferred \<open>exit\<close>.\<close>

definition install_body ::
    "env \<Rightarrow> cmd_run \<Rightarrow> string \<Rightarrow> string \<Rightarrow> string \<Rightarrow> string list \<Rightarrow> envService \<Rightarrow> goerror option \<times> envService" where
  "install_body ev r op spec indexURL opArgs s =
     (case runStreamed r (tool_args (en_info s) (install_args op indexURL opArgs)) s of
        (Some e, s1) \<Rightarrow> (Some (Errorf (op @ '' '' @ spec @ '': '' @ error_text e) (Some e)),
                         en_report ev (op_failed op spec e) s1)
      | (None, s1) \<Rightarrow> (None, en_report ev (op_succeeded op spec) s1))"

definition runInstall ::
    "env \<Rightarrow> cmd_run \<Rightarrow> string \<Rightarrow> string \<Rightarrow> string \<Rightarrow> string list \<Rightarrow> envService \<Rightarrow> goerror option \<times> envService" where
  "runInstall ev r op spec indexURL opArgs s =
     (case tryEnter op spec s of
        (False, s1) \<Rightarrow> (Some busy_error,
           en_report ev (env_error ''Operation busy'' (''op='' @ op @ '': '' @ error_text busy_error) busy_error) s1)
      | (True, s1) \<Rightarrow>
          (case install_body ev r op spec indexURL opArgs s1 of (err, s2) \<Rightarrow> (err, exit_op op spec s2)))"

definition reject :: "env \<Rightarrow> string \<Rightarrow> goerror \<Rightarrow> envService \<Rightarrow> goerror option \<times> envService" where
  "reject ev title err s = (Some err, en_report ev (env_error title (error_text err) err) s)"

definition not_writable :: "envService \<Rightarrow> goerror" where
  "not_writable s = Errorf (''venv at '' @ ei_VenvPath (en_info s) @ '' is not writable'') None"

definition InstallPackage :: "env \<Rightarrow> cmd_run \<Rightarrow> string \<Rightarrow> string \<Rightarrow> envService \<Rightarrow> goerror option \<times> envService" where
  "InstallPackage ev r spec indexURL s =
     (if spec = [] then reject ev ''InstallPackage rejected'' (Errorf ''install spec cannot be empty'' None) s
      else if \<not> ei_Editable (en_info s) then reject ev ''InstallPackage rejected'' (not_writable s) s
      else runInstall ev r ''install'' spec indexURL [spec] s)"

text \<open>\<open>stat\<close> is what \<open>os.Stat\<close> answered: an error, or whether the path is a directory.\<close>

definition InstallRequirements ::
    "env \<Rightarrow> cmd_run \<Rightarrow> (string \<Rightarrow> goerror + bool) \<Rightarrow> string \<Rightarrow> string \<Rightarrow> envService \<Rightarrow> goerror option \<times> envService" where
  "InstallRequirements ev r stat absPath indexURL s =
     (if absPath = [] then
        reject ev ''InstallRequirements rejected'' (Errorf ''requirements path cannot be empty'' None) s
      else (case stat absPath of
              Inl e \<Rightarrow> (Some (Errorf (''requirements file: '' @ error_text e) (Some e)),
                        en_report ev (env_error ''InstallRequirements stat failed''
                          (''path='' @ absPath @ '': '' @ error_text e) e) s)
            | Inr isDir \<Rightarrow>
                if isDir then reject ev ''InstallRequirements rejected''
                    (Errorf (''requirements path is a directory: '' @ absPath) None) s
                else if \<not> ei_Editable (en_info s) then
                  reject ev ''InstallRequirements rejected'' (not_writable s) s
                else runInstall ev r ''install -r'' absPath indexURL [''-r'', absPath] s))"

definition UninstallPackage :: "env \<Rightarrow> cmd_run \<Rightarrow> string \<Rightarrow> envService \<Rightarrow> goerror option \<times> envService" where
  "UninstallPackage ev r name s =
     (if name = [] then
        reject ev ''UninstallPackage rejected'' (Errorf ''package name cannot be empty'' None) s
      else if \<not> ei_Editable (en_info s) then reject ev ''UninstallPackage rejected'' (not_writable s) s
      else runInstall ev r ''uninstall'' name []
             ([''uninstall''] @ (if ei_ToolName (en_info s) = ''pip'' then [''-y'', name] else [name])) s)"

subsection \<open>Frames\<close>

abbreviation en_log :: "envService \<Rightarrow> SlogRecord list" where
  "en_log s \<equiv> log_view (en_rsv s)"

lemma en_report_fields [simp]:
  "en_info (en_report ev e s) = en_info s" "en_op (en_report ev e s) = en_op s" "en_app (en_report ev e s) = en_app s"
  "en_emits (en_report ev e s) = en_emits s" "en_runs (en_report ev e s) = en_runs s"
  "en_log (en_report ev e s) = en_log s @ [event_view e]"
  by (simp_all add: en_report_def rsv.seen_report)

lemma en_emit_fields [simp]:
  "en_info (en_emit n p s) = en_info s" "en_op (en_emit n p s) = en_op s" "en_app (en_emit n p s) = en_app s"
  "en_rsv (en_emit n p s) = en_rsv s" "en_runs (en_emit n p s) = en_runs s"
  "en_emits (en_emit n p s) = en_emits s @ (if en_app s then [(n, p)] else [])"
  by (simp_all add: en_emit_def)

lemma exit_op_fields [simp]:
  "en_info (exit_op op spec s) = en_info s" "en_op (exit_op op spec s) = envOpIdle" "en_app (exit_op op spec s) = en_app s"
  "en_rsv (exit_op op spec s) = en_rsv s" "en_runs (exit_op op spec s) = en_runs s"
  "en_emits (exit_op op spec s) = en_emits s @ (if en_app s then [(''env:operation:end'', op_payload op spec)] else [])"
  by (simp_all add: exit_op_def)

definition log_emission :: "string \<times> string \<Rightarrow> string \<times> payload" where
  "log_emission sl = (''env:operation:log'', line_payload sl)"

lemma forward_lines_fields [simp]:
  "en_info (forward_lines r s) = en_info s" "en_op (forward_lines r s) = en_op s" "en_app (forward_lines r s) = en_app s"
  "en_rsv (forward_lines r s) = en_rsv s" "en_runs (forward_lines r s) = en_runs s"
  "en_emits (forward_lines r s) = en_emits s @ (if en_app s then map log_emission (forwarded_lines r) else [])"
proof -
  have "en_info (fold (\<lambda>sl. en_emit ''env:operation:log'' (line_payload sl)) ls s) = en_info s \<and>
    en_op (fold (\<lambda>sl. en_emit ''env:operation:log'' (line_payload sl)) ls s) = en_op s \<and>
    en_app (fold (\<lambda>sl. en_emit ''env:operation:log'' (line_payload sl)) ls s) = en_app s \<and>
    en_rsv (fold (\<lambda>sl. en_emit ''env:operation:log'' (line_payload sl)) ls s) = en_rsv s \<and>
    en_runs (fold (\<lambda>sl. en_emit ''env:operation:log'' (line_payload sl)) ls s) = en_runs s \<and>
    en_emits (fold (\<lambda>sl. en_emit ''env:operation:log'' (line_payload sl)) ls s) =
      en_emits s @ (if en_app s then map log_emission ls else [])" for ls
    by (induction ls arbitrary: s) (simp_all add: log_emission_def)
  then show "en_info (forward_lines r s) = en_info s" "en_op (forward_lines r s) = en_op s" "en_app (forward_lines r s) = en_app s"
    "en_rsv (forward_lines r s) = en_rsv s" "en_runs (forward_lines r s) = en_runs s"
    "en_emits (forward_lines r s) = en_emits s @ (if en_app s then map log_emission (forwarded_lines r) else [])"
    unfolding forward_lines_def by blast+
qed

subsection \<open>One operation\<close>

definition starts :: "cmd_run \<Rightarrow> bool" where
  "starts r \<longleftrightarrow> cr_stdoutPipe r = None \<and> cr_stderrPipe r = None \<and> cr_Start r = None"

lemma tool_args_ne [simp]: "tool_args info tail \<noteq> []"
  by (simp add: tool_args_def)

lemma runStreamed_starts:
  "starts r \<Longrightarrow> argv \<noteq> [] \<Longrightarrow> runStreamed r argv s = (cr_Wait r, forward_lines r (s\<lparr>en_runs := en_runs s @ [argv]\<rparr>))"
  by (simp add: runStreamed_def starts_def)

lemma runStreamed_fails:
  "\<not> starts r \<Longrightarrow> argv \<noteq> [] \<Longrightarrow> \<exists>e. runStreamed r argv s = (Some e, s)"
  by (auto simp: runStreamed_def starts_def split: option.split)

text \<open>The report that ends an operation: the success message, or the failure with its error.\<close>

definition op_outcome :: "string \<Rightarrow> string \<Rightarrow> goerror option \<Rightarrow> Event \<Rightarrow> bool" where
  "op_outcome op spec err ev \<longleftrightarrow>
     (case err of None \<Rightarrow> ev = op_succeeded op spec
      | Some e \<Rightarrow> \<exists>c. e = Errorf (op @ '' '' @ spec @ '': '' @ error_text c) (Some c) \<and> ev = op_failed op spec c)"

lemma install_body_effect:
  assumes "install_body ev r op spec idx opArgs s = (err, s')"
  shows "en_info s' = en_info s \<and> en_op s' = en_op s \<and> en_app s' = en_app s \<and>
    en_runs s' = en_runs s @ (if starts r then [tool_args (en_info s) (install_args op idx opArgs)] else []) \<and>
    en_emits s' = en_emits s @ (if starts r \<and> en_app s then map log_emission (forwarded_lines r) else []) \<and>
    (err = None \<longleftrightarrow> starts r \<and> cr_Wait r = None) \<and>
    (\<exists>e. op_outcome op spec err e \<and> en_log s' = en_log s @ [event_view e])"
proof (cases "starts r")
  case True
  then have run: "runStreamed r (tool_args (en_info s) (install_args op idx opArgs)) s =
      (cr_Wait r, forward_lines r (s\<lparr>en_runs := en_runs s @ [tool_args (en_info s) (install_args op idx opArgs)]\<rparr>))"
    by (simp add: runStreamed_starts)
  show ?thesis
  proof (cases "cr_Wait r")
    case None
    with run assms True show ?thesis by (auto simp: install_body_def op_outcome_def)
  next
    case (Some e)
    with run assms True show ?thesis by (auto simp: install_body_def op_outcome_def)
  qed
next
  case False
  then obtain e where "runStreamed r (tool_args (en_info s) (install_args op idx opArgs)) s = (Some e, s)"
    using runStreamed_fails [OF False tool_args_ne] by blast
  with assms False show ?thesis by (auto simp: install_body_def op_outcome_def)
qed

lemma runInstall_effect:
  assumes "en_op s = envOpIdle" "en_app s" "runInstall ev r op spec idx opArgs s = (err, s')"
  shows "en_info s' = en_info s \<and> en_op s' = envOpIdle \<and> en_app s' \<and>
    en_runs s' = en_runs s @ (if starts r then [tool_args (en_info s) (install_args op idx opArgs)] else []) \<and>
    en_emits s' = en_emits s @ [(''env:operation:start'', op_payload op spec)]
      @ (if starts r then map log_emission (forwarded_lines r) else [])
      @ [(''env:operation:end'', op_payload op spec)] \<and>
    (err = None \<longleftrightarrow> starts r \<and> cr_Wait r = None) \<and>
    (\<exists>e. op_outcome op spec err e \<and> en_log s' = en_log s @ [event_view e])"
proof -
  let ?s1 = "en_emit ''env:operation:start'' (op_payload op spec) (s\<lparr>en_op := envOpRunning\<rparr>)"
  obtain s2 where body: "install_body ev r op spec idx opArgs ?s1 = (err, s2)" and s': "s' = exit_op op spec s2"
    using assms(1,3) by (auto simp: runInstall_def tryEnter_def split: prod.splits)
  from install_body_effect [OF body] assms(2) show ?thesis by (simp add: s')
qed

subsection \<open>The requests of the frontend\<close>

datatype env_request = Install string string | Requirements string string | Uninstall string

fun run_request ::
    "env \<Rightarrow> cmd_run \<Rightarrow> (string \<Rightarrow> goerror + bool) \<Rightarrow> env_request \<Rightarrow> envService \<Rightarrow> goerror option \<times> envService" where
  "run_request ev r stat (Install spec idx) s = InstallPackage ev r spec idx s"
| "run_request ev r stat (Requirements p idx) s = InstallRequirements ev r stat p idx s"
| "run_request ev r stat (Uninstall name) s = UninstallPackage ev r name s"

text \<open>When a request is admissible, what it is called in the events, and the command line it runs.\<close>

fun admissible :: "(string \<Rightarrow> goerror + bool) \<Rightarrow> EnvInfo \<Rightarrow> env_request \<Rightarrow> bool" where
  "admissible stat info (Install spec idx) \<longleftrightarrow> spec \<noteq> [] \<and> ei_Editable info"
| "admissible stat info (Requirements p idx) \<longleftrightarrow> p \<noteq> [] \<and> stat p = Inr False \<and> ei_Editable info"
| "admissible stat info (Uninstall name) \<longleftrightarrow> name \<noteq> [] \<and> ei_Editable info"

fun request_name :: "env_request \<Rightarrow> string \<times> string" where
  "request_name (Install spec idx) = (''install'', spec)"
| "request_name (Requirements p idx) = (''install -r'', p)"
| "request_name (Uninstall name) = (''uninstall'', name)"

definition index_flag :: "string \<Rightarrow> string list" where
  "index_flag idx = (if idx = [] then [] else [''--index-url='' @ idx])"

fun request_tail :: "bool \<Rightarrow> env_request \<Rightarrow> string list" where
  "request_tail uv (Install spec idx) = [''install'', spec] @ index_flag idx"
| "request_tail uv (Requirements p idx) = [''install'', ''-r'', p] @ index_flag idx"
| "request_tail uv (Uninstall name) = [''uninstall''] @ (if uv then [] else [''-y'']) @ [name]"

definition request_argv :: "EnvInfo \<Rightarrow> env_request \<Rightarrow> string list" where
  "request_argv info q =
     (if ei_ToolName info = ''uv'' then [''uv'', ''pip''] @ request_tail True q @ [''--python'', ei_PythonPath info]
      else [ei_PythonPath info, ''-m'', ''pip''] @ request_tail False q)"

lemma admissible_runs:
  assumes "admissible stat (en_info s) q" "ei_ToolName (en_info s) \<in> {''uv'', ''pip''}"
  shows "\<exists>idx opArgs. run_request ev r stat q s = runInstall ev r (fst (request_name q)) (snd (request_name q)) idx opArgs s \<and>
     tool_args (en_info s) (install_args (fst (request_name q)) idx opArgs) = request_argv (en_info s) q"
proof (cases q)
  case (Install spec idx)
  with assms show ?thesis
    by (intro exI [of _ idx] exI [of _ "[spec]"])
      (auto simp: InstallPackage_def request_argv_def tool_args_def install_args_def hasPrefix_def index_flag_def)
next
  case (Requirements p idx)
  with assms show ?thesis
    by (intro exI [of _ idx] exI [of _ "[''-r'', p]"])
      (auto simp: InstallRequirements_def request_argv_def tool_args_def install_args_def hasPrefix_def index_flag_def)
next
  case (Uninstall name)
  with assms show ?thesis
    by (intro exI [of _ "[]"] exI [of _ "[''uninstall''] @ (if ei_ToolName (en_info s) = ''pip'' then [''-y'', name] else [name])"])
      (auto simp: UninstallPackage_def request_argv_def tool_args_def install_args_def hasPrefix_def)
qed

lemma inadmissible_rejects:
  assumes "\<not> admissible stat (en_info s) q"
  shows "\<exists>e title msg c. run_request ev r stat q s = (Some e, en_report ev (env_error title msg c) s)"
proof (cases q)
  case (Requirements p idx)
  with assms show ?thesis
    by (cases "stat p") (auto simp: InstallRequirements_def reject_def)
qed (use assms in \<open>auto simp: InstallPackage_def UninstallPackage_def reject_def\<close>)


subsection \<open>Lines\<close>

lemma cut_lines_line: "CHR 0x0A \<notin> set l \<Longrightarrow> cut_lines (l @ CHR 0x0A # rest) = l # cut_lines rest"
  by (induction l) auto

lemma cut_lines_unlines:
  "\<forall>l \<in> set ls. CHR 0x0A \<notin> set l \<Longrightarrow> cut_lines (concat (map (\<lambda>l. l @ newline) ls)) = ls @ [[]]"
  by (induction ls) (simp_all add: cut_lines_line)



definition test_cmd :: cmd_run where
  "test_cmd = \<lparr>cr_stdoutPipe = None, cr_stderrPipe = None, cr_Start = None, cr_stdout = ''ok'' @ newline,
     cr_stderr = [], cr_sched = [], cr_Wait = None\<rparr>"

definition test_service :: envService where
  "test_service = \<lparr>en_info = \<lparr>ei_PythonPath = ''/v/python3'', ei_PythonVersion = [], ei_VenvPath = ''/v'',
       ei_ToolName = ''uv'', ei_Editable = True\<rparr>,
     en_op = envOpIdle, en_rsv = newReservoir, en_app = True, en_emits = [], en_runs = []\<rparr>"


subsection \<open>Concurrent callers\<close>

text \<open>
  The calls of \<open>runInstall\<close> that got in and have not returned, each with its name and whether it
  has emitted its end event (\<open>exit\<close> emits first and stores the idle state afterwards), next to
  the service; the steps callers take, in any order.
\<close>

type_synonym env_world = "envService \<times> (string \<times> string \<times> bool) multiset"

inductive env_step :: "env \<Rightarrow> env_world \<Rightarrow> env_world \<Rightarrow> bool" for ev :: env where
  step_enter: "tryEnter op spec s = (True, s1) \<Longrightarrow> env_step ev (s, A) (s1, add_mset (op, spec, False) A)"
| step_busy: "tryEnter op spec s = (False, s1) \<Longrightarrow> env_step ev (s, A)
     (en_report ev (env_error ''Operation busy'' (''op='' @ op @ '': '' @ error_text busy_error) busy_error) s1, A)"
| step_run: "env_step ev (s, A) (s\<lparr>en_runs := en_runs s @ [argv]\<rparr>, A)"
| step_line: "(op, spec, False) \<in># A \<Longrightarrow> env_step ev (s, A) (en_emit ''env:operation:log'' (line_payload sl) s, A)"
| step_report: "env_step ev (s, A) (en_report ev e s, A)"
| step_end: "env_step ev (s, add_mset (op, spec, False) A)
     (en_emit ''env:operation:end'' (op_payload op spec) s, add_mset (op, spec, True) A)"
| step_leave: "env_step ev (s, add_mset (op, spec, True) A) (s\<lparr>en_op := envOpIdle\<rparr>, A)"

inductive_cases env_stepE: "env_step ev x y"

text \<open>A call of \<open>runInstall\<close> on its own is a sequence of these steps.\<close>

lemma forward_steps:
  "(op, spec, False) \<in># A \<Longrightarrow>
     (env_step ev)\<^sup>*\<^sup>* (s, A) (fold (\<lambda>sl. en_emit ''env:operation:log'' (line_payload sl)) ls s, A)"
proof (induction ls arbitrary: s)
  case (Cons l ls)
  from Cons.IH [OF Cons.prems] step_line [OF Cons.prems, of ev s l] show ?case
    by (simp add: converse_rtranclp_into_rtranclp)
qed simp

lemma install_body_steps:
  assumes "install_body ev r op spec idx opArgs s = (err, s')" "(op, spec, False) \<in># A"
  shows "(env_step ev)\<^sup>*\<^sup>* (s, A) (s', A)"
proof (cases "starts r")
  case True
  let ?argv = "tool_args (en_info s) (install_args op idx opArgs)"
  let ?s1 = "s\<lparr>en_runs := en_runs s @ [?argv]\<rparr>"
  have run: "runStreamed r ?argv s = (cr_Wait r, forward_lines r ?s1)" using True by (simp add: runStreamed_starts)
  have "env_step ev (s, A) (?s1, A)" by (rule step_run)
  then have "(env_step ev)\<^sup>*\<^sup>* (s, A) (forward_lines r ?s1, A)"
    using forward_steps [OF assms(2), of ev ?s1] unfolding forward_lines_def
    by (rule converse_rtranclp_into_rtranclp)
  moreover obtain e where "s' = en_report ev e (forward_lines r ?s1)"
    using assms(1) run by (cases "cr_Wait r") (auto simp: install_body_def)
  ultimately show ?thesis using step_report [of ev "forward_lines r ?s1" A e] by (simp add: rtranclp.rtrancl_into_rtrancl)
next
  case False
  then obtain c where "runStreamed r (tool_args (en_info s) (install_args op idx opArgs)) s = (Some c, s)"
    using runStreamed_fails [OF False tool_args_ne] by blast
  with assms(1) have "s' = en_report ev (op_failed op spec c) s" by (simp add: install_body_def)
  then show ?thesis using step_report by blast
qed

lemma runInstall_steps:
  assumes "runInstall ev r op spec idx opArgs s = (err, s')"
  shows "(env_step ev)\<^sup>*\<^sup>* (s, A) (s', A)"
proof (cases "tryEnter op spec s")
  case (Pair ok s1)
  show ?thesis
  proof (cases ok)
    case False
    with assms Pair step_busy [of op spec s s1 ev A] show ?thesis by (auto simp: runInstall_def)
  next
    case True
    obtain s2 where body: "install_body ev r op spec idx opArgs s1 = (err, s2)" and s': "s' = exit_op op spec s2"
      using assms Pair True by (auto simp: runInstall_def split: prod.splits)
    have "(env_step ev)\<^sup>*\<^sup>* (s1, add_mset (op, spec, False) A) (s2, add_mset (op, spec, False) A)"
      by (rule install_body_steps [OF body]) simp
    with step_enter [of op spec s s1 ev A] Pair True
    have "(env_step ev)\<^sup>*\<^sup>* (s, A) (s2, add_mset (op, spec, False) A)"
      by (simp add: converse_rtranclp_into_rtranclp)
    then have "(env_step ev)\<^sup>*\<^sup>* (s, A) (en_emit ''env:operation:end'' (op_payload op spec) s2, add_mset (op, spec, True) A)"
      using step_end by (rule rtranclp.rtrancl_into_rtrancl)
    then have "(env_step ev)\<^sup>*\<^sup>* (s, A) ((en_emit ''env:operation:end'' (op_payload op spec) s2)\<lparr>en_op := envOpIdle\<rparr>, A)"
      using step_leave by (rule rtranclp.rtrancl_into_rtrancl)
    then show ?thesis by (simp add: s' exit_op_def)
  qed
qed

text \<open>
  The protocol of the lifecycle events: a start, log lines, the end of the same operation, and
  again. The result is the operation that is open, if the events follow the protocol.
\<close>

fun bracket :: "payload option \<Rightarrow> (string \<times> payload) list \<Rightarrow> payload option option" where
  "bracket st [] = Some st"
| "bracket None ((n, p) # es) = (if n = ''env:operation:start'' then bracket (Some p) es else None)"
| "bracket (Some q) ((n, p) # es) =
     (if n = ''env:operation:log'' then bracket (Some q) es
      else if n = ''env:operation:end'' \<and> p = q then bracket None es else None)"

lemma bracket_append: "bracket st (xs @ ys) = Option.bind (bracket st xs) (\<lambda>st'. bracket st' ys)"
  by (induction st xs rule: bracket.induct) auto

definition env_ok :: "env_world \<Rightarrow> bool" where
  "env_ok w \<longleftrightarrow> en_app (fst w) \<and>
     (snd w = {#} \<and> en_op (fst w) = envOpIdle \<and> bracket None (en_emits (fst w)) = Some None \<or>
      (\<exists>op spec. snd w = {#(op, spec, False)#} \<and> en_op (fst w) = envOpRunning \<and>
         bracket None (en_emits (fst w)) = Some (Some (op_payload op spec))) \<or>
      (\<exists>op spec. snd w = {#(op, spec, True)#} \<and> en_op (fst w) = envOpRunning \<and>
         bracket None (en_emits (fst w)) = Some None))"

definition env_init :: "env_world \<Rightarrow> bool" where
  "env_init w \<longleftrightarrow> en_app (fst w) \<and> snd w = {#} \<and> en_op (fst w) = envOpIdle \<and> en_emits (fst w) = []"

lemma env_step_ok:
  assumes "env_ok w" "env_step ev w w'"
  shows "env_ok w'"
  using assms(2)
proof cases
  case (step_enter op spec s s1 A)
  with assms(1) have "A = {#}" "en_app s" "bracket None (en_emits s) = Some None"
    by (auto simp: env_ok_def tryEnter_def split: if_splits)
  with step_enter show ?thesis
    by (auto simp: env_ok_def tryEnter_def bracket_append split: if_splits)
next
  case (step_busy op spec s s1 A)
  with assms(1) show ?thesis by (auto simp: env_ok_def tryEnter_def split: if_splits)
next
  case (step_end s op spec A)
  with assms(1) show ?thesis by (auto simp: env_ok_def bracket_append)
next
  case (step_line op spec A s sl)
  with assms(1) show ?thesis by (auto simp: env_ok_def bracket_append)
qed (use assms(1) in \<open>auto simp: env_ok_def\<close>)

interpretation env_calls: inv_system env_init "env_step ev" env_ok for ev :: env
proof
  show "env_ok w" if "env_init w" for w using that by (simp add: env_ok_def env_init_def)
qed (rule env_step_ok)



end
