(* ===== verification/Watcher.thy ===== *)
theory Watcher
  imports ScriptService
begin

section \<open>Watcher: reloading the registry when the disk changes\<close>

text \<open>
  Models \<^verbatim>\<open>internal/registry/watcher.go\<close>, wired as \<^verbatim>\<open>main.go\<close> wires it: \<open>onChange\<close> is
  \<open>ScriptService.NotifyChanged\<close>, and the registry and the reservoir are those of the script
  service. Time is a number; a timer that is due at or before the time of an input fires
  first. \<open>wt_fires\<close> lists the times at which \<open>fire\<close> ran. fsnotify and the disk are the
  parameter \<open>watch_env\<close>.
\<close>

record watcher =
  wt_builtinDir :: string
  wt_pluginDir :: string
  wt_debounce :: nat
  wt_pending :: "time option"
  wt_watched :: "string list"
  wt_fires :: "time list"
  wt_svc :: scriptService

abbreviation (input) DefaultDebounce :: nat where "DefaultDebounce \<equiv> 300"

definition NewWatcher :: "scriptService \<Rightarrow> string \<Rightarrow> string \<Rightarrow> watcher" where
  "NewWatcher svc builtinDir pluginDir =
     \<lparr>wt_builtinDir = builtinDir, wt_pluginDir = pluginDir, wt_debounce = DefaultDebounce,
      wt_pending = None, wt_watched = [], wt_fires = [], wt_svc = svc\<rparr>"

definition SetDebounce :: "nat \<Rightarrow> watcher \<Rightarrow> watcher" where
  "SetDebounce d w = w\<lparr>wt_debounce := d\<rparr>"

text \<open>A directory entry as \<open>filepath.WalkDir\<close> meets it; a directory that cannot be read has no entries.\<close>

datatype dirtree = FileNode string | DirNode string "dirtree list"

fun node_name :: "dirtree \<Rightarrow> string" where
  "node_name (FileNode n) = n"
| "node_name (DirNode n es) = n"

text \<open>
  \<open>we_fs t\<close> is the disk as a reload at time \<open>t\<close> sees it, \<open>we_NewWatcher\<close> the error of
  \<open>fsnotify.NewWatcher\<close>, \<open>we_tree\<close> the tree under a directory,
  \<open>we_isDir t\<close> whether a path is a directory at time \<open>t\<close>, \<open>we_Add\<close> what \<open>fsw.Add\<close> answers.
\<close>

record watch_env =
  we_fs :: "time \<Rightarrow> fs"
  we_NewWatcher :: "goerror option"
  we_tree :: "string \<Rightarrow> dirtree"
  we_Stat :: "string \<Rightarrow> goerror option"
  we_MkdirAll :: "string \<Rightarrow> goerror option"
  we_isDir :: "time \<Rightarrow> string \<Rightarrow> bool"
  we_Add :: "string \<Rightarrow> goerror option"
  we_overflow :: "goerror \<Rightarrow> bool"
  we_desktop :: desktop
  we_runtime :: runtime

definition wt_report :: "watch_env \<Rightarrow> Event \<Rightarrow> watcher \<Rightarrow> watcher" where
  "wt_report e ev w = w\<lparr>wt_svc := ss_report (we_desktop e) ev (wt_svc w)\<rparr>"

definition watch_event :: "Severity \<Rightarrow> string \<Rightarrow> string \<Rightarrow> goerror option \<Rightarrow> Event" where
  "watch_event sev title msg err = Event0\<lparr>ev_Severity := sev, ev_Persistence := PersistenceOneShot,
     ev_Source := SourceBackend, ev_Title := title, ev_Message := msg, ev_Err := err\<rparr>"

subsection \<open>Watching the directories\<close>

fun walk :: "string \<Rightarrow> dirtree \<Rightarrow> string list" where
  "walk path (FileNode n) = []"
| "walk path (DirNode n es) =
     (if n = ''_lib'' then []
      else path # concat (map (\<lambda>e. walk (Join path (node_name e)) e) es))"

definition add_watch :: "watch_env \<Rightarrow> string \<Rightarrow> watcher \<Rightarrow> watcher" where
  "add_watch e path w =
     (case we_Add e path of
        None \<Rightarrow> w\<lparr>wt_watched := wt_watched w @ [path]\<rparr>
      | Some err \<Rightarrow> wt_report e (watch_event SeverityInfo []
          (''could not watch dir '' @ path @ '': '' @ error_text err) None) w)"

definition addRecursive :: "watch_env \<Rightarrow> string \<Rightarrow> watcher \<Rightarrow> goerror option \<times> watcher" where
  "addRecursive e dir w =
     (if dir = [] then (None, w)
      else (case we_Stat e dir of
              Some err \<Rightarrow> (Some err, w)
            | None \<Rightarrow> (None, fold (add_watch e) (walk dir (we_tree e dir)) w)))"

text \<open>\<open>Run\<close> before its loop.\<close>

definition watch_dir :: "watch_env \<Rightarrow> string \<Rightarrow> string \<Rightarrow> string \<Rightarrow> watcher \<Rightarrow> watcher" where
  "watch_dir e dir title what w =
     (case addRecursive e dir w of
        (None, w1) \<Rightarrow> w1
      | (Some err, w1) \<Rightarrow> wt_report e (watch_event SeverityWarn title (what @ dir) (Some err)) w1)"

definition run_prologue :: "watch_env \<Rightarrow> watcher \<Rightarrow> watcher" where
  "run_prologue e w =
     (let w1 = (if wt_pluginDir w \<noteq> [] then
                  (case we_MkdirAll e (wt_pluginDir w) of
                     None \<Rightarrow> w
                   | Some err \<Rightarrow> wt_report e (watch_event SeverityWarn ''Plugin dir unavailable''
                       (''could not create plugin dir for watching: '' @ wt_pluginDir w) (Some err)) w)
                else w);
          w2 = watch_dir e (wt_builtinDir w1) ''Builtin scripts dir unwatched'' ''could not watch builtin scripts dir: '' w1
      in watch_dir e (wt_pluginDir w2) ''Plugin dir unwatched'' ''could not watch plugin dir: '' w2)"

subsection \<open>The loop\<close>

definition fire :: "watch_env \<Rightarrow> time \<Rightarrow> watcher \<Rightarrow> watcher" where
  "fire e t w =
     (let svc = wt_svc w;
          w0 = w\<lparr>wt_pending := None, wt_fires := wt_fires w @ [t]\<rparr>
      in case Reload (we_runtime e) (we_fs e t) (wt_builtinDir w) (wt_pluginDir w) (ss_registry svc) of
           ((changed, Some err), g) \<Rightarrow>
             wt_report e (watch_event SeverityError ''Registry reload failed'' (error_text err) (Some err))
               (w0\<lparr>wt_svc := svc\<lparr>ss_registry := g\<rparr>\<rparr>)
         | ((changed, None), g) \<Rightarrow>
             (let w1 = w0\<lparr>wt_svc := svc\<lparr>ss_registry := g\<rparr>\<rparr>
              in if changed then
                   (let w2 = wt_report e (watch_event SeverityInfo []
                          (''registry reloaded: '' @ dec_nat (length (Registry_List (we_runtime e) g)) @ '' scripts, '' @
                           dec_nat (length (Registry_Issues g)) @ '' issues'') None) w1
                    in w2\<lparr>wt_svc := NotifyChanged (we_desktop e) (wt_svc w2)\<rparr>)
                 else w1))"

definition schedule :: "time \<Rightarrow> watcher \<Rightarrow> watcher" where
  "schedule now w = w\<lparr>wt_pending := Some (now + wt_debounce w)\<rparr>"

definition stop_timer :: "watcher \<Rightarrow> watcher" where
  "stop_timer w = w\<lparr>wt_pending := None\<rparr>"

text \<open>What the \<open>select\<close> of the loop receives.\<close>

datatype watch_input =
    CtxDone
  | FsEvent bool string
  | FsEventsClosed
  | FsError goerror
  | FsErrorsClosed

text \<open>One turn of the loop: whether it goes on.\<close>

fun watch_turn :: "watch_env \<Rightarrow> time \<Rightarrow> watch_input \<Rightarrow> watcher \<Rightarrow> bool \<times> watcher" where
  "watch_turn e t CtxDone w = (False, stop_timer w)"
| "watch_turn e t (FsEvent create name) w =
     (True, schedule t
        (if create \<and> we_isDir e t name then
           (case we_Add e name of
              None \<Rightarrow> w\<lparr>wt_watched := wt_watched w @ [name]\<rparr>
            | Some err \<Rightarrow>
                if \<not> we_overflow e err then wt_report e (watch_event SeverityInfo []
                    (''could not watch newly created dir '' @ name @ '': '' @ error_text err) None) w
                else w)
         else w))"
| "watch_turn e t FsEventsClosed w = (False, w)"
| "watch_turn e t (FsError err) w =
     (True, wt_report e (watch_event SeverityWarn ''fsnotify error'' (error_text err) (Some err)) w)"
| "watch_turn e t FsErrorsClosed w = (False, w)"

text \<open>A due timer fires.\<close>

definition tick :: "watch_env \<Rightarrow> time \<Rightarrow> watcher \<Rightarrow> watcher" where
  "tick e t w =
     (case wt_pending w of
        Some due \<Rightarrow> if due \<le> t then fire e due w else w
      | None \<Rightarrow> w)"

text \<open>
  The loop over timed inputs, and what is left to happen when no more come: the pending timer,
  which \<open>time.AfterFunc\<close> runs whether or not the loop has returned.
\<close>

fun watch_loop :: "watch_env \<Rightarrow> (time \<times> watch_input) list \<Rightarrow> watcher \<Rightarrow> watcher" where
  "watch_loop e [] w = w"
| "watch_loop e ((t, inp) # inputs) w =
     (case watch_turn e t inp (tick e t w) of
        (True, w1) \<Rightarrow> watch_loop e inputs w1
      | (False, w1) \<Rightarrow> w1)"

definition settle :: "watch_env \<Rightarrow> watcher \<Rightarrow> watcher" where
  "settle e w = (case wt_pending w of Some due \<Rightarrow> fire e due w | None \<Rightarrow> w)"

text \<open>\<open>Run\<close> returns an error only when fsnotify cannot be started.\<close>

definition Run :: "watch_env \<Rightarrow> (time \<times> watch_input) list \<Rightarrow> watcher \<Rightarrow> goerror option \<times> watcher" where
  "Run e inputs w =
     (case we_NewWatcher e of
        Some err \<Rightarrow> (Some err, w)
      | None \<Rightarrow> (None, settle e (watch_loop e inputs (run_prologue e w))))"

subsection \<open>Debouncing\<close>

text \<open>The reference: of the event times \<open>ts\<close>, those followed by a quiet window of length \<open>D\<close>, delayed by it.\<close>

definition quiet_ends :: "nat \<Rightarrow> time list \<Rightarrow> time list" where
  "quiet_ends D ts =
     map (\<lambda>i. ts ! i + D) (filter (\<lambda>i. Suc i = length ts \<or> ts ! i + D \<le> ts ! Suc i) [0..<length ts])"

fun is_event :: "watch_input \<Rightarrow> bool" where
  "is_event (FsEvent create name) = True"
| "is_event inp = False"

fun goes_on :: "watch_input \<Rightarrow> bool" where
  "goes_on (FsEvent create name) = True"
| "goes_on (FsError err) = True"
| "goes_on inp = False"

definition event_times :: "(time \<times> watch_input) list \<Rightarrow> time list" where
  "event_times inputs = map fst (filter (\<lambda>(t, inp). is_event inp) inputs)"

lemma quiet_ends_Nil [simp]: "quiet_ends D [] = []"
  by (simp add: quiet_ends_def)

lemma quiet_ends_Cons:
  "quiet_ends D (t # ts) = (if ts = [] \<or> t + D \<le> hd ts then [t + D] else []) @ quiet_ends D ts"
proof -
  have up: "[0..<length (t # ts)] = 0 # map Suc [0..<length ts]"
    by (simp only: list.size map_Suc_upt upt_conv_Cons [OF zero_less_Suc] plus_1_eq_Suc add_0_right add_Suc_right add_0)
  have hd: "ts \<noteq> [] \<Longrightarrow> ts ! 0 = hd ts" by (simp add: hd_conv_nth)
  show ?thesis
    unfolding quiet_ends_def up using hd
    by (cases ts) (simp_all add: filter_map comp_def)
qed

lemma wt_report_fields [simp]:
  "wt_pending (wt_report e ev w) = wt_pending w" "wt_fires (wt_report e ev w) = wt_fires w"
  "wt_debounce (wt_report e ev w) = wt_debounce w" "wt_watched (wt_report e ev w) = wt_watched w"
  "wt_builtinDir (wt_report e ev w) = wt_builtinDir w" "wt_pluginDir (wt_report e ev w) = wt_pluginDir w"
  by (simp_all add: wt_report_def)

lemma fire_fields [simp]:
  "wt_pending (fire e t w) = None" "wt_fires (fire e t w) = wt_fires w @ [t]"
  "wt_debounce (fire e t w) = wt_debounce w"
  "wt_builtinDir (fire e t w) = wt_builtinDir w" "wt_pluginDir (fire e t w) = wt_pluginDir w"
  by (simp_all add: fire_def Let_def split: prod.splits option.splits)

definition timers :: "watcher \<Rightarrow> time list" where
  "timers w = (case wt_pending w of None \<Rightarrow> [] | Some due \<Rightarrow> [due])"

text \<open>The pending timer, as the event that set it.\<close>

definition pending_event :: "watcher \<Rightarrow> time list \<Rightarrow> bool" where
  "pending_event w ts \<longleftrightarrow> (case wt_pending w of None \<Rightarrow> ts = [] | Some due \<Rightarrow> \<exists>t. ts = [t] \<and> due = t + wt_debounce w)"

lemma watch_turn_goes_on:
  assumes "goes_on inp"
  obtains w1 where "watch_turn e t inp w = (True, w1)" "wt_fires w1 = wt_fires w"
    "wt_debounce w1 = wt_debounce w" "wt_builtinDir w1 = wt_builtinDir w" "wt_pluginDir w1 = wt_pluginDir w"
    "wt_pending w1 = (if is_event inp then Some (t + wt_debounce w) else wt_pending w)"
  using assms by (cases inp) (auto simp: schedule_def split: option.splits)

lemma tick_fires:
  "wt_fires (tick e t w) @ timers (tick e t w) = wt_fires w @ timers w"
  "wt_debounce (tick e t w) = wt_debounce w"
  "wt_builtinDir (tick e t w) = wt_builtinDir w" "wt_pluginDir (tick e t w) = wt_pluginDir w"
  by (auto simp: tick_def timers_def split: option.splits)

lemma tick_quiet:
  assumes "pending_event w ps" "wt_debounce w = D" "\<forall>t' \<in> set ts. t \<le> t'"
  obtains qs where "pending_event (tick e t w) qs"
    "wt_fires (tick e t w) @ quiet_ends D (qs @ ts) = wt_fires w @ quiet_ends D (ps @ ts)"
    "qs = [] \<or> (\<exists>q. qs = [q] \<and> t < q + D)"
proof (cases "wt_pending w")
  case None
  with assms(1) have "ps = []" "tick e t w = w" by (simp_all add: pending_event_def tick_def)
  with assms(1) show thesis by (intro that [of "[]"]) simp_all
next
  case (Some due)
  with assms(1,2) obtain q where q: "ps = [q]" "due = q + D" by (auto simp: pending_event_def)
  show thesis
  proof (cases "due \<le> t")
    case True
    then have tick: "tick e t w = fire e due w" by (simp add: tick_def Some)
    have "ts = [] \<or> due \<le> hd ts" using True assms(3) by (cases ts) auto
    then show thesis by (intro that [of "[]"]) (auto simp: tick pending_event_def q quiet_ends_Cons)
  next
    case False
    then have "tick e t w = w" by (simp add: tick_def Some)
    with assms(1) False q show thesis by (intro that [of ps]) auto
  qed
qed

lemma event_times_Cons:
  "event_times ((t, inp) # inputs) = (if is_event inp then t # event_times inputs else event_times inputs)"
  by (simp add: event_times_def)

lemma event_times_sub: "set (event_times inputs) \<subseteq> fst ` set inputs"
  by (auto simp: event_times_def)

lemma loop_fires:
  assumes "\<forall>(t, inp) \<in> set inputs. goes_on inp" "sorted (map fst inputs)"
    and "pending_event w ps" and "wt_debounce w = D"
  shows "wt_fires (watch_loop e inputs w) @ timers (watch_loop e inputs w) =
     wt_fires w @ quiet_ends D (ps @ event_times inputs)"
  using assms
proof (induction inputs arbitrary: w ps)
  case Nil
  then show ?case
    by (auto simp: pending_event_def timers_def event_times_def quiet_ends_Cons split: option.splits)
next
  case (Cons x inputs)
  obtain t inp where x: "x = (t, inp)" by (cases x)
  from Cons.prems(1) have on: "goes_on inp" and rest: "\<forall>(t, inp) \<in> set inputs. goes_on inp" by (auto simp: x)
  from Cons.prems(2) have sorted: "sorted (map fst inputs)" and later: "\<forall>t' \<in> set (event_times (x # inputs)). t \<le> t'"
    using event_times_sub [of "x # inputs"] by (auto simp: x)
  define w1 where "w1 = tick e t w"
  obtain qs where tick: "pending_event w1 qs" "wt_fires w1 @ quiet_ends D (qs @ event_times (x # inputs)) =
      wt_fires w @ quiet_ends D (ps @ event_times (x # inputs))" "qs = [] \<or> (\<exists>q. qs = [q] \<and> t < q + D)"
    unfolding w1_def by (rule tick_quiet [OF Cons.prems(3,4) later])
  have D1: "wt_debounce w1 = D" by (simp add: w1_def tick_fires Cons.prems(4))
  obtain w2 where turn: "watch_turn e t inp w1 = (True, w2)" and w2: "wt_fires w2 = wt_fires w1"
    "wt_debounce w2 = D" "wt_pending w2 = (if is_event inp then Some (t + D) else wt_pending w1)"
    using watch_turn_goes_on [OF on, of e t w1] D1 by metis
  have loop: "watch_loop e (x # inputs) w = watch_loop e inputs w2" by (simp add: x w1_def [symmetric] turn)
  show ?case
  proof (cases "is_event inp")
    case True
    have "quiet_ends D (qs @ t # event_times inputs) = quiet_ends D (t # event_times inputs)"
      using tick(3) by (auto simp: quiet_ends_Cons)
    moreover have "pending_event w2 [t]" by (simp add: pending_event_def w2 True)
    note Cons.IH [OF rest sorted this w2(2)]
    ultimately show ?thesis using tick(2) True by (simp only: loop [unfolded x] x w2(1) event_times_Cons) simp
  next
    case False
    have "pending_event w2 qs" using tick(1) by (cases "wt_pending w1") (simp_all add: pending_event_def w2 False D1)
    from Cons.IH [OF rest sorted this w2(2)] show ?thesis
      using tick(2) False by (simp only: loop [unfolded x] x w2(1) event_times_Cons) simp
  qed
qed

lemma settle_fires: "wt_fires (settle e w) = wt_fires w @ timers w"
  by (auto simp: settle_def timers_def split: option.splits)

lemma loop_append:
  "\<forall>(t, inp) \<in> set inputs. goes_on inp \<Longrightarrow>
     watch_loop e (inputs @ rest) w = watch_loop e rest (watch_loop e inputs w)"
proof (induction inputs arbitrary: w)
  case (Cons x inputs)
  obtain t inp where x: "x = (t, inp)" by (cases x)
  with Cons.prems obtain w1 where "watch_turn e t inp (tick e t w) = (True, w1)"
    using watch_turn_goes_on [of inp e t "tick e t w"] by auto
  with Cons x show ?case by simp
qed simp

lemma loop_fires_by:
  assumes "\<forall>(t, inp) \<in> set inputs. goes_on inp" "\<forall>(t, inp) \<in> set inputs. t \<le> T"
    and "\<forall>f \<in> set (wt_fires w). f \<le> T"
  shows "\<forall>f \<in> set (wt_fires (watch_loop e inputs w)). f \<le> T"
  using assms
proof (induction inputs arbitrary: w)
  case (Cons x inputs)
  obtain t inp where x: "x = (t, inp)" by (cases x)
  with Cons.prems(1) obtain w1 where w1: "watch_turn e t inp (tick e t w) = (True, w1)"
      "wt_fires w1 = wt_fires (tick e t w)"
    using watch_turn_goes_on [of inp e t "tick e t w"] by auto
  have "\<forall>f \<in> set (wt_fires (tick e t w)). f \<le> T"
    using Cons.prems(2,3) x by (auto simp: tick_def split: option.splits)
  with Cons.IH [of w1] Cons.prems show ?case by (simp add: x w1)
qed simp

lemma cancelled_fires:
  assumes "\<forall>f \<in> set (wt_fires w). f \<le> t"
  shows "wt_fires (settle e (watch_loop e ((t, CtxDone) # rest) w)) = filter (\<lambda>f. f \<le> t) (wt_fires w @ timers w)"
  using assms
  by (auto simp: settle_fires timers_def stop_timer_def tick_def filter_id_conv split: option.splits)

subsection \<open>What the reloads do\<close>

definition catalog :: "registry \<Rightarrow> (script_id \<rightharpoonup> Script) \<times> LoadIssue list \<times> string" where
  "catalog g = (rg_scripts g, rg_issues g, rg_fingerprint g)"

text \<open>Reloads alone, one after the other, counting those that changed the registry.\<close>

fun reload_at :: "runtime \<Rightarrow> (time \<Rightarrow> fs) \<Rightarrow> string \<Rightarrow> string \<Rightarrow> time \<Rightarrow> nat \<times> registry \<Rightarrow> nat \<times> registry" where
  "reload_at rt disk sd pd t (n, g) =
     (case Reload rt (disk t) sd pd g of ((changed, err), g') \<Rightarrow> (if changed then Suc n else n, g'))"

lemma Reload_catalog:
  assumes "catalog g = catalog h"
  shows "fst (Reload rt f sd pd g) = fst (Reload rt f sd pd h) \<and>
    catalog (snd (Reload rt f sd pd g)) = catalog (snd (Reload rt f sd pd h))"
proof (cases "reload_builtin f sd")
  case (Inl e)
  with assms show ?thesis by (simp add: Reload_def)
next
  case b: (Inr bf)
  obtain bm bi where bf: "bf = (bm, bi)" by (cases bf)
  show ?thesis
  proof (cases "reload_plugins f pd")
    case (Inl e)
    with b bf assms show ?thesis by (simp add: Reload_def)
  next
    case p: (Inr pf)
    obtain pm pi where pf: "pf = (pm, pi)" by (cases pf)
    show ?thesis
      using assms
      by (simp add: Reload_scanned [OF b [unfolded bf] p [unfolded pf]] Let_def catalog_def reportOverrides_fields)
  qed
qed

lemma ss_report_frame [simp]:
  "ss_app (ss_report d ev s) = ss_app s" "ss_emits (ss_report d ev s) = ss_emits s"
  "catalog (ss_registry (ss_report d ev s)) = catalog (ss_registry s)"
  by (simp_all add: ss_report_def catalog_def)

lemma wt_report_svc [simp]: "wt_svc (wt_report e ev w) = ss_report (we_desktop e) ev (wt_svc w)"
  by (simp add: wt_report_def)

lemma NotifyChanged_frame [simp]:
  "ss_app (NotifyChanged d s) = ss_app s"
  "ss_emits (NotifyChanged d s) = ss_emits s @ (if ss_app s then [''scripts:changed''] else [])"
  "catalog (ss_registry (NotifyChanged d s)) = catalog (ss_registry s)"
  by (simp_all add: NotifyChanged_def)

text \<open>The watcher's service is where its firings, as plain reloads, take the service it began with.\<close>

definition tracks :: "watch_env \<Rightarrow> scriptService \<Rightarrow> string \<Rightarrow> string \<Rightarrow> watcher \<Rightarrow> bool" where
  "tracks e svc sd pd w \<longleftrightarrow>
     wt_builtinDir w = sd \<and> wt_pluginDir w = pd \<and>
     (case fold (reload_at (we_runtime e) (we_fs e) sd pd) (wt_fires w) (0, ss_registry svc) of
        (n, g) \<Rightarrow> catalog (ss_registry (wt_svc w)) = catalog g \<and> ss_app (wt_svc w) = ss_app svc \<and>
          ss_emits (wt_svc w) = ss_emits svc @ (if ss_app svc then replicate n ''scripts:changed'' else []))"

lemma tracks_fire:
  assumes "tracks e svc sd pd w"
  shows "tracks e svc sd pd (fire e t w)"
proof -
  obtain n g where f: "fold (reload_at (we_runtime e) (we_fs e) sd pd) (wt_fires w)
      (0, ss_registry svc) = (n, g)" by fastforce
  with assms have w: "wt_builtinDir w = sd" "wt_pluginDir w = pd" "catalog (ss_registry (wt_svc w)) = catalog g" "ss_app (wt_svc w) = ss_app svc"
    "ss_emits (wt_svc w) = ss_emits svc @ (if ss_app svc then replicate n ''scripts:changed'' else [])"
    by (simp_all add: tracks_def)
  obtain changed err g1 where r: "Reload (we_runtime e) (we_fs e t) sd pd
      (ss_registry (wt_svc w)) = ((changed, err), g1)" by (metis prod.exhaust)
  with Reload_catalog [OF w(3)] obtain g2 where r2: "Reload (we_runtime e) (we_fs e t) sd
      pd g = ((changed, err), g2)" "catalog g1 = catalog g2"
    by (metis fst_conv prod.exhaust snd_conv)
  have changed: "err \<noteq> None \<Longrightarrow> \<not> changed" using Reload_changed [OF r] by blast
  have step: "fold (reload_at (we_runtime e) (we_fs e) sd pd)
      (wt_fires (fire e t w)) (0, ss_registry svc) = (if changed then Suc n else n, g2)"
    by (simp add: f r2(1))
  show ?thesis
    unfolding tracks_def step
    using w r2(2) changed
    by (cases err; cases changed) (simp_all add: fire_def r Let_def replicate_append_same)
qed

text \<open>All that \<open>tracks\<close> looks at.\<close>

definition run_view where
  "run_view w = (wt_fires w, wt_builtinDir w, wt_pluginDir w, wt_debounce w,
     catalog (ss_registry (wt_svc w)), ss_app (wt_svc w), ss_emits (wt_svc w))"

lemma tracks_view: "run_view w' = run_view w \<Longrightarrow> tracks e svc sd pd w \<Longrightarrow> tracks e svc sd pd w'"
  by (simp add: run_view_def tracks_def)

lemma add_watch_view: "run_view (add_watch e p w) = run_view w" "wt_pending (add_watch e p w) = wt_pending w"
  by (simp_all add: add_watch_def run_view_def split: option.splits)

lemma add_watches_view:
  "run_view (fold (add_watch e) ps w) = run_view w \<and> wt_pending (fold (add_watch e) ps w) = wt_pending w"
  by (induction ps arbitrary: w) (simp_all add: add_watch_view)

lemma wt_report_view: "run_view (wt_report e ev w) = run_view w"
  by (simp add: run_view_def)

lemma watch_dir_view:
  "run_view (watch_dir e d title what w) = run_view w \<and> wt_pending (watch_dir e d title what w) = wt_pending w"
  using add_watches_view [of e "walk d (we_tree e d)" w]
  by (auto simp: watch_dir_def addRecursive_def wt_report_view split: option.splits)

lemma run_prologue_view:
  "run_view (run_prologue e w) = run_view w \<and> wt_pending (run_prologue e w) = wt_pending w"
  by (auto simp: run_prologue_def Let_def watch_dir_view wt_report_view split: option.splits)

lemma watch_turn_view: "run_view (snd (watch_turn e t inp w)) = run_view w"
  by (cases inp) (auto simp: run_view_def stop_timer_def schedule_def split: option.splits)

lemma tracks_tick: "tracks e svc sd pd w \<Longrightarrow> tracks e svc sd pd (tick e t w)"
  by (simp add: tick_def tracks_fire split: option.splits)

lemma tracks_loop: "tracks e svc sd pd w \<Longrightarrow> tracks e svc sd pd (watch_loop e inputs w)"
proof (induction inputs arbitrary: w)
  case (Cons x inputs)
  obtain t inp where x: "x = (t, inp)" by (cases x)
  obtain on w1 where turn: "watch_turn e t inp (tick e t w) = (on, w1)" by (cases "watch_turn e t inp (tick e t w)")
  have "tracks e svc sd pd w1"
    using tracks_view [OF watch_turn_view tracks_tick [OF Cons.prems]] turn by (metis snd_conv)
  with Cons.IH show ?case by (cases on) (simp_all add: x turn)
qed simp

lemma tracks_settle: "tracks e svc sd pd w \<Longrightarrow> tracks e svc sd pd (settle e w)"
  by (simp add: settle_def tracks_fire split: option.splits)

subsection \<open>Which directories are watched\<close>

text \<open>The names on the way from the root of a tree down to one of its directories.\<close>

inductive dir_path :: "dirtree \<Rightarrow> string list \<Rightarrow> bool" where
  here: "dir_path (DirNode n es) []"
| down: "d \<in> set es \<Longrightarrow> dir_path d ns \<Longrightarrow> dir_path (DirNode n es) (node_name d # ns)"

inductive_cases dir_path_file: "dir_path (FileNode n) ns"
inductive_cases dir_path_dir: "dir_path (DirNode n es) ns"

definition script_tree :: "string \<Rightarrow> dirtree \<Rightarrow> string set" where
  "script_tree root d = {foldl Join root ns | ns. dir_path d ns \<and> ''_lib'' \<notin> set (node_name d # ns)}"

lemma script_tree_dir:
  "script_tree root (DirNode n es) =
     (if n = ''_lib'' then {} else insert root (\<Union>d \<in> set es. script_tree (Join root (node_name d)) d))"
  (is "?l = ?r")
proof (intro set_eqI iffI)
  fix p
  assume "p \<in> ?l"
  then obtain ns where p: "p = foldl Join root ns" and ns: "dir_path (DirNode n es) ns"
    and lib: "''_lib'' \<notin> set (n # ns)"
    by (auto simp: script_tree_def)
  from ns consider "ns = []" | d ms where "ns = node_name d # ms" "d \<in> set es" "dir_path d ms"
    by (auto elim: dir_path_dir)
  then show "p \<in> ?r"
  proof cases
    case 1
    with p lib show ?thesis by simp
  next
    case (2 d ms)
    with lib have "foldl Join (Join root (node_name d)) ms \<in> script_tree (Join root (node_name d)) d"
      unfolding script_tree_def by (intro CollectI exI [of _ ms]) simp
    with 2 p lib show ?thesis by auto
  qed
next
  fix p
  assume p: "p \<in> ?r"
  then have n: "n \<noteq> ''_lib''" by (auto split: if_splits)
  with p consider "p = root" | d where "d \<in> set es" "p \<in> script_tree (Join root (node_name d)) d" by auto
  then show "p \<in> ?l"
  proof cases
    case 1
    with n dir_path.here show ?thesis unfolding script_tree_def by (intro CollectI exI [of _ "[]"]) simp
  next
    case (2 d)
    then obtain ns where ns: "p = foldl Join (Join root (node_name d)) ns" "dir_path d ns"
      "''_lib'' \<notin> set (node_name d # ns)" by (auto simp: script_tree_def)
    with n 2(1) dir_path.down show ?thesis
      unfolding script_tree_def by (intro CollectI exI [of _ "node_name d # ns"]) simp
  qed
qed

lemma set_walk: "set (walk root d) = script_tree root d"
proof (induction root d rule: walk.induct)
  case (1 root n)
  then show ?case by (auto simp: script_tree_def elim: dir_path_file)
next
  case (2 root n es)
  then show ?case by (simp add: script_tree_dir)
qed

definition unwatched_event :: "watch_env \<Rightarrow> string \<Rightarrow> Event" where
  "unwatched_event e p = watch_event SeverityInfo []
     (''could not watch dir '' @ p @ '': '' @ error_text (the (we_Add e p))) None"

lemma add_watches:
  "wt_watched (fold (add_watch e) ps w) = wt_watched w @ filter (\<lambda>p. we_Add e p = None) ps \<and>
   log_view (rg_rsv (ss_registry (wt_svc (fold (add_watch e) ps w)))) =
     log_view (rg_rsv (ss_registry (wt_svc w))) @
       map (\<lambda>p. event_view (unwatched_event e p)) (filter (\<lambda>p. we_Add e p \<noteq> None) ps)"
  by (induction ps arbitrary: w) (auto simp: add_watch_def unwatched_event_def split: option.splits)

subsection \<open>Properties\<close>

text \<open>The watcher as \<open>main\<close> makes it, with a debounce window of its own.\<close>

definition new_watcher :: "nat \<Rightarrow> scriptService \<Rightarrow> string \<Rightarrow> string \<Rightarrow> watcher" where
  "new_watcher D svc sd pd = SetDebounce D (NewWatcher svc sd pd)"

lemma new_watcher_fields [simp]:
  "wt_fires (new_watcher D svc sd pd) = []" "wt_pending (new_watcher D svc sd pd) = None"
  "wt_debounce (new_watcher D svc sd pd) = D" "wt_svc (new_watcher D svc sd pd) = svc"
  "wt_builtinDir (new_watcher D svc sd pd) = sd" "wt_pluginDir (new_watcher D svc sd pd) = pd"
  "wt_watched (new_watcher D svc sd pd) = []"
  by (simp_all add: new_watcher_def SetDebounce_def NewWatcher_def)

lemma Run_fires:
  assumes "we_NewWatcher e = None" "\<forall>(t, inp) \<in> set inputs. goes_on inp" "sorted (map fst inputs @ [T])"
  shows "wt_fires (snd (Run e inputs (new_watcher D svc sd pd))) = quiet_ends D (event_times inputs) \<and>
    wt_fires (snd (Run e (inputs @ (T, CtxDone) # rest) (new_watcher D svc sd pd))) =
      filter (\<lambda>f. f \<le> T) (quiet_ends D (event_times inputs))"
proof -
  let ?w = "run_prologue e (new_watcher D svc sd pd)"
  have w: "wt_fires ?w = []" "wt_pending ?w = None" "wt_debounce ?w = D"
    using run_prologue_view [of e "new_watcher D svc sd pd"] by (simp_all add: run_view_def)
  have sorted: "sorted (map fst inputs)" and by_T: "\<forall>(t, inp) \<in> set inputs. t \<le> T"
    using assms(3) by (auto simp: sorted_append)
  have "wt_fires (watch_loop e inputs ?w) @ timers (watch_loop e inputs ?w) = quiet_ends D (event_times inputs)"
    using loop_fires [OF assms(2) sorted, of ?w "[]" D e] by (simp add: pending_event_def w)
  moreover have "\<forall>f \<in> set (wt_fires (watch_loop e inputs ?w)). f \<le> T"
    by (rule loop_fires_by [OF assms(2) by_T]) (simp add: w)
  note cancelled_fires [OF this, of e rest]
  ultimately show ?thesis
    by (simp add: Run_def assms(1) settle_fires loop_append [OF assms(2)])
qed

text \<open>C22: a burst of file system events causes one reload. Whatever else happens in between, the
  reloads run exactly at the ends of the quiet windows of the event times; in particular the
  last event is always followed by a reload. When the context is cancelled at \<open>t\<close> the loop
  ends there, whatever would have come, and the only reloads are those that were due by \<open>t\<close>.\<close>

theorem one_reload_per_burst:
  assumes "we_NewWatcher e = None" "\<forall>(t, inp) \<in> set inputs. goes_on inp" "sorted (map fst inputs @ [T])"
  shows "wt_fires (snd (Run e inputs (new_watcher D svc sd pd))) = quiet_ends D (event_times inputs) \<and>
    wt_fires (snd (Run e (inputs @ (T, CtxDone) # rest) (new_watcher D svc sd pd))) =
      filter (\<lambda>f. f \<le> T) (quiet_ends D (event_times inputs))"
  using assms by (rule Run_fires)


text \<open>\<open>addRecursive\<close> watches the directory and every directory below it, at any depth, that is not
  \<open>_lib\<close> or inside one, and nothing else; a directory fsnotify refuses is left out and reported,
  and does not stop the walk.\<close>

theorem every_script_dir_watched:
  assumes "dir \<noteq> []" "we_Stat e dir = None" "addRecursive e dir w = (err, w')"
  shows "err = None \<and>
    set (wt_watched w') = set (wt_watched w) \<union> {p \<in> script_tree dir (we_tree e dir). we_Add e p = None} \<and>
    (\<exists>refused. set refused = {p \<in> script_tree dir (we_tree e dir). we_Add e p \<noteq> None} \<and>
       log_view (rg_rsv (ss_registry (wt_svc w'))) = log_view (rg_rsv (ss_registry (wt_svc w))) @
         map (\<lambda>p. event_view (unwatched_event e p)) refused)"
  using assms add_watches [of e "walk dir (we_tree e dir)" w]
  by (intro conjI exI [of _ "filter (\<lambda>p. we_Add e p \<noteq> None) (walk dir (we_tree e dir))"])
    (auto simp: addRecursive_def set_walk)

text \<open>A directory created later is watched itself, but neither its contents are nor is \<open>_lib\<close> left out.\<close>

lemma created_dir_watched_alone:
  "we_isDir e t p \<Longrightarrow> we_Add e p = None \<Longrightarrow>
     wt_watched (snd (watch_turn e t (FsEvent True p) w)) = wt_watched w @ [p]"
  by (simp add: schedule_def)

subsection \<open>Examples\<close>

definition test_tree :: dirtree where
  "test_tree = DirNode ''s'' [DirNode ''_lib'' [DirNode ''pkg'' []], FileNode ''a.txt'',
     DirNode ''good'' [FileNode ''main.py'', DirNode ''data'' []], DirNode ''bad'' []]"

definition test_watch :: watch_env where
  "test_watch = \<lparr>we_fs = (\<lambda>t. if t < 1000 then two_dirs ''a'' else (two_dirs ''a'')\<lparr>fs_ReadDir := \<lambda>d. Inr []\<rparr>),
     we_NewWatcher = None, we_tree = (\<lambda>d. if d = ''/s'' then test_tree else DirNode d []),
     we_Stat = (\<lambda>_. None), we_MkdirAll = (\<lambda>_. None), we_isDir = (\<lambda>_ _. False),
     we_Add = (\<lambda>p. if p = ''/s/bad'' then Some (Errorf ''limit'' None) else None),
     we_overflow = (\<lambda>_. False), we_desktop = test_desktop, we_runtime = test_runtime\<rparr>"

definition fresh_scripts :: scriptService where
  "fresh_scripts = ScriptService_SetApp (NewScriptService test_desktop (New newReservoir) [''s''])"

definition test_inputs :: "(time \<times> watch_input) list" where
  "test_inputs = [(100, FsEvent False ''/s/good/x''), (150, FsError (Errorf ''noise'' None)),
     (350, FsEvent False ''/s/good/x''), (900, FsEvent True ''/s/y'')]"

definition test_watcher :: watcher where
  "test_watcher = new_watcher 300 fresh_scripts ''/s'' ''/p''"

lemma test_quiet: "quiet_ends 300 (event_times test_inputs) = [650, 1200]"
  by (simp add: quiet_ends_Cons event_times_def test_inputs_def)

lemma test_inputs_ok:
  "we_NewWatcher test_watch = None" "\<forall>(t, inp) \<in> set test_inputs. goes_on inp"
  "sorted (map fst test_inputs @ [1000])"
  by (simp_all add: test_watch_def test_inputs_def)

lemma one_reload_per_burst_witness:
  "wt_fires (snd (Run test_watch test_inputs test_watcher)) = [650, 1200] \<and>
   wt_fires (snd (Run test_watch (test_inputs @ [(1000, CtxDone)]) test_watcher)) = [650]"
  using one_reload_per_burst [OF test_inputs_ok, of 300 fresh_scripts "''/s''" "''/p''" "[]"]
  by (simp add: test_watcher_def test_quiet)

lemma test_reloads:
  "reload_builtin (two_dirs ''a''\<lparr>fs_ReadDir := \<lambda>d. Inr []\<rparr>) ''/s'' = Inr (Map.empty, [])"
  "reload_plugins (two_dirs ''a''\<lparr>fs_ReadDir := \<lambda>d. Inr []\<rparr>) ''/p'' = Inr (Map.empty, [])"
  by (simp_all add: reload_builtin_def reload_plugins_def buildFromDir_def two_dirs_def test_disk_def)

lemma loaded_fingerprint: "computeFingerprint test_runtime Map.empty [] \<noteq> rg_fingerprint loaded"
proof -
  have "rg_fingerprint loaded = computeFingerprint test_runtime [''id'' \<mapsto> test_script ''plugin'' ''/p/a''] [test_issue]"
    by (simp add: loaded_def Reload_scanned [OF test_reload_scans(1,2)] Let_def New_def
        digest_nonempty reportOverrides_fields last_n_def)
  then show ?thesis
    by (simp add: computeFingerprint_def test_runtime_def insertion_sort_def) (simp add: dec_nat.simps digit_char_def)
qed


lemma every_script_dir_watched_witness:
  "set (wt_watched (snd (addRecursive test_watch ''/s'' test_watcher))) = {''/s'', ''/s/good'', ''/s/good/data''}"
proof -
  have joins: "Join ''/s'' ''good'' = ''/s/good''" "Join ''/s/good'' ''data'' = ''/s/good/data''"
    "Join ''/s'' ''bad'' = ''/s/bad''"
    by (simp_all add: Join_all_def path_eval)
  have tree: "script_tree ''/s'' (we_tree test_watch ''/s'') = {''/s'', ''/s/good'', ''/s/good/data'', ''/s/bad''}"
    by (simp add: set_walk [symmetric] test_watch_def test_tree_def joins insert_commute)
  obtain err w' where r: "addRecursive test_watch ''/s'' test_watcher = (err, w')"
    by (cases "addRecursive test_watch ''/s'' test_watcher")
  have start: "we_Stat test_watch ''/s'' = None" "wt_watched test_watcher = []"
    and add: "we_Add test_watch p = None \<longleftrightarrow> p \<noteq> ''/s/bad''" for p
    by (simp_all add: test_watch_def test_watcher_def)
  have "set (wt_watched w') = {p \<in> {''/s'', ''/s/good'', ''/s/good/data'', ''/s/bad''}. p \<noteq> ''/s/bad''}"
    using every_script_dir_watched [OF _ start(1) r, THEN conjunct2, THEN conjunct1]
    by (simp add: start(2) add tree)
  also have "\<dots> = {''/s'', ''/s/good'', ''/s/good/data''}" by auto
  finally show ?thesis by (simp add: r)
qed

end
