(* ===== verification/Recording.thy ===== *)
theory Recording
  imports Notify
begin

section \<open>Recording: the reservoir that tests use\<close>

text \<open>
  Models \<^verbatim>\<open>internal/notify/testing.go\<close>: the test double that records what it is told, and the
  contract check on its recordings. It answers to the same interface as the reservoir; where
  the two part ways is stated at the end.
\<close>

record ReplaceCall =
  rp_Prefix :: string
  rp_Replacements :: "Event list"

record recorder =
  rc_events :: "Event list"
  rc_banners :: "Event list"
  rc_dismiss :: "string list"
  rc_replaces :: "ReplaceCall list"

definition newRecorder :: recorder where
  "newRecorder = \<lparr>rc_events = [], rc_banners = [], rc_dismiss = [], rc_replaces = []\<rparr>"

definition rc_Report :: "Event \<Rightarrow> recorder \<Rightarrow> recorder" where
  "rc_Report ev r = r\<lparr>rc_events := rc_events r @ [ev],
     rc_banners := (if ev_Persistence ev = PersistenceOngoing then rc_banners r @ [ev] else rc_banners r)\<rparr>"

definition rc_DismissBanner :: "string \<Rightarrow> recorder \<Rightarrow> recorder" where
  "rc_DismissBanner key r = r\<lparr>rc_dismiss := rc_dismiss r @ [key],
     rc_banners := filter (\<lambda>b. ev_Key b \<noteq> key) (rc_banners r)\<rparr>"

definition rc_ReplaceBannersByPrefix :: "string \<Rightarrow> Event list \<Rightarrow> recorder \<Rightarrow> recorder" where
  "rc_ReplaceBannersByPrefix keyPrefix replacements r =
     r\<lparr>rc_replaces := rc_replaces r @ [\<lparr>rp_Prefix = keyPrefix, rp_Replacements = replacements\<rparr>],
       rc_banners := filter (\<lambda>b. \<not> hasPrefix (ev_Key b) keyPrefix) (rc_banners r) @ replacements\<rparr>"

definition rc_ListBanners :: "recorder \<Rightarrow> Event list" where
  "rc_ListBanners r = rc_banners r"

definition rc_SetApp :: "recorder \<Rightarrow> recorder" where
  "rc_SetApp r = r"

definition rc_Events :: "recorder \<Rightarrow> Event list" where
  "rc_Events r = rc_events r"

definition rc_Dismissals :: "recorder \<Rightarrow> string list" where
  "rc_Dismissals r = rc_dismiss r"

definition rc_Replacements :: "recorder \<Rightarrow> ReplaceCall list" where
  "rc_Replacements r = rc_replaces r"

definition FindBySeverity :: "Severity \<Rightarrow> recorder \<Rightarrow> Event list" where
  "FindBySeverity s r = filter (\<lambda>ev. ev_Severity ev = s) (rc_events r)"

definition rc_Reset :: "recorder \<Rightarrow> recorder" where
  "rc_Reset r = r\<lparr>rc_events := [], rc_banners := [], rc_dismiss := [], rc_replaces := []\<rparr>"

subsection \<open>The contract check\<close>

text \<open>The loop from index \<open>i\<close>; \<open>s[i:i+len(sub)]\<close> stays in bounds.\<close>

function contains_from :: "nat \<Rightarrow> string \<Rightarrow> string \<Rightarrow> bool" where
  "contains_from i s sub =
     (if i + length sub \<le> length s
      then (if take (length sub) (drop i s) = sub then True else contains_from (Suc i) s sub)
      else False)"
  by pat_completeness auto
termination by (relation "measure (\<lambda>(i, s, sub). Suc (length s) - i)") auto

declare contains_from.simps [simp del]

definition containsSubstring :: "string \<Rightarrow> string \<Rightarrow> bool" where
  "containsSubstring s sub =
     (if length sub = 0 then True else if length s < length sub then False else contains_from 0 s sub)"

record ContractExpectation =
  ce_Severity :: Severity
  ce_Persistence :: Persistence
  ce_Source :: string
  ce_RunID :: run_id
  ce_ScriptID :: script_id
  ce_MessageContains :: string

text \<open>The calls of \<open>t.Errorf\<close>, each with the attribute it complains of.\<close>

datatype complaint = NoEvent Severity | BadPersistence | BadSource | BadRunID | BadScriptID | BadMessage

definition AssertContract :: "recorder \<Rightarrow> ContractExpectation \<Rightarrow> complaint list" where
  "AssertContract rec want =
     (let matches = FindBySeverity (ce_Severity want) rec
      in if matches = [] then [NoEvent (ce_Severity want)]
         else
           (let got = last matches
            in (if ce_Persistence want \<noteq> ev_Persistence got then [BadPersistence] else []) @
               (if ce_Source want \<noteq> [] \<and> ev_Source got \<noteq> ce_Source want then [BadSource] else []) @
               (if ce_RunID want \<noteq> [] \<and> ev_RunID got \<noteq> ce_RunID want then [BadRunID] else []) @
               (if ce_ScriptID want \<noteq> [] \<and> ev_ScriptID got \<noteq> ce_ScriptID want then [BadScriptID] else []) @
               (if ce_MessageContains want \<noteq> [] \<and>
                   \<not> containsSubstring (ev_Message got) (ce_MessageContains want) then [BadMessage] else [])))"

subsection \<open>Lemmas\<close>

interpretation recording: event_sink rc_Report rc_Events "\<lambda>ev. ev"
  by unfold_locales (simp add: rc_Report_def rc_Events_def)

lemma contains_from_iff:
  "contains_from i s sub \<longleftrightarrow> (\<exists>j \<ge> i. j + length sub \<le> length s \<and> take (length sub) (drop j s) = sub)"
proof (induction i s sub rule: contains_from.induct)
  case (1 i s sub)
  show ?case
  proof (cases "i + length sub \<le> length s \<and> take (length sub) (drop i s) \<noteq> sub")
    case True
    then have "contains_from i s sub = contains_from (Suc i) s sub" by (simp add: contains_from.simps [of i])
    with 1 True show ?thesis by (metis Suc_le_eq le_neq_implies_less less_imp_le)
  next
    case False
    then show ?thesis by (subst contains_from.simps) (auto intro: exI [of _ i])
  qed
qed

lemma containsSubstring_sublist: "containsSubstring s sub \<longleftrightarrow> sublist sub s"
proof -
  have "sublist sub s \<longleftrightarrow> (\<exists>j. j + length sub \<le> length s \<and> take (length sub) (drop j s) = sub)"
  proof
    assume "sublist sub s"
    then obtain ps ss where "s = ps @ sub @ ss" by (auto simp: sublist_def)
    then show "\<exists>j. j + length sub \<le> length s \<and> take (length sub) (drop j s) = sub"
      by (intro exI [of _ "length ps"]) simp
  next
    assume "\<exists>j. j + length sub \<le> length s \<and> take (length sub) (drop j s) = sub"
    then obtain j where "take (length sub) (drop j s) = sub" by blast
    then have "s = take j s @ sub @ drop (length sub) (drop j s)" by (metis append_take_drop_id)
    then show "sublist sub s" by (metis sublist_def)
  qed
  then show ?thesis by (auto simp: containsSubstring_def contains_from_iff sublist_length_le)
qed

text \<open>The keys of the banners reported.\<close>

definition raised_keys :: "banner_op list \<Rightarrow> string list" where
  "raised_keys bops = [ev_Key ev. BReport ev \<leftarrow> bops, ev_Persistence ev = PersistenceOngoing]"

lemma cut_first_filter:
  "distinct (map ev_Key bs) \<Longrightarrow> fst (cut_first (\<lambda>b. ev_Key b = k) bs) = filter (\<lambda>b. ev_Key b \<noteq> k) bs"
proof (induction bs)
  case (Cons b bs)
  show ?case
  proof (cases "ev_Key b = k")
    case True
    with Cons.prems have "\<forall>c \<in> set bs. ev_Key c \<noteq> k" by (auto simp: image_iff)
    with True show ?thesis by (simp add: filter_id_conv)
  next
    case False
    with Cons show ?thesis by (cases "cut_first (\<lambda>b. ev_Key b = k) bs") simp
  qed
qed simp

lemma content_keys: "map banner_content xs = map banner_content ys \<Longrightarrow> map ev_Key xs = map ev_Key ys"
proof -
  assume "map banner_content xs = map banner_content ys"
  then have "map ev_Key (map banner_content xs) = map ev_Key (map banner_content ys)" by (rule arg_cong)
  then show ?thesis by (simp add: comp_def banner_content_def)
qed

lemma filter_content:
  "map banner_content (filter (\<lambda>b. ev_Key b \<noteq> k) xs) = filter (\<lambda>b. ev_Key b \<noteq> k) (map banner_content xs)"
  by (simp add: filter_map comp_def banner_content_def)

lemma agree:
  assumes "map banner_content (rv_banners r) = map banner_content (rc_banners d)"
    and "distinct (map ev_Key (rv_banners r) @ raised_keys bops)"
    and "[] \<notin> set (map ev_Key (rv_banners r) @ raised_keys bops)"
  shows "map banner_content (rv_banners (fold (board_op (Report en) DismissBanner) bops r)) =
    map banner_content (rc_banners (fold (board_op rc_Report rc_DismissBanner) bops d))"
  using assms
proof (induction bops arbitrary: r d)
  case (Cons bop bops)
  show ?case
  proof (cases bop)
    case (BReport ev)
    show ?thesis
    proof (cases "ev_Persistence ev = PersistenceOngoing")
      case True
      with Cons.prems(2,3) BReport have k: "ev_Key ev \<noteq> []" "ev_Key ev \<notin> ev_Key ` set (rv_banners r)"
        "distinct (map ev_Key (rv_banners r) @ ev_Key ev # raised_keys bops)"
        "[] \<notin> set (map ev_Key (rv_banners r) @ ev_Key ev # raised_keys bops)"
        by (auto simp: raised_keys_def)
      from k(2) have "\<forall>b \<in> set (rv_banners r). ev_Key b \<noteq> ev_Key ev" by (auto simp: image_iff)
      then have b: "rv_banners (Report en ev r) = rv_banners r @ [filled en ev r]"
        using True k(1) by (simp add: Report_fields upsertBanner_def put_first_none)
      have "map banner_content (rv_banners (Report en ev r)) = map banner_content (rc_banners (rc_Report ev d))"
        using True Cons.prems(1) by (simp add: b rc_Report_def)
      from Cons.IH [OF this] k(3,4) show ?thesis by (simp add: BReport b)
    next
      case False
      then have "rv_banners (Report en ev r) = rv_banners r" "rc_banners (rc_Report ev d) = rc_banners d"
        "raised_keys (bop # bops) = raised_keys bops"
        by (simp_all add: Report_fields rc_Report_def raised_keys_def BReport)
      with Cons.IH [of "Report en ev r" "rc_Report ev d"] Cons.prems show ?thesis by (simp add: BReport)
    qed
  next
    case (BDismiss k)
    from Cons.prems(2,3) BDismiss have keys: "distinct (map ev_Key (rv_banners r) @ raised_keys bops)"
      "[] \<notin> set (map ev_Key (rv_banners r) @ raised_keys bops)" by (simp_all add: raised_keys_def)
    have b: "rv_banners (DismissBanner k r) = filter (\<lambda>b. ev_Key b \<noteq> k) (rv_banners r)"
    proof (cases "k = []")
      case True
      with keys(2) have "\<forall>b \<in> set (rv_banners r). ev_Key b \<noteq> k" by (auto simp: image_iff)
      then have "filter (\<lambda>b. ev_Key b \<noteq> k) (rv_banners r) = rv_banners r" by (simp add: filter_id_conv)
      with True show ?thesis by (simp add: DismissBanner_def)
    next
      case False
      with keys(1) show ?thesis by (simp add: DismissBanner_def frame_simps cut_first_filter)
    qed
    have "map banner_content (rv_banners (DismissBanner k r)) = map banner_content (rc_banners (rc_DismissBanner k d))"
      using Cons.prems(1) by (simp add: b rc_DismissBanner_def filter_content)
    from Cons.IH [OF this] keys show ?thesis
      by (auto simp: BDismiss b distinct_map_filter)
  qed
qed simp

lemma recorded:
  "rc_Events (fold (board_op rc_Report rc_DismissBanner) bops d) = rc_Events d @ [ev. BReport ev \<leftarrow> bops]"
proof (induction bops arbitrary: d)
  case (Cons bop bops)
  then show ?case by (cases bop) (simp_all add: recording.seen_report, simp add: rc_DismissBanner_def rc_Events_def)
qed simp

lemma last_matching:
  "filter P xs \<noteq> [] \<and> Q (last (filter P xs)) \<longleftrightarrow>
     (\<exists>pre got post. xs = pre @ [got] @ post \<and> P got \<and> (\<forall>x \<in> set post. \<not> P x) \<and> Q got)"
proof (induction xs rule: rev_induct)
  case (snoc x xs)
  show ?case
  proof (cases "P x")
    case True
    show ?thesis
    proof
      assume "filter P (xs @ [x]) \<noteq> [] \<and> Q (last (filter P (xs @ [x])))"
      with True show "\<exists>pre got post. xs @ [x] = pre @ [got] @ post \<and> P got \<and> (\<forall>x \<in> set post. \<not> P x) \<and> Q got"
        by (intro exI [of _ xs] exI [of _ x] exI [of _ "[]"]) simp
    next
      assume "\<exists>pre got post. xs @ [x] = pre @ [got] @ post \<and> P got \<and> (\<forall>x \<in> set post. \<not> P x) \<and> Q got"
      then obtain pre got post where g: "xs @ [x] = pre @ [got] @ post" "\<forall>x \<in> set post. \<not> P x" "Q got" by blast
      with True have "post = []" by (cases post rule: rev_cases) auto
      with g True show "filter P (xs @ [x]) \<noteq> [] \<and> Q (last (filter P (xs @ [x])))" by simp
    qed
  next
    case False
    have "(\<exists>pre got post. xs @ [x] = pre @ [got] @ post \<and> P got \<and> (\<forall>x \<in> set post. \<not> P x) \<and> Q got) \<longleftrightarrow>
      (\<exists>pre got post. xs = pre @ [got] @ post \<and> P got \<and> (\<forall>x \<in> set post. \<not> P x) \<and> Q got)"
    proof
      assume "\<exists>pre got post. xs @ [x] = pre @ [got] @ post \<and> P got \<and> (\<forall>x \<in> set post. \<not> P x) \<and> Q got"
      then obtain pre got post where g: "xs @ [x] = pre @ [got] @ post" "P got" "\<forall>x \<in> set post. \<not> P x" "Q got" by blast
      with False obtain post' where "post = post' @ [x]" by (cases post rule: rev_cases) auto
      with g show "\<exists>pre got post. xs = pre @ [got] @ post \<and> P got \<and> (\<forall>x \<in> set post. \<not> P x) \<and> Q got"
        by (intro exI [of _ pre] exI [of _ got] exI [of _ post']) auto
    next
      assume "\<exists>pre got post. xs = pre @ [got] @ post \<and> P got \<and> (\<forall>x \<in> set post. \<not> P x) \<and> Q got"
      then obtain pre got post where "xs = pre @ [got] @ post" "P got" "\<forall>x \<in> set post. \<not> P x" "Q got" by blast
      with False show "\<exists>pre got post. xs @ [x] = pre @ [got] @ post \<and> P got \<and> (\<forall>x \<in> set post. \<not> P x) \<and> Q got"
        by (intro exI [of _ pre] exI [of _ got] exI [of _ "post @ [x]"]) auto
    qed
    with snoc.IH False show ?thesis by simp
  qed
qed simp

subsection \<open>Properties\<close>

text \<open>The double stands in for the reservoir: through any reports and dismissals in which no ongoing key
  is raised twice or is empty, the banners it lists are those the reservoir lists, in the same order,
  up to the id and time the reservoir draws; and it has recorded the reports the reservoir logs.\<close>

theorem double_agrees_with_reservoir:
  assumes "distinct (raised_keys bops)" "[] \<notin> set (raised_keys bops)"
  shows "let real = fold (board_op (Report en) DismissBanner) bops newReservoir;
        double = fold (board_op rc_Report rc_DismissBanner) bops newRecorder
    in map banner_content (ListBanners real) = map banner_content (rc_ListBanners double) \<and>
       log_view real = map event_view (rc_Events double)"
proof -
  let ?real = "fold (board_op (Report en) DismissBanner) bops newReservoir"
    and ?double = "fold (board_op rc_Report rc_DismissBanner) bops newRecorder"
  have "map banner_content (ListBanners ?real) = map banner_content (rc_ListBanners ?double)"
    unfolding ListBanners_def rc_ListBanners_def
    using assms by (intro agree) (simp_all add: newReservoir_def newRecorder_def)
  moreover have "rc_Events ?double = [ev. BReport ev \<leftarrow> bops]"
    by (simp add: recorded) (simp add: rc_Events_def newRecorder_def)
  moreover have "log_view ?real = [event_view ev. BReport ev \<leftarrow> bops]"
    using board.seen_ops [of en bops newReservoir] by (simp add: newReservoir_def)
  moreover have "[event_view ev. BReport ev \<leftarrow> bops] = map event_view [ev. BReport ev \<leftarrow> bops]"
    by (induction bops) (auto split: banner_op.splits)
  ultimately show ?thesis by (simp add: Let_def)
qed

lemma double_agrees_with_reservoir_witness:
  "map banner_content (ListBanners (fold (board_op (Report test_env) DismissBanner)
      [BReport (dead_server ''a''), BReport crash_event, BDismiss ''x''] newReservoir)) = [banner_content (dead_server ''a'')]"
proof -
  let ?bops = "[BReport (dead_server ''a''), BReport crash_event, BDismiss ''x'']"
  have "distinct (raised_keys ?bops)" "[] \<notin> set (raised_keys ?bops)"
    by (simp_all add: raised_keys_def dead_server_def crash_event_def Event0_def)
  from double_agrees_with_reservoir [OF this, of test_env, unfolded Let_def, THEN conjunct1] show ?thesis
    by (simp add: rc_ListBanners_def rc_Report_def rc_DismissBanner_def newRecorder_def)
      (simp add: dead_server_def crash_event_def Event0_def)
qed

text \<open>The same key raised twice: the reservoir replaces the banner, the double stacks a second one.\<close>

lemma double_stacks_banners:
  "length (rc_ListBanners (rc_Report (dead_server ''b'') (rc_Report (dead_server ''a'') newRecorder))) = 2 \<and>
   length (ListBanners (Report en (dead_server ''b'') (Report en (dead_server ''a'') newReservoir))) = 1"
  by (simp add: rc_ListBanners_def rc_Report_def newRecorder_def ListBanners_def Report_fields upsertBanner_def
      dead_server_def Event0_def newReservoir_def)

text \<open>The contract check accepts a recording exactly when some event of the wanted severity was reported
  and the last of them has the wanted persistence, each of source, run and script that was asked
  for, and a message in which the wanted text occurs; it complains of nothing else.\<close>

theorem contract_check_sound_complete:
  "AssertContract rec want = [] \<longleftrightarrow>
     (\<exists>pre got post. rc_Events rec = pre @ [got] @ post \<and> ev_Severity got = ce_Severity want \<and>
        ce_Severity want \<notin> ev_Severity ` set post \<and> ev_Persistence got = ce_Persistence want \<and>
        ce_Source want \<in> {[], ev_Source got} \<and> ce_RunID want \<in> {[], ev_RunID got} \<and>
        ce_ScriptID want \<in> {[], ev_ScriptID got} \<and> sublist (ce_MessageContains want) (ev_Message got))"
proof -
  define fits where "fits got \<longleftrightarrow> ev_Persistence got = ce_Persistence want \<and>
    ce_Source want \<in> {[], ev_Source got} \<and> ce_RunID want \<in> {[], ev_RunID got} \<and>
    ce_ScriptID want \<in> {[], ev_ScriptID got} \<and> sublist (ce_MessageContains want) (ev_Message got)" for got :: Event
  have "AssertContract rec want = [] \<longleftrightarrow>
      FindBySeverity (ce_Severity want) rec \<noteq> [] \<and> fits (last (FindBySeverity (ce_Severity want) rec))"
    by (auto simp: AssertContract_def Let_def fits_def containsSubstring_sublist)
  also have "\<dots> \<longleftrightarrow> (\<exists>pre got post. rc_events rec = pre @ [got] @ post \<and> ev_Severity got = ce_Severity want \<and>
      (\<forall>x \<in> set post. ev_Severity x \<noteq> ce_Severity want) \<and> fits got)"
    unfolding FindBySeverity_def by (rule last_matching)
  also have "\<dots> \<longleftrightarrow> (\<exists>pre got post. rc_Events rec = pre @ [got] @ post \<and> ev_Severity got = ce_Severity want \<and>
      ce_Severity want \<notin> ev_Severity ` set post \<and> fits got)"
    unfolding rc_Events_def by (auto simp: image_iff) metis+
  finally show ?thesis by (simp only: fits_def)
qed

end
