(* ===== verification/App.thy ===== *)
theory App
  imports Watcher RunnerService EnvService Db Logging
begin

section \<open>App: what main wires together\<close>

text \<open>
  Models \<^verbatim>\<open>main.go\<close>: where the scripts are found, the start-up from the logger to \<open>SetApp\<close>, the
  events \<open>main\<close> itself reports while the program runs, and the dialog handler it plugs into the
  gRPC server. The reservoir is one object that all parts share; here it is threaded through the
  start-up, and each part then holds what it is at that point. The Wails application,
  its options and its window are in \<open>AppRun\<close>; the log file behind \<open>slog\<close> is not modelled, and the log
  service has its own model. What the start-up asks of the machine is the record \<open>machine\<close>.
\<close>

record 'd machine =
  ma_out :: "'d outside"
  ma_runtime :: runtime
  ma_fs :: fs
  ma_sys :: os
  ma_desktop :: desktop
  ma_configDir :: "goerror + string"
  ma_mkdir :: "string \<Rightarrow> goerror option"
  ma_isDir :: "string \<Rightarrow> bool"
  ma_listen :: "goerror option"
  ma_addr :: string
  ma_hasUv :: bool
  ma_probe :: "goerror + string"
  ma_shm :: "string set"

text \<open>\<open>log.Fatalf\<close> ends the program with a message.\<close>

datatype 'a boot = Fatal string | Up 'a

subsection \<open>Finding the scripts\<close>

text \<open>\<open>isDir p\<close>: \<open>os.Stat p\<close> succeeds and says directory.\<close>

definition findScriptsDir_exe :: "(string \<Rightarrow> bool) \<Rightarrow> os \<Rightarrow> string" where
  "findScriptsDir_exe isDir sys =
     (case os_Executable sys of
        Inl e \<Rightarrow> ''scripts''
      | Inr execPath \<Rightarrow>
          (let scriptsDir = Join (Dir execPath) ''scripts''
           in if isDir scriptsDir then scriptsDir else ''scripts''))"

definition findScriptsDir :: "(string \<Rightarrow> bool) \<Rightarrow> os \<Rightarrow> string" where
  "findScriptsDir isDir sys =
     (if isDir ''scripts'' then
        (case Abs (os_Getwd sys) ''scripts'' of
           Inl e \<Rightarrow> findScriptsDir_exe isDir sys
         | Inr full \<Rightarrow> full)
      else findScriptsDir_exe isDir sys)"

subsection \<open>The logger\<close>

text \<open>
  \<^verbatim>\<open>logging.NewLogger\<close> and \<^verbatim>\<open>logging.DefaultLogDir\<close>, given what \<open>os.MkdirAll\<close> and
  \<open>os.UserConfigDir\<close> answer: the log file's path, the handler, and the sink it writes to.
\<close>

definition DefaultLogDir :: "goerror + string \<Rightarrow> string" where
  "DefaultLogDir configDir =
     Join_all [case configDir of Inl e \<Rightarrow> ''.'' | Inr d \<Rightarrow> d, ''go-python-runner'', ''logs'']"

definition NewLogger ::
    "(string \<Rightarrow> goerror option) \<Rightarrow> string \<Rightarrow> RingBuffer \<Rightarrow> goerror + string \<times> multiHandler \<times> logsink" where
  "NewLogger mkdir logDir ring =
     (case mkdir logDir of
        Some e \<Rightarrow> Inl e
      | None \<Rightarrow> Inr (Join logDir ''app.log'', newMultiHandler, \<lparr>ls_tries = 0, ls_file = [], ls_ring = ring\<rparr>))"

subsection \<open>Starting up\<close>

definition main_event :: "Severity \<Rightarrow> string \<Rightarrow> string \<Rightarrow> goerror option \<Rightarrow> Event" where
  "main_event sev title msg err = Event0\<lparr>ev_Severity := sev, ev_Persistence := PersistenceOneShot,
     ev_Source := SourceBackend, ev_Title := title, ev_Message := msg, ev_Err := err\<rparr>"

definition main_report :: "'d machine \<Rightarrow> Event \<Rightarrow> reservoir \<Rightarrow> reservoir" where
  "main_report m ev r = Report (ox_env (ma_out m)) ev r"

text \<open>A step that may fail and is reported as a warning then.\<close>

definition warn_if :: "'d machine \<Rightarrow> string \<Rightarrow> (goerror \<Rightarrow> string) \<Rightarrow> goerror option \<Rightarrow> reservoir \<Rightarrow> reservoir" where
  "warn_if m title msg err r =
     (case err of None \<Rightarrow> r | Some e \<Rightarrow> main_report m (main_event SeverityWarn title (msg e) (Some e)) r)"

definition boot_dsn :: "'d machine \<Rightarrow> goerror + string" where
  "boot_dsn m =
     (let dsn = os_Getenv (ma_sys m) ''PYRUNNER_DB''
      in if dsn = [] then DefaultDSN [slash] (ma_configDir m) (ma_mkdir m) else Inr dsn)"

text \<open>An \<open>Open\<close> that succeeds has a handle.\<close>

definition boot_database :: "'d machine \<Rightarrow> reservoir \<Rightarrow> ('d \<times> reservoir) boot" where
  "boot_database m r =
     (case boot_dsn m of
        Inl e \<Rightarrow> Fatal (''failed to determine database path: '' @ error_text e)
      | Inr dsn \<Rightarrow>
          (case Open (ox_sql (ma_out m)) (ox_quote (ma_out m)) dsn of
             (Inl e, _) \<Rightarrow> Fatal (''failed to open database: '' @ error_text e)
           | (Inr _, None) \<Rightarrow> Fatal []
           | (Inr _, Some db) \<Rightarrow>
               (case Migrate (ox_sql (ma_out m)) db of
                  (Some e, _) \<Rightarrow> Fatal (''failed to migrate database: '' @ error_text e)
                | (None, db') \<Rightarrow>
                    Up (db', main_report m (main_event SeverityInfo [] (''database initialized: '' @ dsn) None) r))))"

definition reg_warn :: "'d machine \<Rightarrow> string \<Rightarrow> (goerror \<Rightarrow> string) \<Rightarrow> goerror option \<Rightarrow> registry \<Rightarrow> registry" where
  "reg_warn m title msg err g = g\<lparr>rg_rsv := warn_if m title msg err (rg_rsv g)\<rparr>"

definition mkdir_text :: "string \<Rightarrow> goerror \<Rightarrow> string" where
  "mkdir_text pluginDir e = ''could not create plugin dir '' @ pluginDir"

definition loaded_event :: "'d machine \<Rightarrow> string \<Rightarrow> registry \<Rightarrow> Event" where
  "loaded_event m scriptsDir g = main_event SeverityInfo []
     (''scripts loaded: count='' @ dec_nat (length (Registry_List (ma_runtime m) g)) @
      '' scriptsDir='' @ scriptsDir @
      '' pluginDir='' @ PluginDir (os_Getenv (ma_sys m)) (ma_configDir m) g @
      '' issues='' @ dec_nat (length (Registry_Issues g))) None"

definition boot_registry :: "'d machine \<Rightarrow> string \<Rightarrow> string \<Rightarrow> reservoir \<Rightarrow> registry" where
  "boot_registry m scriptsDir pluginDir r =
     (let g0 = reg_warn m ''Plugin dir unavailable'' (mkdir_text pluginDir) (ma_mkdir m pluginDir) (New r);
          (err1, g1) = LoadBuiltin (ma_runtime m) (ma_fs m) scriptsDir g0;
          g2 = reg_warn m ''Builtin scripts load failed'' error_text err1 g1;
          (err2, g3) = LoadPlugins (ma_runtime m) (ma_fs m) pluginDir g2;
          g4 = reg_warn m ''Plugin scripts load failed'' error_text err2 g3
      in g4\<lparr>rg_rsv := main_report m (loaded_event m scriptsDir g4) (rg_rsv g4)\<rparr>)"

record 'd app =
  ap_rsv :: reservoir
  ap_scripts :: scriptService
  ap_runner :: "'d runner"
  ap_env :: "envService option"
  ap_watcher :: watcher
  ap_libDir :: string

definition boot_manager :: "'d machine \<Rightarrow> 'd \<Rightarrow> reservoir \<Rightarrow> 'd manager" where
  "boot_manager m db r =
     NewManager (ma_out m)
       (NewGRPCServer (NewCacheManager (os_windows (ma_sys m)) (ma_shm m)) (Some db)
          (main_report m (main_event SeverityInfo [] (''gRPC server started: addr='' @ ma_addr m) None) r))"

definition boot_env :: "'d machine \<Rightarrow> reservoir \<Rightarrow> envService option \<times> reservoir" where
  "boot_env m r =
     (case NewEnvService (ox_env (ma_out m)) (ma_sys m) (ma_hasUv m) (ma_probe m) r of
        (Inl e, r') \<Rightarrow> (None, main_report m (main_event SeverityWarn ''Env service unavailable''
                            (''environment pane disabled: '' @ error_text e) (Some e)) r')
      | (Inr s, r') \<Rightarrow> (Some s, r'))"

text \<open>
  From the loaded registry to the wired services: the server and manager are made with the
  reservoir so far, and once the reservoir has its app every part sees it.
\<close>

definition boot_services :: "'d machine \<Rightarrow> string \<Rightarrow> string \<Rightarrow> 'd \<Rightarrow> registry \<Rightarrow> 'd app" where
  "boot_services m scriptsDir pluginDir db g =
     (let mgr = boot_manager m db (rg_rsv g);
          (envSvc, r1) = boot_env m (sv_rsv mgr);
          r2 = SetApp r1;
          scripts = ScriptService_SetApp (NewScriptService (ma_desktop m) (g\<lparr>rg_rsv := r2\<rparr>) [scriptsDir, pluginDir])
      in \<lparr>ap_rsv = r2, ap_scripts = scripts,
          ap_runner = RunnerService_SetApp (NewRunnerService (SetDialogHandler (mgr\<lparr>sv_rsv := r2\<rparr>))),
          ap_env = map_option (\<lambda>s. EnvService_SetApp (s\<lparr>en_rsv := r2\<rparr>)) envSvc,
          ap_watcher = NewWatcher scripts scriptsDir pluginDir,
          ap_libDir = Join scriptsDir ''_lib''\<rparr>)"

definition boot_main :: "'d machine \<Rightarrow> 'd app boot go" where
  "boot_main m =
     go_bind (NewRingBuffer 1000) (\<lambda>ring. Ret
       (case NewLogger (ma_mkdir m) (DefaultLogDir (ma_configDir m)) ring of
          Inl e \<Rightarrow> Fatal (''failed to initialize logger: '' @ error_text e)
        | Inr logger \<Rightarrow>
            (case boot_database m newReservoir of
               Fatal msg \<Rightarrow> Fatal msg
             | Up (db, r) \<Rightarrow>
                 (let scriptsDir = findScriptsDir (ma_isDir m) (ma_sys m);
                      pluginDir = DefaultPluginDir (os_Getenv (ma_sys m)) (ma_configDir m);
                      g = boot_registry m scriptsDir pluginDir r
                  in case ma_listen m of
                       Some e \<Rightarrow> Fatal (''failed to start gRPC server: '' @ error_text e)
                     | None \<Rightarrow> Up (boot_services m scriptsDir pluginDir db g)))))"

subsection \<open>While the program runs\<close>

text \<open>
  What reaches \<open>main\<close>'s own callbacks and goroutines. \<open>args\<close> is the second instance's arguments
  as \<open>%v\<close> prints them.
\<close>

datatype signal =
    SecondInstance string string
  | WailsError goerror
  | WailsWarning string
  | WailsPanic goerror string
  | ServeErr "goerror option"
  | WatcherExit "goerror option"

fun signal_event :: "signal \<Rightarrow> Event option" where
  "signal_event (SecondInstance args cwd) = Some (main_event SeverityInfo []
     (''second instance launched, focusing existing window: args='' @ args @ '' cwd='' @ cwd) None)"
| "signal_event (WailsError err) = Some (main_event SeverityError ''Wails internal error'' (error_text err) (Some err))"
| "signal_event (WailsWarning msg) = Some (main_event SeverityWarn ''Wails internal warning'' msg None)"
| "signal_event (WailsPanic err trace) =
     Some ((main_event SeverityCritical ''Wails panic'' (error_text err) (Some err))
       \<lparr>ev_Persistence := PersistenceCatastrophic, ev_Traceback := trace\<rparr>)"
| "signal_event (ServeErr res) = map_option (\<lambda>err.
     (main_event SeverityError ''gRPC server died'' (''script execution will not work: '' @ error_text err) (Some err))
       \<lparr>ev_Persistence := PersistenceOngoing, ev_Key := ''grpc:server:dead''\<rparr>) res"
| "signal_event (WatcherExit res) = map_option (\<lambda>err.
     main_event SeverityError ''Script watcher exited'' (error_text err) (Some err)) res"

text \<open>Whether the program exits, and the reservoir.\<close>

definition on_signal :: "'d machine \<Rightarrow> signal \<Rightarrow> reservoir \<Rightarrow> bool \<times> reservoir" where
  "on_signal m sig r =
     ((case sig of WailsPanic err trace \<Rightarrow> True | _ \<Rightarrow> False),
      (case signal_event sig of None \<Rightarrow> r | Some ev \<Rightarrow> main_report m ev r))"

subsection \<open>The dialog handler\<close>

text \<open>A native dialog as it is set up; a setter that is not called leaves \<open>None\<close>.\<close>

record native_dialog =
  nd_save :: bool
  nd_chooseFiles :: bool
  nd_title :: "string option"
  nd_message :: "string option"
  nd_directory :: "string option"
  nd_filename :: "string option"
  nd_filters :: "(string \<times> string) list"

definition set_if :: "string \<Rightarrow> string option" where
  "set_if t = (if t \<noteq> [] then Some t else None)"

definition dialog_filters :: "FileFilterDef list \<Rightarrow> (string \<times> string) list" where
  "dialog_filters filters = map (\<lambda>f. (ff_DisplayName f, ff_Pattern f)) filters"

text \<open>\<open>prompt\<close> is what \<open>PromptForSingleSelection\<close> answers.\<close>

definition normalize_choice :: "string \<times> goerror option \<Rightarrow> string \<times> goerror option" where
  "normalize_choice res = (case res of (path, err) \<Rightarrow> if path = [] then ([], Some ErrDialogCancelled) else (path, err))"

fun wails_dialog :: "(native_dialog \<Rightarrow> string \<times> goerror option) \<Rightarrow> DialogCall \<Rightarrow> string \<times> goerror option" where
  "wails_dialog prompt (OpenFile title directory filters) =
     normalize_choice (prompt \<lparr>nd_save = False, nd_chooseFiles = True, nd_title = set_if title, nd_message = None,
       nd_directory = set_if directory, nd_filename = None, nd_filters = dialog_filters filters\<rparr>)"
| "wails_dialog prompt (SaveFile title directory filename filters) =
     normalize_choice (prompt \<lparr>nd_save = True, nd_chooseFiles = False, nd_title = None, nd_message = set_if title,
       nd_directory = set_if directory, nd_filename = set_if filename, nd_filters = dialog_filters filters\<rparr>)"

subsection \<open>A reservoir without its app\<close>

text \<open>Before \<open>SetApp\<close> nothing is emitted; the issue banners only move with the registry.\<close>

definition mute :: "reservoir \<Rightarrow> bool" where
  "mute r \<longleftrightarrow> \<not> rv_app r \<and> rv_emits r = []"

definition issues_shown :: "reservoir \<Rightarrow> Event list" where
  "issues_shown r = map banner_content (issue_banners r)"

lemma mute_report: "mute r \<Longrightarrow> mute (Report en ev r)"
  by (auto simp: mute_def Report_fields split: option.splits)

lemma mute_reports: "mute r \<Longrightarrow> mute (fold (Report en) evs r)"
  by (induction evs arbitrary: r) (simp_all add: mute_report)

lemma mute_replace: "mute r \<Longrightarrow> mute (ReplaceBannersByPrefix en p evs r)"
  by (simp add: mute_def ReplaceBannersByPrefix_fields)

lemma issues_shown_report: "ev_Persistence ev \<noteq> PersistenceOngoing \<Longrightarrow> issues_shown (Report en ev r) = issues_shown r"
  by (simp add: issues_shown_def Report_fields)

lemma main_event_oneshot [simp]: "ev_Persistence (main_event sev title msg err) = PersistenceOneShot"
  by (simp add: main_event_def)

lemma warn_if_quiet [simp]:
  "issues_shown (warn_if m title msg err r) = issues_shown r"
  "mute r \<Longrightarrow> mute (warn_if m title msg err r)"
  by (simp_all add: warn_if_def main_report_def issues_shown_report mute_report split: option.splits)

lemma main_report_quiet [simp]:
  "ev_Persistence ev = PersistenceOneShot \<Longrightarrow> issues_shown (main_report m ev r) = issues_shown r"
  "mute r \<Longrightarrow> mute (main_report m ev r)"
  by (simp_all add: main_report_def issues_shown_report mute_report)

lemma registry_inv_rsv:
  "registry_inv rt g \<Longrightarrow> issues_shown r = issues_shown (rg_rsv g) \<Longrightarrow> registry_inv rt (g\<lparr>rg_rsv := r\<rparr>)"
  by (simp add: registry_inv_def issues_shown_def)

lemma load_mute:
  assumes "mute (rg_rsv g)"
  shows "mute (rg_rsv (snd (LoadBuiltin rt f dir g)))" "mute (rg_rsv (snd (LoadPlugins rt f dir g)))"
  using assms
  by (auto simp: LoadBuiltin_def LoadPlugins_def Let_def publish_def mute_replace mute_reports
      reportOverrides_fields split: sum.splits)

lemma boot_registry_ok:
  assumes "mute r" "issues_shown r = []"
  shows "registry_inv (ma_runtime m) (boot_registry m sd pd r) \<and> mute (rg_rsv (boot_registry m sd pd r))"
proof -
  have step: "registry_inv rt (reg_warn m t msg err g) \<and> mute (rg_rsv (reg_warn m t msg err g))"
    if "registry_inv rt g \<and> mute (rg_rsv g)" for rt t msg err g
    using that by (simp add: reg_warn_def registry_inv_rsv)
  have "registry_inv (ma_runtime m) (New r) \<and> mute (rg_rsv (New r))"
    using assms by (simp add: registry_inv_def New_def scripts_ok_empty issues_shown_def)
  note g0 = step [OF this]
  obtain err1 g1 where b: "LoadBuiltin (ma_runtime m) (ma_fs m) sd (reg_warn m ''Plugin dir unavailable''
      (mkdir_text pd) (ma_mkdir m pd) (New r)) = (err1, g1)" by fastforce
  have "registry_inv (ma_runtime m) g1 \<and> mute (rg_rsv g1)"
    using LoadBuiltin_inv load_mute(1) g0 b by (metis snd_conv)
  note g2 = step [OF this]
  obtain err2 g3 where p: "LoadPlugins (ma_runtime m) (ma_fs m) pd
      (reg_warn m ''Builtin scripts load failed'' error_text err1 g1) = (err2, g3)" by fastforce
  have "registry_inv (ma_runtime m) g3 \<and> mute (rg_rsv g3)"
    using LoadPlugins_inv load_mute(2) g2 p by (metis snd_conv)
  from step [OF this] show ?thesis
    by (simp add: boot_registry_def b p Let_def registry_inv_rsv loaded_event_def)
qed

lemma load_rows_quiet:
  "issues_shown (sv_rsv (load_rows out rows m)) = issues_shown (sv_rsv m) \<and>
   (mute (sv_rsv m) \<longrightarrow> mute (sv_rsv (load_rows out rows m)))"
proof (induction rows arbitrary: m)
  case (Cons row rows)
  show ?case
    using Cons.IH
    by (cases "sd_scanTimes (ox_sql out) row")
      (auto simp: report_def backend_event_def Event0_def issues_shown_report mute_report)
qed simp

lemma NewManager_quiet:
  "issues_shown (sv_rsv (NewManager out sv)) = issues_shown (sv_rsv sv) \<and>
   (mute (sv_rsv sv) \<longrightarrow> mute (sv_rsv (NewManager out sv)))"
  using load_rows_quiet [of out]
  by (auto simp: NewManager_def loadHistory_def Let_def server.defs report_def backend_event_def
      issues_shown_report mute_report split: option.splits sum.splits prod.splits)

lemma NewEnvService_quiet:
  assumes "NewEnvService en sys uv probe r = (res, r')"
  shows "issues_shown r' = issues_shown r \<and> (mute r \<longrightarrow> mute r')"
  using assms
  by (auto simp: NewEnvService_def Let_def init_event_def issues_shown_report mute_report split: sum.splits)

lemma boot_env_quiet:
  assumes "boot_env m r = (res, r')" "mute r"
  shows "issues_shown r' = issues_shown r \<and> mute r'"
proof -
  obtain q r1 where e: "NewEnvService (ox_env (ma_out m)) (ma_sys m) (ma_hasUv m) (ma_probe m) r = (q, r1)" by fastforce
  from NewEnvService_quiet [OF this] assms show ?thesis
    by (cases q) (auto simp: boot_env_def e)
qed

lemma boot_manager_quiet:
  "issues_shown (sv_rsv (boot_manager m db r)) = issues_shown r \<and> (mute r \<longrightarrow> mute (sv_rsv (boot_manager m db r)))"
  unfolding boot_manager_def
  using NewManager_quiet [of "ma_out m" "NewGRPCServer c d (main_report m (main_event sev t msg err) r)" for c d sev t msg err]
  by (simp add: NewGRPCServer_def)

lemma SetApp_quiet: "issues_shown (SetApp r) = issues_shown r" "rv_app (SetApp r)" "rv_emits (SetApp r) = rv_emits r"
  by (simp_all add: SetApp_def issues_shown_def)

lemma boot_services_ok:
  assumes "registry_inv (ma_runtime m) g" "mute (rg_rsv g)" and a_def: "a = boot_services m sd pd db g"
  shows "registry_inv (ma_runtime m) (ss_registry (ap_scripts a)) \<and> rv_app (ap_rsv a) \<and> rv_emits (ap_rsv a) = [] \<and>
    rg_rsv (ss_registry (ap_scripts a)) = ap_rsv a \<and> sv_rsv (rn_mgr (ap_runner a)) = ap_rsv a \<and>
    ap_watcher a = NewWatcher (ap_scripts a) sd pd \<and>
    (\<forall>s. ap_env a = Some s \<longrightarrow> en_rsv s = ap_rsv a)"
proof -
  define mgr where "mgr = boot_manager m db (rg_rsv g)"
  have mgr: "issues_shown (sv_rsv mgr) = issues_shown (rg_rsv g)" "mute (sv_rsv mgr)"
    using boot_manager_quiet [of m db "rg_rsv g"] assms(2) by (simp_all add: mgr_def)
  obtain res r1 where e: "boot_env m (sv_rsv mgr) = (res, r1)" by fastforce
  from boot_env_quiet [OF e mgr(2)] mgr(1)
  have r1: "issues_shown (SetApp r1) = issues_shown (rg_rsv g)" "rv_app (SetApp r1)" "rv_emits (SetApp r1) = []"
    by (simp_all add: SetApp_quiet mute_def)
  have a: "ap_rsv a = SetApp r1" "ss_registry (ap_scripts a) = g\<lparr>rg_rsv := SetApp r1\<rparr>"
    "sv_rsv (rn_mgr (ap_runner a)) = SetApp r1" "ap_watcher a = NewWatcher (ap_scripts a) sd pd"
    "\<forall>s. ap_env a = Some s \<longrightarrow> en_rsv s = SetApp r1"
    by (auto simp: a_def boot_services_def Let_def mgr_def [symmetric] e ScriptService_SetApp_def NewScriptService_def
        RunnerService_SetApp_def NewRunnerService_def SetDialogHandler_def EnvService_SetApp_def)
  show ?thesis using registry_inv_rsv [OF assms(1) r1(1)] r1(2,3) a by simp
qed

lemma boot_database_rsv:
  "boot_database m r = Up (db, r') \<Longrightarrow>
     \<exists>msg. r' = main_report m (main_event SeverityInfo [] msg None) r"
  by (auto simp: boot_database_def split: sum.splits prod.splits option.splits)

text \<open>The ring buffer's capacity is positive, and of the logger only its failure matters here.\<close>

lemma boot_main_eq:
  "boot_main m = Ret
     (case ma_mkdir m (DefaultLogDir (ma_configDir m)) of
        Some e \<Rightarrow> Fatal (''failed to initialize logger: '' @ error_text e)
      | None \<Rightarrow>
          (case boot_database m newReservoir of
             Fatal msg \<Rightarrow> Fatal msg
           | Up (db, r) \<Rightarrow>
               (let scriptsDir = findScriptsDir (ma_isDir m) (ma_sys m);
                    pluginDir = DefaultPluginDir (os_Getenv (ma_sys m)) (ma_configDir m);
                    g = boot_registry m scriptsDir pluginDir r
                in case ma_listen m of
                     Some e \<Rightarrow> Fatal (''failed to start gRPC server: '' @ error_text e)
                   | None \<Rightarrow> Up (boot_services m scriptsDir pluginDir db g))))"
proof -
  obtain ring where "NewRingBuffer 1000 = Ret ring" by (simp add: NewRingBuffer_def)
  then show ?thesis
    by (cases "ma_mkdir m (DefaultLogDir (ma_configDir m))") (simp_all add: boot_main_def NewLogger_def)
qed

lemma boot_main_ok:
  assumes "boot_main m = Ret (Up a)"
  obtains sd pd db g where "a = boot_services m sd pd db g" "registry_inv (ma_runtime m) g" "mute (rg_rsv g)"
    "sd = findScriptsDir (ma_isDir m) (ma_sys m)" "pd = DefaultPluginDir (os_Getenv (ma_sys m)) (ma_configDir m)"
proof -
  from assms have l: "ma_mkdir m (DefaultLogDir (ma_configDir m)) = None"
    by (cases "ma_mkdir m (DefaultLogDir (ma_configDir m))") (simp_all add: boot_main_eq)
  with assms obtain db r where db: "boot_database m newReservoir = Up (db, r)"
    by (cases "boot_database m newReservoir") (auto simp: boot_main_eq)
  have "ma_listen m = None" using assms by (cases "ma_listen m") (simp_all add: boot_main_eq l db Let_def)
  with assms l db have a: "a = boot_services m (findScriptsDir (ma_isDir m) (ma_sys m))
      (DefaultPluginDir (os_Getenv (ma_sys m)) (ma_configDir m)) db
      (boot_registry m (findScriptsDir (ma_isDir m) (ma_sys m))
        (DefaultPluginDir (os_Getenv (ma_sys m)) (ma_configDir m)) r)"
    by (simp add: boot_main_eq Let_def)
  from boot_database_rsv [OF db] have r: "mute r" "issues_shown r = []"
    by (auto simp: mute_def issues_shown_def newReservoir_def main_report_def Report_fields route_def split: option.splits)
  from that [OF a] boot_registry_ok [OF r] show thesis by blast
qed

subsection \<open>The catalog while the watcher runs\<close>

text \<open>The parts of the watcher that matter to the catalog: what it reports is never a banner.\<close>

definition coherent :: "runtime \<Rightarrow> watcher \<Rightarrow> bool" where
  "coherent rt w \<longleftrightarrow> registry_inv rt (ss_registry (wt_svc w))"

lemma coherent_report:
  "coherent rt w \<Longrightarrow> ev_Persistence ev = PersistenceOneShot \<Longrightarrow> coherent rt (wt_report e ev w)"
  by (simp add: coherent_def wt_report_def ss_report_def registry_inv_rsv issues_shown_report)

lemma watch_event_oneshot [simp]: "ev_Persistence (watch_event sev title msg err) = PersistenceOneShot"
  by (simp add: watch_event_def)

lemma coherent_update [simp]:
  "coherent rt (w\<lparr>wt_pending := due\<rparr>) = coherent rt w" "coherent rt (w\<lparr>wt_watched := ps\<rparr>) = coherent rt w"
  by (simp_all add: coherent_def)

lemma coherent_add: "coherent rt w \<Longrightarrow> coherent rt (fold (add_watch e) ps w)"
proof (induction ps arbitrary: w)
  case (Cons p ps)
  have "coherent rt (add_watch e p w)"
    using Cons.prems by (cases "we_Add e p") (simp_all add: add_watch_def coherent_report)
  with Cons.IH show ?case by simp
qed simp

lemma coherent_watch_dir: "coherent rt w \<Longrightarrow> coherent rt (watch_dir e d title what w)"
  by (simp add: watch_dir_def addRecursive_def coherent_add coherent_report split: option.splits)

lemma coherent_prologue: "coherent rt w \<Longrightarrow> coherent rt (run_prologue e w)"
  by (simp add: run_prologue_def Let_def coherent_watch_dir coherent_report split: option.splits)

lemma coherent_turn: "coherent rt w \<Longrightarrow> coherent rt (snd (watch_turn e t inp w))"
  by (cases inp) (auto simp: stop_timer_def schedule_def coherent_report split: option.splits)

lemma coherent_NotifyChanged:
  "registry_inv rt (ss_registry s) \<Longrightarrow> registry_inv rt (ss_registry (NotifyChanged d s))"
  by (simp add: NotifyChanged_def ss_report_def registry_inv_rsv issues_shown_report)

lemma coherent_fire:
  assumes "coherent (we_runtime e) w"
  shows "coherent (we_runtime e) (fire e t w)"
proof -
  obtain changed err g where r: "Reload (we_runtime e) (we_fs e t) (wt_builtinDir w) (wt_pluginDir w)
      (ss_registry (wt_svc w)) = ((changed, err), g)" by (metis prod.exhaust)
  have g: "registry_inv (we_runtime e) g"
    using Reload_inv [of "we_runtime e" "ss_registry (wt_svc w)"] assms r by (metis coherent_def snd_conv)
  define w1 where "w1 = w\<lparr>wt_pending := None, wt_fires := wt_fires w @ [t], wt_svc := (wt_svc w)\<lparr>ss_registry := g\<rparr>\<rparr>"
  have w1: "coherent (we_runtime e) w1" using g by (simp add: coherent_def w1_def)
  show ?thesis
  proof (cases err)
    case None
    have "registry_inv (we_runtime e) (ss_registry (wt_svc (wt_report e (watch_event sev title msg res) w1)))"
      for sev title msg res using coherent_report [OF w1] by (simp add: coherent_def)
    with None w1 show ?thesis
      by (simp add: fire_def r w1_def [symmetric] Let_def coherent_def coherent_NotifyChanged del: wt_report_svc)
  next
    case (Some x)
    with w1 show ?thesis by (simp add: fire_def r w1_def [symmetric] coherent_report)
  qed
qed

lemma coherent_loop:
  "coherent (we_runtime e) w \<Longrightarrow> coherent (we_runtime e) (watch_loop e inputs w)"
proof (induction inputs arbitrary: w)
  case (Cons x inputs)
  obtain t inp where x: "x = (t, inp)" by (cases x)
  have "coherent (we_runtime e) (tick e t w)"
    using Cons.prems by (simp add: tick_def coherent_fire split: option.splits)
  from coherent_turn [OF this] have "coherent (we_runtime e) (snd (watch_turn e t inp (tick e t w)))" .
  with Cons.IH show ?case by (auto simp: x split: prod.splits bool.splits)
qed simp

lemma coherent_run: "coherent (we_runtime e) w \<Longrightarrow> coherent (we_runtime e) (snd (Run e inputs w))"
  by (simp add: Run_def settle_def coherent_fire coherent_loop coherent_prologue split: option.splits)

subsection \<open>Properties\<close>

text \<open>Once started, every part reports into one reservoir, the one whose app is wired; the catalog
  is well formed and the issue banners are the load issues, whatever failed on the way. Nothing
  was emitted to the frontend before: a warning of the start-up is in the log only.\<close>

theorem startup_shares_one_reservoir:
  assumes "boot_main m = Ret (Up a)"
  shows "rg_rsv (ss_registry (ap_scripts a)) = ap_rsv a \<and> sv_rsv (rn_mgr (ap_runner a)) = ap_rsv a \<and>
    (\<forall>s. ap_env a = Some s \<longrightarrow> en_rsv s = ap_rsv a) \<and> wt_svc (ap_watcher a) = ap_scripts a \<and>
    scripts_ok {''builtin'', ''plugin''} (rg_scripts (ss_registry (ap_scripts a))) \<and>
    map banner_content (issue_banners (ap_rsv a)) =
      map (\<lambda>i. banner_content (issue_event i)) (Registry_Issues (ss_registry (ap_scripts a))) \<and>
    rv_app (ap_rsv a) \<and> rv_emits (ap_rsv a) = []"
proof -
  obtain sd pd db g where
    a: "a = boot_services m sd pd db g" "registry_inv (ma_runtime m) g" "mute (rg_rsv g)"
    by (rule boot_main_ok [OF assms])
  note up = boot_services_ok [OF a(2,3,1)]
  then have "registry_inv (ma_runtime m) (ss_registry (ap_scripts a))" by (rule conjunct1)
  then have "scripts_ok {''builtin'', ''plugin''} (rg_scripts (ss_registry (ap_scripts a)))"
    and "map banner_content (issue_banners (rg_rsv (ss_registry (ap_scripts a)))) =
      map (\<lambda>i. banner_content (issue_event i)) (Registry_Issues (ss_registry (ap_scripts a)))"
    unfolding registry_inv_def Registry_Issues_def by blast+
  moreover from up [THEN conjunct2] have "rg_rsv (ss_registry (ap_scripts a)) = ap_rsv a"
    "sv_rsv (rn_mgr (ap_runner a)) = ap_rsv a" "\<forall>s. ap_env a = Some s \<longrightarrow> en_rsv s = ap_rsv a"
    "rv_app (ap_rsv a)" "rv_emits (ap_rsv a) = []" "ap_watcher a = NewWatcher (ap_scripts a) sd pd"
    by blast+
  moreover from this(6) have "wt_svc (ap_watcher a) = ap_scripts a" by (simp only: NewWatcher_def watcher.simps)
  ultimately show ?thesis by (simp only: simp_thms)
qed

text \<open>C40: the program comes up exactly when its log directory can be made, a database path is found, the
  database can be opened and migrated, and the gRPC server can listen. A missing plugin
  directory, scripts that do not load, a history that cannot be read and a machine without
  Python do not stop it.\<close>

theorem startup_succeeds_iff:
  "(\<exists>a. boot_main m = Ret (Up a)) \<longleftrightarrow>
     ma_mkdir m (DefaultLogDir (ma_configDir m)) = None \<and> ma_listen m = None \<and>
     (\<exists>dsn db db'. boot_dsn m = Inr dsn \<and>
        Open (ox_sql (ma_out m)) (ox_quote (ma_out m)) dsn = (Inr (), Some db) \<and>
        Migrate (ox_sql (ma_out m)) db = (None, db'))"
proof -
  have db: "(\<exists>db' r. boot_database m newReservoir = Up (db', r)) \<longleftrightarrow>
     (\<exists>dsn db db'. boot_dsn m = Inr dsn \<and>
        Open (ox_sql (ma_out m)) (ox_quote (ma_out m)) dsn = (Inr (), Some db) \<and>
        Migrate (ox_sql (ma_out m)) db = (None, db'))"
    by (auto simp: boot_database_def split: sum.splits option.splits prod.splits)
  show ?thesis
    unfolding db [symmetric]
    by (cases "boot_database m newReservoir") (auto simp: boot_main_eq Let_def split: option.splits)
qed

definition leaves_key :: "string \<Rightarrow> banner_op \<Rightarrow> bool" where
  "leaves_key k bop = (case bop of BReport ev \<Rightarrow> ev_Key ev \<noteq> k | BDismiss k' \<Rightarrow> k' \<noteq> k)"

text \<open>When the gRPC server dies the user is shown a banner, with the server's error, and it stays through
  everything reported and dismissed afterwards until its own key is reported or dismissed.\<close>

theorem dead_server_banner_stays:
  assumes "banners_wf r" "\<forall>bop \<in> set bops. leaves_key ''grpc:server:dead'' bop"
  shows "banner_shown ''grpc:server:dead'' (fold (board_op (Report en) DismissBanner) bops
      (snd (on_signal m (ServeErr (Some err)) r))) =
    map_option banner_content (signal_event (ServeErr (Some err)))"
proof -
  let ?r = "snd (on_signal m (ServeErr (Some err)) r)"
  define ev where "ev = the (signal_event (ServeErr (Some err)))"
  have ev: "signal_event (ServeErr (Some err)) = Some ev" "ev_Persistence ev = PersistenceOngoing"
    "ev_Key ev = ''grpc:server:dead''" by (simp_all add: ev_def)
  have r: "?r = Report (ox_env (ma_out m)) ev r" by (simp add: on_signal_def ev(1) main_report_def del: signal_event.simps)
  have wf: "banners_wf ?r" and shown: "banner_shown ''grpc:server:dead'' ?r = Some (banner_content ev)"
    unfolding r using assms(1) by (simp_all add: board.wf_report board.raise ev)
  have "shown_after ''grpc:server:dead'' bops s = s" for s
    using assms(2) by (induction bops arbitrary: s) (auto simp: leaves_key_def split: banner_op.splits)
  then show ?thesis
    using board.shown_ops [OF wf, of "''grpc:server:dead''" en bops] by (simp add: shown ev(1) del: signal_event.simps)
qed

text \<open>What a script's file dialog comes back with, through the native dialog: the dialog is set up as a
  save dialog exactly for that kind; a path is the selection; no path is a cancellation, even when
  the dialog failed, and then nothing is reported; only an error beside a path reaches the script.\<close>

theorem script_dialog_outcome:
  assumes "sv_dialog sv" "ox_dialog out = (\<lambda>n. wails_dialog (prompt n))"
  shows "\<exists>d sv'. nd_save d = (kind = DIALOG_KIND_SAVE) \<and>
    handleFileDialog out runID a kind title filters directory filename sv =
      streamSend out a (ServerMessage_FileDialogResponse
        (case prompt (length (sv_asks sv)) d of (path, err) \<Rightarrow>
           if path = [] then Outcome_Cancelled
           else (case err of
                   None \<Rightarrow> Outcome_Selected [path]
                 | Some e \<Rightarrow> if error_is e ErrDialogCancelled then Outcome_Cancelled else Outcome_Error (error_text e)))) sv' \<and>
    (fst (prompt (length (sv_asks sv)) d) = [] \<longrightarrow> sv_rsv sv' = sv_rsv sv)"
proof -
  define call where "call = (if kind = DIALOG_KIND_SAVE then SaveFile title directory filename filters
    else OpenFile title directory filters)"
  obtain d where d: "nd_save d = (kind = DIALOG_KIND_SAVE)"
      "wails_dialog (prompt n) call = normalize_choice (prompt n d)" for n
  proof (cases "kind = DIALOG_KIND_SAVE")
    case True
    then show thesis by (intro that) (simp_all add: call_def)
  next
    case False
    then show thesis by (intro that) (simp_all add: call_def)
  qed
  obtain path err where p: "prompt (length (sv_asks sv)) d = (path, err)" by fastforce
  show ?thesis
    using assms
    by (intro exI [of _ d]; cases "path = []"; cases err)
      (auto simp: handleFileDialog_def ask_dialog_def call_def [symmetric] d p normalize_choice_def Let_def)
qed


subsection \<open>Examples\<close>

definition test_machine :: "unit machine" where
  "test_machine = \<lparr>ma_out = test_out, ma_runtime = test_runtime, ma_fs = two_dirs ''a'',
     ma_sys = test_os, ma_desktop = test_desktop, ma_configDir = Inr ''/c'',
     ma_mkdir = (\<lambda>p. None), ma_isDir = (\<lambda>p. False), ma_listen = None, ma_addr = ''localhost:1'',
     ma_hasUv = False, ma_probe = Inr ''Python 3.12'', ma_shm = {}\<rparr>"

lemma test_boot: "\<exists>a. boot_main test_machine = Ret (Up a)"
proof -
  have "\<exists>db r. boot_database test_machine newReservoir = Up (db, r)"
    by (simp add: boot_database_def boot_dsn_def test_machine_def test_os_def test_out_def test_sql_def
        DefaultDSN_def Open_def Migrate_def migrations_def pragmas_def)
  then show ?thesis by (auto simp: boot_main_eq) (simp_all add: test_machine_def Let_def)
qed

lemma startup_shares_one_reservoir_witness:
  "\<exists>a. boot_main test_machine = Ret (Up a) \<and> rv_app (ap_rsv a) \<and> rv_emits (ap_rsv a) = [] \<and>
     rg_rsv (ss_registry (ap_scripts a)) = ap_rsv a"
  using test_boot startup_shares_one_reservoir [of test_machine] by blast

definition test_native :: "nat \<Rightarrow> native_dialog \<Rightarrow> string \<times> goerror option" where
  "test_native n d = (if nd_save d then ([], Some (Errorf ''no display'' None)) else (''/tmp/a'', None))"

lemma script_dialog_outcome_witness:
  "\<exists>sv'. handleFileDialog (test_out\<lparr>ox_dialog := \<lambda>n. wails_dialog (test_native n)\<rparr>) ''r1'' 0 2 ''t'' [] [] ''f''
      (SetDialogHandler fresh_server) =
    streamSend (test_out\<lparr>ox_dialog := \<lambda>n. wails_dialog (test_native n)\<rparr>) 0
      (ServerMessage_FileDialogResponse Outcome_Cancelled) sv' \<and> sv_rsv sv' = sv_rsv fresh_server"
proof -
  have "sv_dialog (SetDialogHandler fresh_server)" "sv_rsv (SetDialogHandler fresh_server) = sv_rsv fresh_server"
    by (simp_all add: SetDialogHandler_def)
  then show ?thesis
    using script_dialog_outcome [of "SetDialogHandler fresh_server" "test_out\<lparr>ox_dialog := \<lambda>n. wails_dialog (test_native n)\<rparr>"
        test_native 2 "''r1''" 0 "''t''" "[]" "[]" "''f''"]
    by (auto simp: test_native_def)
qed

lemma dead_server_banner_stays_witness:
  "map_option ev_Key (banner_shown ''grpc:server:dead'' (fold (board_op (Report test_env) DismissBanner)
      [BReport crash_event, BDismiss ''other'']
      (snd (on_signal test_machine (ServeErr (Some (Errorf ''eof'' None))) newReservoir)))) = Some ''grpc:server:dead''"
proof -
  have "banners_wf newReservoir" by (simp add: banners_wf_def newReservoir_def)
  moreover have "\<forall>bop \<in> set [BReport crash_event, BDismiss ''other'']. leaves_key ''grpc:server:dead'' bop"
    by (simp add: leaves_key_def crash_event_def Event0_def)
  ultimately show ?thesis
    by (subst dead_server_banner_stays) (simp_all add: banner_content_def)
qed


end
