(* ===== verification/AppRun.thy ===== *)
theory AppRun
  imports App ProcessRun Reloads
begin

section \<open>AppRun: the program while it runs, and its end\<close>

text \<open>
  The second half of \<^verbatim>\<open>main.go\<close>, after \<open>App\<close>'s start-up: the services and options handed to the Wails
  application, its window, the callbacks with what they do to the window and the process, the watcher's goroutine,
  and what happens when \<open>app.Run\<close> returns. Of the options the logger and the embedded assets, values
  handed on, are left out, and the callbacks are the \<open>signal\<close>s. Wails itself is known by what it calls and by what \<open>app.Run\<close>
  answers.
\<close>

subsection \<open>The application\<close>

datatype wails_service = ScriptSvc | RunnerSvc | LogSvc | EnvSvc

definition wails_services :: "'d app \<Rightarrow> wails_service list" where
  "wails_services a = [ScriptSvc, RunnerSvc, LogSvc] @ (if ap_env a \<noteq> None then [EnvSvc] else [])"

record app_options =
  ao_Name :: string
  ao_Description :: string
  ao_Services :: "wails_service list"
  ao_UniqueID :: string

definition main_options :: "'d app \<Rightarrow> app_options" where
  "main_options a = \<lparr>ao_Name = ''Go Python Runner'',
     ao_Description = ''Orchestrates bundled Python scripts through a Go backend'',
     ao_Services = wails_services a, ao_UniqueID = ''com.go-python-runner.app''\<rparr>"

record window_options =
  wo_Title :: string
  wo_Width :: nat
  wo_Height :: nat
  wo_BackgroundColour :: "nat \<times> nat \<times> nat"
  wo_URL :: string

definition main_window :: "string \<Rightarrow> window_options" where
  "main_window version = \<lparr>wo_Title = ''Go Python Runner v'' @ version, wo_Width = 1200, wo_Height = 800,
     wo_BackgroundColour = (27, 38, 54), wo_URL = ''/''\<rparr>"

text \<open>
  \<open>ru_window\<close> is \<open>mainWindow\<close>, nil until the window is made; \<open>ru_actions\<close> what was asked of it,
  \<open>ru_exit\<close> the code of an \<open>os.Exit\<close>.
\<close>

datatype window_action = Restore | Focus

record 'd running = "'d app" +
  ru_options :: app_options
  ru_window :: "window_options option"
  ru_actions :: "window_action list"
  ru_exit :: "nat option"

definition new_application :: "'d app \<Rightarrow> 'd running" where
  "new_application a = app.extend a \<lparr>ru_options = main_options a, ru_window = None, ru_actions = [], ru_exit = None\<rparr>"

definition open_window :: "string \<Rightarrow> 'd running \<Rightarrow> 'd running" where
  "open_window version ru = ru\<lparr>ru_window := Some (main_window version)\<rparr>"

text \<open>What a callback does beside reporting: the window of a first instance comes to the front.\<close>

fun window_asks :: "signal \<Rightarrow> window_options option \<Rightarrow> window_action list" where
  "window_asks (SecondInstance args cwd) (Some win) = [Restore, Focus]"
| "window_asks sig win = []"

definition callback :: "'d machine \<Rightarrow> signal \<Rightarrow> 'd running \<Rightarrow> 'd running" where
  "callback m sig ru =
     (case on_signal m sig (ap_rsv ru) of (exits, r) \<Rightarrow>
        ru\<lparr>ap_rsv := r, ru_actions := ru_actions ru @ window_asks sig (ru_window ru),
           ru_exit := (if exits then Some 1 else ru_exit ru)\<rparr>)"

definition watch_goroutine :: "'d machine \<Rightarrow> watch_env \<Rightarrow> (time \<times> watch_input) list \<Rightarrow> 'd running \<Rightarrow> 'd running" where
  "watch_goroutine m e inputs ru =
     (case Run e inputs (ap_watcher ru) of (res, w) \<Rightarrow> callback m (WatcherExit res) (ru\<lparr>ap_watcher := w\<rparr>))"

subsection \<open>The end\<close>

text \<open>The deferred calls, in the order in which \<open>main\<close> defers them; they run last in, first out.\<close>

datatype deferred = CloseStore | StopServer | CancelWatcher

definition deferred_calls :: "deferred list" where
  "deferred_calls = [CloseStore, StopServer, CancelWatcher]"

record 'd finished =
  fi_running :: "'d running"
  fi_fatal :: "string option"
  fi_calls :: "deferred list"

text \<open>
  \<open>runErr\<close> is what \<open>app.Run\<close> answers: \<open>log.Fatal\<close> ends the process on the spot, with nothing deferred run;
  otherwise the active runs are cancelled, in the order \<open>order\<close>, before the deferred calls.
\<close>

definition main_end :: "'d machine \<Rightarrow> goerror option \<Rightarrow> run_id list \<Rightarrow> 'd running \<Rightarrow> 'd finished" where
  "main_end m runErr order ru =
     (case runErr of
        Some e \<Rightarrow> \<lparr>fi_running = ru, fi_fatal = Some (error_text e), fi_calls = []\<rparr>
      | None \<Rightarrow>
          \<lparr>fi_running = ru\<lparr>ap_runner := (ap_runner ru)\<lparr>rn_mgr := CancelAll (ma_out m) order (rn_mgr (ap_runner ru))\<rparr>\<rparr>,
           fi_fatal = None, fi_calls = rev deferred_calls\<rparr>)"

subsection \<open>Properties\<close>

text \<open>When the window is closed no run is forgotten. Every active run is marked as cancelled, so that
  its exit, whenever and however it comes, records it as cancelled, and its process was killed or has its
  delayed kill armed; only then is the watcher cancelled, the server stopped and the database
  closed, in this order. When \<open>app.Run\<close> fails instead, nothing of this happens: runs go on and nothing is
  closed.\<close>

theorem shutdown_reaches_every_run:
  assumes "range_order (mg_activeRuns (rn_mgr (ap_runner ru))) order"
  shows "let f = main_end m runErr order ru; mgr = rn_mgr (ap_runner ru); mgr' = rn_mgr (ap_runner (fi_running f)) in
    if runErr = None then
      (\<forall>r s. mg_activeRuns mgr r = Some s \<longrightarrow>
         WasCancelled r mgr' \<and> (\<forall>code err. deriveFinalStatus r code err mgr' = StatusCancelled) \<and>
         (rs_cancel s \<longrightarrow> r \<in> set (mg_kills mgr') \<union> set (mg_timers mgr'))) \<and>
      dom (mg_activeRuns mgr') = dom (mg_activeRuns mgr) \<and>
      fi_calls f = [CancelWatcher, StopServer, CloseStore] \<and> fi_fatal f = None
    else mgr' = mgr \<and> fi_calls f = [] \<and> fi_fatal f \<noteq> None"
proof (cases runErr)
  case None
  let ?m = "rn_mgr (ap_runner ru)"
  let ?m' = "CancelAll (ma_out m) order ?m"
  have order: "set order = dom (mg_activeRuns ?m)" using assms by (simp add: range_order_def)
  have active: "mg_activeRuns ?m' = (\<lambda>r. map_option (rs_cancelRequested_update (\<lambda>_. True)) (mg_activeRuns ?m r))"
    by (auto simp: CancelAll_active order fun_eq_iff domIff)
  have was: "WasCancelled r ?m'" if "mg_activeRuns ?m r = Some s" for r s
    using that by (simp add: WasCancelled_def active)
  have "deriveFinalStatus r code err ?m' = StatusCancelled" if "mg_activeRuns ?m r = Some s" for r s code err
    using was [OF that] by (simp add: deriveFinalStatus_def)
  moreover have "r \<in> set (mg_kills ?m') \<union> set (mg_timers ?m')" if "mg_activeRuns ?m r = Some s" "rs_cancel s" for r s
    using CancelAll_signals [of order ?m "ma_out m"] that by (auto simp: order)
  moreover have "dom (mg_activeRuns ?m') = dom (mg_activeRuns ?m)" by (auto simp: active)
  ultimately show ?thesis using was by (simp add: main_end_def None deferred_calls_def Let_def)
next
  case (Some e)
  then show ?thesis by (simp add: main_end_def Let_def)
qed

definition test_running :: "unit app \<Rightarrow> unit running" where
  "test_running a = open_window ''1.0''
     (new_application (a\<lparr>ap_runner := (ap_runner a)\<lparr>rn_mgr := started_manager\<rparr>\<rparr>))"

lemma test_running_mgr: "rn_mgr (ap_runner (test_running a)) = started_manager"
  by (simp add: test_running_def open_window_def new_application_def app.defs)

lemma shutdown_reaches_every_run_witness:
  "\<exists>a. boot_main test_machine = Ret (Up a) \<and>
     (let f = main_end test_machine None [''r1''] (test_running a) in
       WasCancelled ''r1'' (rn_mgr (ap_runner (fi_running f))) \<and>
       fi_calls f = [CancelWatcher, StopServer, CloseStore])"
proof -
  obtain a where a: "boot_main test_machine = Ret (Up a)" using test_boot by blast
  have "range_order (mg_activeRuns (rn_mgr (ap_runner (test_running a)))) [''r1'']"
    by (simp add: test_running_mgr started_manager_fields(3) range_order_def)
  from shutdown_reaches_every_run [OF this, of test_machine None] a show ?thesis
    by (auto simp: test_running_mgr started_manager_fields(3) Let_def)
qed

end
