(* ===== verification/Frontend.thy ===== *)
theory Frontend
  imports Notify
begin

section \<open>Frontend: the notification stack behind the reservoir's events\<close>

text \<open>
  Models the frontend's end of the notification channel: \<^verbatim>\<open>useNotifications.tsx\<close> (the stack of
  notifications, its timers) and \<^verbatim>\<open>useNotifyChannel.ts\<close> (the handlers of the \<open>notify:*\<close> events).
  React runs the state updaters in the order they are queued, so an operation is a function on
  \<open>stack\<close>. \<open>crypto.randomUUID\<close> never repeats a value: the ids are a counter. \<open>createdAt\<close> is left
  out, nothing reads it. The combined system \<open>ui_step\<close> has the reservoir on one side, this stack on
  the other and the events under way between them; the theorems say what the user sees of the
  reservoir's banners.
\<close>

subsection \<open>The stack\<close>

record note_input =
  ni_severity :: string
  ni_persistence :: string
  ni_source :: "string option"
  ni_title :: "string option"
  ni_message :: string
  ni_scriptID :: "string option"
  ni_runID :: "string option"
  ni_traceback :: "string option"
  ni_key :: "string option"
  ni_autoDismissMs :: "nat option"

record notification = note_input +
  nt_id :: nat

text \<open>\<open>st_timers\<close> holds the ids with a pending timeout, \<open>st_next\<close> the next id.\<close>

record stack =
  st_notes :: "notification list"
  st_timers :: "nat set"
  st_next :: nat

definition empty_stack :: stack where
  "empty_stack = \<lparr>st_notes = [], st_timers = {}, st_next = 0\<rparr>"

text \<open>A string that JavaScript takes for true.\<close>

definition truthy :: "string option \<Rightarrow> bool" where
  "truthy x = (x \<noteq> None \<and> x \<noteq> Some [])"

definition autoDismissForPersistence :: "string \<Rightarrow> nat" where
  "autoDismissForPersistence p = (if p = ''one-shot'' then 6000 else 0)"

definition clearTimer :: "nat \<Rightarrow> stack \<Rightarrow> stack" where
  "clearTimer i st = st\<lparr>st_timers := st_timers st - {i}\<rparr>"

definition dismissNotification :: "nat \<Rightarrow> stack \<Rightarrow> stack" where
  "dismissNotification i st =
     (let st1 = clearTimer i st in st1\<lparr>st_notes := filter (\<lambda>n. nt_id n \<noteq> i) (st_notes st1)\<rparr>)"

definition timeout_fires :: "nat \<Rightarrow> stack \<Rightarrow> stack" where
  "timeout_fires i st = st\<lparr>st_timers := st_timers st - {i}, st_notes := filter (\<lambda>n. nt_id n \<noteq> i) (st_notes st)\<rparr>"

text \<open>The loop that keeps the notes a test spares and clears the timers of the others.\<close>

definition sweep :: "(notification \<Rightarrow> bool) \<Rightarrow> stack \<Rightarrow> stack" where
  "sweep p st = (fold clearTimer (map nt_id (filter p (st_notes st))) st)
     \<lparr>st_notes := filter (\<lambda>n. \<not> p n) (st_notes st)\<rparr>"

definition dismissByKey :: "string \<Rightarrow> stack \<Rightarrow> stack" where
  "dismissByKey k st = (if k = [] then st else sweep (\<lambda>n. ni_key n = Some k) st)"

definition new_note :: "note_input \<Rightarrow> nat \<Rightarrow> nat \<Rightarrow> notification" where
  "new_note input autoDismissMs i = note_input.extend (input\<lparr>ni_autoDismissMs := Some autoDismissMs\<rparr>) \<lparr>nt_id = i\<rparr>"

definition stack_note :: "note_input \<Rightarrow> notification \<Rightarrow> stack \<Rightarrow> stack" where
  "stack_note input n st =
     (case (if ni_persistence input = ''ongoing'' \<and> truthy (ni_key input)
            then find (\<lambda>x. ni_persistence x = ''ongoing'' \<and> ni_key x = ni_key input) (st_notes st) else None) of
        Some existing \<Rightarrow>
          (clearTimer (nt_id existing) st)
            \<lparr>st_notes := map (\<lambda>x. if nt_id x = nt_id existing then n else x) (st_notes st)\<rparr>
      | None \<Rightarrow> st\<lparr>st_notes := st_notes st @ [n]\<rparr>)"

definition addNotification :: "note_input \<Rightarrow> stack \<Rightarrow> stack" where
  "addNotification input st =
     (let i = st_next st;
          st1 = st\<lparr>st_next := Suc i\<rparr>;
          autoDismissMs = (case ni_autoDismissMs input of
             Some ms \<Rightarrow> ms | None \<Rightarrow> autoDismissForPersistence (ni_persistence input))
      in if ni_persistence input = ''in-flight'' then st1
         else (let st2 = stack_note input (new_note input autoDismissMs i) st1
               in if autoDismissMs > 0 then st2\<lparr>st_timers := insert i (st_timers st2)\<rparr> else st2))"

fun replacement_notes :: "note_input list \<Rightarrow> nat \<Rightarrow> notification list" where
  "replacement_notes [] i = []"
| "replacement_notes (input # inputs) i =
     new_note (input\<lparr>ni_persistence := ''ongoing''\<rparr>) 0 i # replacement_notes inputs (Suc i)"

definition replaceOngoingBanners :: "note_input list \<Rightarrow> stack \<Rightarrow> stack" where
  "replaceOngoingBanners snapshot st =
     (let replacements = replacement_notes snapshot (st_next st);
          st1 = sweep (\<lambda>n. ni_persistence n = ''ongoing'') (st\<lparr>st_next := st_next st + length snapshot\<rparr>)
      in st1\<lparr>st_notes := st_notes st1 @ replacements\<rparr>)"

subsection \<open>The channel\<close>

text \<open>A field of a payload; a field that is absent is \<open>undefined\<close>.\<close>

definition field :: "string \<Rightarrow> payload \<Rightarrow> string option" where
  "field k p = (case map_of p k of Some (JStr s) \<Rightarrow> Some s | _ \<Rightarrow> None)"

definition payloadToInput :: "payload \<Rightarrow> string \<Rightarrow> note_input" where
  "payloadToInput p persistence =
     \<lparr>ni_severity = (case field ''severity'' p of None \<Rightarrow> ''error'' | Some s \<Rightarrow> s),
      ni_persistence = persistence, ni_source = field ''source'' p, ni_title = field ''title'' p,
      ni_message = (case field ''message'' p of None \<Rightarrow> [] | Some s \<Rightarrow> s),
      ni_scriptID = field ''scriptID'' p, ni_runID = field ''runID'' p,
      ni_traceback = field ''traceback'' p, ni_key = field ''key'' p, ni_autoDismissMs = None\<rparr>"

definition banner_inputs :: "payload \<Rightarrow> note_input list" where
  "banner_inputs p =
     (case map_of p ''banners'' of
        Some (JList ps) \<Rightarrow> map (\<lambda>q. payloadToInput q ''ongoing'') ps
      | _ \<Rightarrow> [])"

definition on_event :: "emission \<Rightarrow> stack \<Rightarrow> stack" where
  "on_event e st =
     (case e of (name, p) \<Rightarrow>
        if name = EventToast then addNotification (payloadToInput p ''one-shot'') st
        else if name = EventBanner then addNotification (payloadToInput p ''ongoing'') st
        else if name = EventBannerDismiss then
          (case field ''key'' p of None \<Rightarrow> st | Some k \<Rightarrow> if k \<noteq> [] then dismissByKey k st else st)
        else if name = EventCritical then addNotification (payloadToInput p ''catastrophic'') st
        else if name = EventBannersList then replaceOngoingBanners (banner_inputs p) st
        else st)"

subsection \<open>What is shown of the banners\<close>

text \<open>
  A note less its id and timer, the banners on display, and how the frontend renders one
  of the reservoir's.
\<close>

definition face :: "notification \<Rightarrow> note_input" where
  "face n = note_input.truncate n\<lparr>ni_autoDismissMs := None\<rparr>"

abbreviation ongoing :: "notification \<Rightarrow> bool" where
  "ongoing n \<equiv> ni_persistence n = ''ongoing''"

definition ongoing_faces :: "stack \<Rightarrow> note_input list" where
  "ongoing_faces st = map face (filter ongoing (st_notes st))"

definition shown_as :: "Event \<Rightarrow> note_input" where
  "shown_as b = payloadToInput (event_payload b) ''ongoing''"

text \<open>What one event does to the banners on display.\<close>

definition view_add :: "note_input \<Rightarrow> note_input list \<Rightarrow> note_input list" where
  "view_add i v = (if truthy (ni_key i) then put_first (\<lambda>j. ni_key j = ni_key i) i v else v @ [i])"

definition on_view :: "emission \<Rightarrow> note_input list \<Rightarrow> note_input list" where
  "on_view e v =
     (case e of (name, p) \<Rightarrow>
        if name = EventBanner then view_add (payloadToInput p ''ongoing'') v
        else if name = EventBannerDismiss then
          (if truthy (field ''key'' p) then filter (\<lambda>j. ni_key j \<noteq> field ''key'' p) v else v)
        else if name = EventBannersList then banner_inputs p
        else v)"

definition stack_inv :: "stack \<Rightarrow> bool" where
  "stack_inv st \<longleftrightarrow> distinct (map nt_id (st_notes st)) \<and> (\<forall>n \<in> set (st_notes st). nt_id n < st_next st) \<and>
     (\<forall>i \<in> st_timers st. i < st_next st) \<and> (\<forall>n \<in> set (st_notes st). ongoing n \<longrightarrow> nt_id n \<notin> st_timers st)"

lemma face_simps [simp]: "ni_key (face n) = ni_key n" "ni_persistence (face n) = ni_persistence n"
  by (simp_all add: face_def note_input.defs)

lemma face_new_note [simp]: "face (new_note i ms k) = i\<lparr>ni_autoDismissMs := None\<rparr>"
  by (simp add: face_def new_note_def note_input.defs)

lemma new_note_simps [simp]: "nt_id (new_note i ms k) = k" "ni_persistence (new_note i ms k) = ni_persistence i"
    "ni_key (new_note i ms k) = ni_key i"
  by (simp_all add: new_note_def note_input.defs)

lemma payloadToInput_simps [simp]: "ni_persistence (payloadToInput p q) = q" "ni_key (payloadToInput p q) = field ''key'' p"
    "ni_autoDismissMs (payloadToInput p q) = None" "(payloadToInput p q)\<lparr>ni_autoDismissMs := None\<rparr> = payloadToInput p q"
    "(payloadToInput p q)\<lparr>ni_persistence := q\<rparr> = payloadToInput p q"
  by (simp_all add: payloadToInput_def)

lemma fold_clearTimer: "fold clearTimer is st = st\<lparr>st_timers := st_timers st - set is\<rparr>"
  by (induction "is" arbitrary: st) (simp_all add: clearTimer_def Diff_insert2 [symmetric])

lemma sweep_eq: "sweep p st = st\<lparr>st_timers := st_timers st - nt_id ` {n \<in> set (st_notes st). p n},
    st_notes := filter (\<lambda>n. \<not> p n) (st_notes st)\<rparr>"
  by (simp add: sweep_def fold_clearTimer)

lemma filter_put_first:
  "Q y \<Longrightarrow> filter Q (put_first (\<lambda>x. Q x \<and> R x) y xs) = put_first R y (filter Q xs)"
  by (induction xs) auto

lemma map_put_first: "(\<And>x. R (f x) = P x) \<Longrightarrow> map f (put_first P y xs) = put_first R (f y) (map f xs)"
  by (induction xs) auto

lemma put_first_by_id:
  "distinct (map nt_id ns) \<Longrightarrow>
     (case find P ns of Some x \<Rightarrow> map (\<lambda>n. if nt_id n = nt_id x then y else n) ns | None \<Rightarrow> ns @ [y]) = put_first P y ns"
proof (induction ns)
  case (Cons n ns)
  show ?case
  proof (cases "P n")
    case True
    have "nt_id m \<noteq> nt_id n" if "m \<in> set ns" for m using Cons.prems that by (metis distinct.simps(2) imageI list.set_map list.simps(9))
    then have "map (\<lambda>m. if nt_id m = nt_id n then y else m) ns = ns" by (simp add: map_idI)
    with True show ?thesis by simp
  next
    case False
    show ?thesis
    proof (cases "find P ns")
      case None
      with False Cons.IH Cons.prems show ?thesis by simp
    next
      case (Some x)
      then have "x \<in> set ns" by (metis find_Some_iff nth_mem)
      with Cons.prems have "nt_id n \<noteq> nt_id x" by force
      with False Some Cons.IH Cons.prems show ?thesis by simp
    qed
  qed
qed simp

lemma set_put_first_subset: "set (put_first P y xs) \<subseteq> insert y (set xs)"
  by (induction xs) auto

lemma put_first_ids:
  "distinct (map nt_id ns) \<Longrightarrow> nt_id n \<notin> nt_id ` set ns \<Longrightarrow> distinct (map nt_id (put_first P n ns))"
proof (induction ns)
  case (Cons m ns)
  have "nt_id m \<notin> nt_id ` set (put_first P n ns)"
    using Cons.prems set_put_first_subset [of P n ns] by auto
  with Cons show ?case by auto
qed simp

lemma stack_note_notes:
  "distinct (map nt_id (st_notes st)) \<Longrightarrow> st_notes (stack_note input n st) =
     (if ni_persistence input = ''ongoing'' \<and> truthy (ni_key input)
      then put_first (\<lambda>x. ongoing x \<and> ni_key x = ni_key input) n (st_notes st) else st_notes st @ [n])"
  by (auto simp: stack_note_def put_first_by_id [symmetric] clearTimer_def split: option.split)

lemma stack_note_rest: "st_next (stack_note input n st) = st_next st" "st_timers (stack_note input n st) \<subseteq> st_timers st"
  by (auto simp: stack_note_def clearTimer_def split: option.split)

lemma addNotification_view:
  assumes "stack_inv st" "ni_autoDismissMs input = None \<or> ni_persistence input \<noteq> ''ongoing''"
  shows "stack_inv (addNotification input st)"
    and "ongoing_faces (addNotification input st) =
      (if ni_persistence input = ''ongoing'' then view_add (input\<lparr>ni_autoDismissMs := None\<rparr>) (ongoing_faces st)
       else ongoing_faces st)"
proof -
  define ms where "ms = (case ni_autoDismissMs input of Some ms \<Rightarrow> ms | None \<Rightarrow> autoDismissForPersistence (ni_persistence input))"
  define n where "n = new_note input ms (st_next st)"
  define st2 where "st2 = stack_note input n (st\<lparr>st_next := Suc (st_next st)\<rparr>)"
  have ms0: "ms = 0" if "ni_persistence input = ''ongoing''"
    using assms(2) that by (simp add: ms_def autoDismissForPersistence_def)
  have inv: "distinct (map nt_id (st_notes st))" "\<forall>n \<in> set (st_notes st). nt_id n < st_next st"
      "\<forall>i \<in> st_timers st. i < st_next st" "\<forall>n \<in> set (st_notes st). ongoing n \<longrightarrow> nt_id n \<notin> st_timers st"
    using assms(1) by (simp_all add: stack_inv_def)
  have add: "addNotification input st = (if ni_persistence input = ''in-flight'' then st\<lparr>st_next := Suc (st_next st)\<rparr>
      else if ms > 0 then st2\<lparr>st_timers := insert (st_next st) (st_timers st2)\<rparr> else st2)"
    by (simp add: addNotification_def Let_def ms_def [symmetric] n_def [symmetric] st2_def [symmetric])
  have stacked: "st_notes st2 = (if ni_persistence input = ''ongoing'' \<and> truthy (ni_key input)
      then put_first (\<lambda>x. ongoing x \<and> ni_key x = ni_key input) n (st_notes st) else st_notes st @ [n])"
    using inv(1) by (simp add: st2_def stack_note_notes)
  have timers: "st_next st2 = Suc (st_next st)" "st_timers st2 \<subseteq> st_timers st"
    using stack_note_rest [of input n "st\<lparr>st_next := Suc (st_next st)\<rparr>"] by (simp_all add: st2_def)
  have mem: "set (st_notes st2) \<subseteq> insert n (set (st_notes st))"
    using set_put_first_subset [of "\<lambda>x. ongoing x \<and> ni_key x = ni_key input" n "st_notes st"] by (auto simp: stacked)
  have fresh: "nt_id n = st_next st" "nt_id n \<notin> nt_id ` set (st_notes st)" "st_next st \<notin> st_timers st"
    using inv(2,3) by (auto simp: n_def)
  have "distinct (map nt_id (st_notes st2))"
    using inv(1) fresh(2) by (auto simp: stacked put_first_ids)
  moreover have "\<forall>m \<in> set (st_notes st2). nt_id m < Suc (st_next st)"
    using mem inv(2) fresh(1) by force
  moreover have "\<forall>i \<in> st_timers st2. i < Suc (st_next st)" using timers(2) inv(3) by force
  moreover have "\<forall>m \<in> set (st_notes st2). ongoing m \<longrightarrow> nt_id m \<notin> st_timers st2"
  proof (intro ballI impI)
    fix m assume "m \<in> set (st_notes st2)" "ongoing m"
    then have "m = n \<or> nt_id m \<notin> st_timers st" using mem inv(4) by blast
    then show "nt_id m \<notin> st_timers st2" using timers(2) fresh(1,3) by auto
  qed
  moreover have "\<forall>m \<in> set (st_notes st2). ongoing m \<longrightarrow> ms > 0 \<longrightarrow> nt_id m \<noteq> st_next st"
  proof (intro ballI impI)
    fix m assume m: "m \<in> set (st_notes st2)" "ongoing m" "ms > 0"
    then have "ni_persistence input \<noteq> ''ongoing''" using ms0 by auto
    then have "m \<noteq> n" using m(2) by (auto simp: n_def)
    then show "nt_id m \<noteq> st_next st" using m(1) mem inv(2) by force
  qed
  ultimately show "stack_inv (addNotification input st)"
    using inv by (auto simp: add stack_inv_def timers(1) less_Suc_eq)
  have "ongoing_faces st2 = (if ni_persistence input = ''ongoing''
      then view_add (input\<lparr>ni_autoDismissMs := None\<rparr>) (ongoing_faces st) else ongoing_faces st)"
  proof (cases "ni_persistence input = ''ongoing''")
    case True
    have "map face (put_first (\<lambda>x. ni_key x = ni_key input) n (filter ongoing (st_notes st))) =
        put_first (\<lambda>j. ni_key j = ni_key input) (face n) (map face (filter ongoing (st_notes st)))"
      by (rule map_put_first) simp
    with True show ?thesis
      by (simp add: ongoing_faces_def stacked view_add_def filter_put_first [where Q = ongoing] n_def)
  next
    case False
    then show ?thesis by (simp add: ongoing_faces_def stacked n_def)
  qed
  then show "ongoing_faces (addNotification input st) =
      (if ni_persistence input = ''ongoing'' then view_add (input\<lparr>ni_autoDismissMs := None\<rparr>) (ongoing_faces st)
       else ongoing_faces st)"
    by (auto simp: add ongoing_faces_def)
qed

lemma fewer_notes_view:
  assumes "stack_inv st" "st_notes st' = filter p (st_notes st)" "st_timers st' \<subseteq> st_timers st" "st_next st \<le> st_next st'"
  shows "stack_inv st'" "ongoing_faces st' = map face (filter (\<lambda>n. ongoing n \<and> p n) (st_notes st))"
proof -
  show "stack_inv st'"
    using assms by (fastforce simp: stack_inv_def distinct_map_filter)
  show "ongoing_faces st' = map face (filter (\<lambda>n. ongoing n \<and> p n) (st_notes st))"
    using assms(2) by (simp add: ongoing_faces_def conj_commute)
qed

lemma dismissByKey_view:
  assumes "stack_inv st" "k \<noteq> []"
  shows "stack_inv (dismissByKey k st)"
    and "ongoing_faces (dismissByKey k st) = filter (\<lambda>j. ni_key j \<noteq> Some k) (ongoing_faces st)"
proof -
  have fields: "st_notes (dismissByKey k st) = filter (\<lambda>n. ni_key n \<noteq> Some k) (st_notes st)"
    "st_timers (dismissByKey k st) \<subseteq> st_timers st" "st_next st \<le> st_next (dismissByKey k st)"
    using assms(2) by (simp_all add: dismissByKey_def sweep_eq)
  note v = fewer_notes_view [OF assms(1) fields]
  show "stack_inv (dismissByKey k st)" by (rule v(1))
  show "ongoing_faces (dismissByKey k st) = filter (\<lambda>j. ni_key j \<noteq> Some k) (ongoing_faces st)"
    using v(2) by (simp add: ongoing_faces_def filter_map comp_def conj_commute)
qed

lemma replacement_notes_simps:
  "map nt_id (replacement_notes inputs i) = [i..<i + length inputs]"
  "filter ongoing (replacement_notes inputs i) = replacement_notes inputs i"
  "map face (replacement_notes inputs i) = map (\<lambda>j. j\<lparr>ni_persistence := ''ongoing'', ni_autoDismissMs := None\<rparr>) inputs"
  by (induction inputs arbitrary: i) (auto simp: upt_rec)

lemma replaceOngoingBanners_view:
  assumes "stack_inv st"
  shows "stack_inv (replaceOngoingBanners inputs st)"
    and "ongoing_faces (replaceOngoingBanners inputs st) =
      map (\<lambda>j. j\<lparr>ni_persistence := ''ongoing'', ni_autoDismissMs := None\<rparr>) inputs"
proof -
  let ?r = "replacement_notes inputs (st_next st)"
  have fields: "st_notes (replaceOngoingBanners inputs st) = filter (\<lambda>n. \<not> ongoing n) (st_notes st) @ ?r"
    "st_timers (replaceOngoingBanners inputs st) \<subseteq> st_timers st"
    "st_next (replaceOngoingBanners inputs st) = st_next st + length inputs"
    by (simp_all add: replaceOngoingBanners_def Let_def sweep_eq)
  show "ongoing_faces (replaceOngoingBanners inputs st) =
      map (\<lambda>j. j\<lparr>ni_persistence := ''ongoing'', ni_autoDismissMs := None\<rparr>) inputs"
    by (simp add: ongoing_faces_def fields replacement_notes_simps)
  have ids: "nt_id ` set ?r = {st_next st..<st_next st + length inputs}"
    by (metis replacement_notes_simps(1) set_map set_upt)
  have "distinct (map nt_id (st_notes (replaceOngoingBanners inputs st)))"
    using assms ids by (auto simp: fields stack_inv_def replacement_notes_simps(1) distinct_map_filter)
  moreover have "nt_id n < st_next st + length inputs" if "n \<in> set (st_notes (replaceOngoingBanners inputs st))" for n
  proof (cases "n \<in> set ?r")
    case True
    then have "nt_id n \<in> nt_id ` set ?r" by blast
    then show ?thesis by (simp add: ids)
  next
    case False
    with that assms show ?thesis by (auto simp: fields stack_inv_def)
  qed
  moreover have "nt_id n \<notin> st_timers (replaceOngoingBanners inputs st)"
    if "n \<in> set (st_notes (replaceOngoingBanners inputs st))" "ongoing n" for n
  proof -
    from that have "nt_id n \<in> nt_id ` set ?r" by (auto simp: fields)
    then have "st_next st \<le> nt_id n" by (simp add: ids)
    moreover have "i < st_next st" if "i \<in> st_timers (replaceOngoingBanners inputs st)" for i
      using that fields(2) assms by (auto simp: stack_inv_def)
    ultimately show ?thesis using leD by blast
  qed
  ultimately show "stack_inv (replaceOngoingBanners inputs st)"
    using assms fields by (fastforce simp: stack_inv_def)
qed

lemma on_event_view:
  assumes "stack_inv st"
  shows "stack_inv (on_event e st)" "ongoing_faces (on_event e st) = on_view e (ongoing_faces st)"
proof -
  obtain name p where e: "e = (name, p)" by fastforce
  have coerced: "map (\<lambda>j. j\<lparr>ni_persistence := ''ongoing'', ni_autoDismissMs := None\<rparr>) (banner_inputs p) = banner_inputs p"
    by (auto simp: banner_inputs_def payloadToInput_def split: option.splits jval.splits)
  show "stack_inv (on_event e st)"
    using assms by (auto simp: e on_event_def addNotification_view dismissByKey_view replaceOngoingBanners_view
        split: option.split)
  show "ongoing_faces (on_event e st) = on_view e (ongoing_faces st)"
    using assms coerced by (auto simp: e on_event_def on_view_def addNotification_view dismissByKey_view
        replaceOngoingBanners_view truthy_def split: option.split)
qed

subsection \<open>The two sides together\<close>

datatype sink_op = SReport Event | SDismiss string | SReplace string "Event list"

fun sink_apply :: "env \<Rightarrow> sink_op \<Rightarrow> reservoir \<Rightarrow> reservoir" where
  "sink_apply en (SReport ev) r = Report en ev r"
| "sink_apply en (SDismiss k) r = DismissBanner k r"
| "sink_apply en (SReplace p evs) r = ReplaceBannersByPrefix en p evs r"

text \<open>
  What the program asks of the reservoir: no event is both critical and ongoing, and the
  replacements under a prefix have that prefix and no key twice.
\<close>

fun sink_proper :: "sink_op \<Rightarrow> bool" where
  "sink_proper (SReport ev) = (ev_Persistence ev = PersistenceOngoing \<longrightarrow> ev_Severity ev \<noteq> SeverityCritical)"
| "sink_proper (SDismiss k) = True"
| "sink_proper (SReplace p evs) =
     (p \<noteq> [] \<and> distinct (map ev_Key evs) \<and> (\<forall>ev \<in> set evs. hasPrefix (ev_Key ev) p))"

text \<open>\<open>dk_sent\<close> counts the emissions the frontend has handled.\<close>

record desk =
  dk_rsv :: reservoir
  dk_sent :: nat
  dk_stack :: stack

definition desk_init :: "desk \<Rightarrow> bool" where
  "desk_init d \<longleftrightarrow> rv_app (dk_rsv d) \<and> rv_banners (dk_rsv d) = [] \<and>
     dk_sent d = length (rv_emits (dk_rsv d)) \<and> dk_stack d = empty_stack"

text \<open>
  \<open>closes\<close> says whether the user may close a banner; a toast may always be closed. The frontend's own
  notifications are toasts; the one banner it raises itself (\<open>live-updates-broken\<close>) tells that there are no
  events.
\<close>

inductive ui_step :: "env \<Rightarrow> bool \<Rightarrow> desk \<Rightarrow> desk \<Rightarrow> bool" for en closes where
  ui_backend: "sink_proper sop \<Longrightarrow> ui_step en closes d (d\<lparr>dk_rsv := sink_apply en sop (dk_rsv d)\<rparr>)"
| ui_deliver: "dk_sent d < length (rv_emits (dk_rsv d)) \<Longrightarrow>
    ui_step en closes d (d\<lparr>dk_sent := Suc (dk_sent d), dk_stack := on_event (rv_emits (dk_rsv d) ! dk_sent d) (dk_stack d)\<rparr>)"
| ui_timeout: "i \<in> st_timers (dk_stack d) \<Longrightarrow> ui_step en closes d (d\<lparr>dk_stack := timeout_fires i (dk_stack d)\<rparr>)"
| ui_local: "ni_persistence input = ''one-shot'' \<Longrightarrow>
    ui_step en closes d (d\<lparr>dk_stack := addNotification input (dk_stack d)\<rparr>)"
| ui_close: "closes \<or> (\<forall>n \<in> set (st_notes (dk_stack d)). nt_id n = i \<longrightarrow> \<not> ongoing n) \<Longrightarrow>
    ui_step en closes d (d\<lparr>dk_stack := dismissNotification i (dk_stack d)\<rparr>)"

text \<open>
  The invariant: once the events under way are handled, what is shown are banners of the
  reservoir, and all of them, in their order, if no banner was closed by the user.
\<close>

definition keys_once :: "note_input list \<Rightarrow> bool" where
  "keys_once v \<longleftrightarrow> distinct (filter truthy (map ni_key v))"

definition keyed_lists :: "emission \<Rightarrow> bool" where
  "keyed_lists e \<longleftrightarrow> (fst e = EventBannersList \<longrightarrow> keys_once (banner_inputs (snd e)))"

abbreviation pending :: "desk \<Rightarrow> emission list" where
  "pending d \<equiv> drop (dk_sent d) (rv_emits (dk_rsv d))"

definition desk_inv :: "bool \<Rightarrow> desk \<Rightarrow> bool" where
  "desk_inv closes d \<longleftrightarrow> rv_app (dk_rsv d) \<and> banners_wf (dk_rsv d) \<and> stack_inv (dk_stack d) \<and>
     dk_sent d \<le> length (rv_emits (dk_rsv d)) \<and>
     (\<forall>e \<in> set (pending d). keyed_lists e) \<and> keys_once (ongoing_faces (dk_stack d)) \<and>
     (let final = fold on_view (pending d) (ongoing_faces (dk_stack d)); bs = map shown_as (rv_banners (dk_rsv d)) in
       set final \<subseteq> set bs \<and> (\<not> closes \<longrightarrow> final = bs))"

lemma shown_as_key [simp]: "ni_key (shown_as b) = Some (ev_Key b)"
  by (simp add: shown_as_def event_payload_def field_def)

lemma truthy_Some [simp]: "truthy (Some k) \<longleftrightarrow> k \<noteq> []" "\<not> truthy None"
  by (simp_all add: truthy_def)

lemma keys_once_shown: "keys_once (map shown_as bs) \<longleftrightarrow> distinct (filter (\<lambda>k. k \<noteq> []) (map ev_Key bs))"
proof -
  have "filter truthy (map ni_key (map shown_as bs)) = map Some (filter (\<lambda>k. k \<noteq> []) (map ev_Key bs))"
    by (induction bs) simp_all
  then show ?thesis by (simp only: keys_once_def distinct_map) simp
qed

lemma keys_once_Cons:
  "keys_once (j # v) \<longleftrightarrow> keys_once v \<and> (truthy (ni_key j) \<longrightarrow> (\<forall>x \<in> set v. ni_key x \<noteq> ni_key j))"
  by (auto simp: keys_once_def image_iff)

lemma keys_once_filter: "keys_once v \<Longrightarrow> keys_once (filter p v)"
  by (induction v) (auto simp: keys_once_Cons)

lemma map_cut_first: "(\<And>x. R (f x) = P x) \<Longrightarrow> map f (fst (cut_first P xs)) = fst (cut_first R (map f xs))"
  by (induction xs) (auto split: prod.splits)

lemma cut_first_keys_once:
  "keys_once v \<Longrightarrow> truthy k \<Longrightarrow> fst (cut_first (\<lambda>j. ni_key j = k) v) = filter (\<lambda>j. ni_key j \<noteq> k) v"
proof (induction v)
  case (Cons j v)
  then have "filter (\<lambda>j. ni_key j \<noteq> k) v = v" if "ni_key j = k"
    using that by (simp add: keys_once_Cons filter_id_conv)
  with Cons show ?case by (auto simp: keys_once_Cons split: prod.splits)
qed simp

lemma put_first_keys:
  "map ni_key (put_first (\<lambda>j. ni_key j = ni_key i) i v) =
     (if ni_key i \<in> ni_key ` set v then map ni_key v else map ni_key v @ [ni_key i])"
  by (induction v) auto

lemma set_put_first_keys:
  "keys_once v \<Longrightarrow> truthy (ni_key i) \<Longrightarrow>
     set (put_first (\<lambda>j. ni_key j = ni_key i) i v) = insert i {j \<in> set v. ni_key j \<noteq> ni_key i}"
proof (induction v)
  case (Cons j v)
  then have "keys_once v" "ni_key j = ni_key i \<Longrightarrow> {x \<in> set v. ni_key x \<noteq> ni_key i} = set v"
    by (auto simp: keys_once_Cons)
  moreover have "{x \<in> set (j # v). ni_key x \<noteq> ni_key i} =
      (if ni_key j = ni_key i then {} else {j}) \<union> {x \<in> set v. ni_key x \<noteq> ni_key i}" by auto
  ultimately show ?case using Cons by (cases "ni_key j = ni_key i") (simp_all add: insert_commute)
qed simp

lemma on_view_keys:
  assumes "keys_once v" "keyed_lists e"
  shows "keys_once (on_view e v)"
proof -
  have "keys_once (filter p v)" for p using assms(1) by (rule keys_once_filter)
  moreover have "keys_once (view_add i v)" for i
    using assms(1) by (auto simp: keys_once_def view_add_def put_first_keys)
  ultimately show ?thesis
    using assms by (auto simp: on_view_def keyed_lists_def split: prod.splits)
qed

lemma on_view_mono:
  assumes "set v \<subseteq> set w" "keys_once v" "keys_once w"
  shows "set (on_view e v) \<subseteq> set (on_view e w)"
proof -
  obtain name p where e: "e = (name, p)" by fastforce
  have "set (view_add i v) \<subseteq> set (view_add i w)" for i
    using assms(1) by (auto simp: view_add_def set_put_first_keys [OF assms(2)] set_put_first_keys [OF assms(3)])
  moreover have "set (filter q v) \<subseteq> set (filter q w)" for q using assms(1) by auto
  ultimately show ?thesis using assms(1) by (simp add: e on_view_def)
qed

lemma fold_on_view_keys:
  "keys_once v \<Longrightarrow> \<forall>e \<in> set es. keyed_lists e \<Longrightarrow> keys_once (fold on_view es v)"
  by (induction es arbitrary: v) (simp_all add: on_view_keys)

lemma fold_on_view_mono:
  "set v \<subseteq> set w \<Longrightarrow> keys_once v \<Longrightarrow> keys_once w \<Longrightarrow> \<forall>e \<in> set es. keyed_lists e \<Longrightarrow>
     set (fold on_view es v) \<subseteq> set (fold on_view es w)"
  by (induction es arbitrary: v w) (simp_all add: on_view_mono on_view_keys)

lemma on_view_other: "fst e \<notin> {EventBanner, EventBannerDismiss, EventBannersList} \<Longrightarrow> on_view e v = v"
  by (simp add: on_view_def split_beta)

lemma route_surface:
  "route ev = Some e \<Longrightarrow> ev_Persistence ev \<noteq> PersistenceOngoing \<Longrightarrow>
     fst e \<notin> {EventBanner, EventBannerDismiss, EventBannersList}"
  by (auto simp: route_def split: if_splits)

lemma banner_inputs_list [simp]:
  "banner_inputs [(''banners'', JList (map event_payload bs))] = map shown_as bs"
  by (simp add: banner_inputs_def shown_as_def)

lemma report_view:
  assumes "rv_app r" "sink_proper (SReport ev)"
  shows "\<exists>es. rv_emits (Report en ev r) = rv_emits r @ es \<and> (\<forall>e \<in> set es. fst e \<noteq> EventBannersList) \<and>
    fold on_view es (map shown_as (rv_banners r)) = map shown_as (rv_banners (Report en ev r))"
proof (cases "ev_Persistence ev = PersistenceOngoing")
  case True
  let ?f = "filled en ev r"
  have e: "route ?f = Some (EventBanner, event_payload ?f)" using True assms(2) by (simp add: route_def)
  have "field ''key'' (event_payload ?f) = Some (ev_Key ?f)" by (simp add: event_payload_def field_def)
  moreover have "map shown_as (put_first (\<lambda>b. ev_Key b = ev_Key ?f) ?f (rv_banners r)) =
      put_first (\<lambda>j. ni_key j = Some (ev_Key ?f)) (shown_as ?f) (map shown_as (rv_banners r))"
    by (rule map_put_first) simp
  ultimately have "on_view (EventBanner, event_payload ?f) (map shown_as (rv_banners r)) =
      map shown_as (rv_banners (upsertBanner ?f r))"
    by (simp add: on_view_def view_add_def upsertBanner_def flip: shown_as_def)
  then show ?thesis using True assms(1)
    by (intro exI [of _ "[(EventBanner, event_payload ?f)]"]) (simp add: Report_fields e)
next
  case False
  then have "fst e \<notin> {EventBanner, EventBannerDismiss, EventBannersList}" if "route (filled en ev r) = Some e" for e
    using route_surface [OF that] by simp
  with False show ?thesis
    by (intro exI [of _ "case route (filled en ev r) of Some e \<Rightarrow> [e] | None \<Rightarrow> []"])
      (auto simp: Report_fields assms(1) on_view_other split: option.split)
qed

lemma dismiss_view:
  assumes "rv_app r" "banners_wf r"
  shows "\<exists>es. rv_emits (DismissBanner k r) = rv_emits r @ es \<and> (\<forall>e \<in> set es. fst e \<noteq> EventBannersList) \<and>
    fold on_view es (map shown_as (rv_banners r)) = map shown_as (rv_banners (DismissBanner k r))"
proof (cases "k = []")
  case False
  have "map shown_as (fst (cut_first (\<lambda>b. ev_Key b = k) (rv_banners r))) =
      fst (cut_first (\<lambda>j. ni_key j = Some k) (map shown_as (rv_banners r)))"
    by (rule map_cut_first) simp
  also have "\<dots> = filter (\<lambda>j. ni_key j \<noteq> Some k) (map shown_as (rv_banners r))"
    using assms(2) False by (intro cut_first_keys_once) (simp_all add: keys_once_shown banners_wf_def)
  finally show ?thesis using False assms(1)
    by (intro exI [of _ "[(EventBannerDismiss, [(''key'', JStr k)])]"])
      (simp add: DismissBanner_def wailsEmit_def on_view_def field_def)
qed (simp add: DismissBanner_def)

lemma sink_view:
  assumes "rv_app r" "banners_wf r" "sink_proper sop"
  shows "rv_app (sink_apply en sop r) \<and> banners_wf (sink_apply en sop r) \<and>
    (\<exists>es. rv_emits (sink_apply en sop r) = rv_emits r @ es \<and> (\<forall>e \<in> set es. keyed_lists e) \<and>
      fold on_view es (map shown_as (rv_banners r)) = map shown_as (rv_banners (sink_apply en sop r)))"
proof (cases sop)
  case (SReport ev)
  with report_view [of r ev en] assms show ?thesis
    by (auto simp: board.wf_report Report_fields(1) keyed_lists_def)
next
  case (SDismiss k)
  have "rv_app (DismissBanner k r) = rv_app r" by (simp add: DismissBanner_def frame_simps)
  with SDismiss dismiss_view [OF assms(1,2), of k] assms show ?thesis
    by (auto simp: board.wf_dismiss keyed_lists_def)
next
  case (SReplace p evs)
  let ?r = "ReplaceBannersByPrefix en p evs r"
  let ?e = "(EventBannersList, [(''banners'', JList (map event_payload (rv_banners ?r)))])"
  have wf: "banners_wf ?r"
    using replace_banners_swap [OF assms(2), of evs p en] assms(3) SReplace by (simp add: Let_def)
  then have "keyed_lists ?e" by (simp add: keyed_lists_def keys_once_shown banners_wf_def)
  moreover have "on_view ?e v = map shown_as (rv_banners ?r)" for v by (simp add: on_view_def)
  moreover have "rv_emits ?r = rv_emits r @ [?e]" "rv_app ?r"
    using assms(1) ReplaceBannersByPrefix_fields(2,3) [of en p evs r] by simp_all
  ultimately show ?thesis
    using wf SReplace by (auto intro!: exI [of _ "[?e]"])
qed

lemma dismissNotification_view:
  assumes "stack_inv st"
  shows "stack_inv (dismissNotification i st)" "stack_inv (timeout_fires i st)"
    and "ongoing_faces (dismissNotification i st) = map face (filter (\<lambda>n. ongoing n \<and> nt_id n \<noteq> i) (st_notes st))"
    and "ongoing_faces (timeout_fires i st) = map face (filter (\<lambda>n. ongoing n \<and> nt_id n \<noteq> i) (st_notes st))"
  using fewer_notes_view [OF assms, of "dismissNotification i st" "\<lambda>n. nt_id n \<noteq> i"]
    fewer_notes_view [OF assms, of "timeout_fires i st" "\<lambda>n. nt_id n \<noteq> i"]
  by (auto simp: dismissNotification_def timeout_fires_def clearTimer_def)

lemma keys_once_faces: "keys_once (map face ns) \<Longrightarrow> keys_once (map face (filter q ns))"
  by (induction ns) (simp_all add: keys_once_Cons)

lemma fewer_faces:
  "keys_once (ongoing_faces st) \<Longrightarrow> keys_once (map face (filter (\<lambda>n. ongoing n \<and> q n) (st_notes st)))"
  using keys_once_faces [of "filter ongoing (st_notes st)" q] by (simp add: ongoing_faces_def conj_commute)

text \<open>A step of the user's side alone: the banners on display stay, or some are gone.\<close>

lemma desk_inv_stack:
  assumes "desk_inv closes d" "stack_inv st" "keys_once (ongoing_faces st)"
    and "set (ongoing_faces st) \<subseteq> set (ongoing_faces (dk_stack d))"
    and "closes \<or> ongoing_faces st = ongoing_faces (dk_stack d)"
  shows "desk_inv closes (d\<lparr>dk_stack := st\<rparr>)"
proof -
  have "set (fold on_view (pending d) (ongoing_faces st)) \<subseteq>
      set (fold on_view (pending d) (ongoing_faces (dk_stack d)))"
    using assms(1,3,4) by (intro fold_on_view_mono) (simp_all add: desk_inv_def)
  with assms show ?thesis by (fastforce simp: desk_inv_def Let_def)
qed

lemma desk_inv_backend:
  assumes "desk_inv closes d" "sink_proper sop"
  shows "desk_inv closes (d\<lparr>dk_rsv := sink_apply en sop (dk_rsv d)\<rparr>)"
proof -
  let ?r = "dk_rsv d" and ?r' = "sink_apply en sop (dk_rsv d)" and ?v = "ongoing_faces (dk_stack d)"
  have inv: "rv_app ?r" "banners_wf ?r" "\<forall>e \<in> set (pending d). keyed_lists e" "keys_once ?v"
      "dk_sent d \<le> length (rv_emits ?r)" "set (fold on_view (pending d) ?v) \<subseteq> set (map shown_as (rv_banners ?r))"
      "closes \<or> fold on_view (pending d) ?v = map shown_as (rv_banners ?r)"
    using assms(1) by (auto simp: desk_inv_def Let_def)
  obtain es where es: "rv_emits ?r' = rv_emits ?r @ es" "\<forall>e \<in> set es. keyed_lists e"
      "fold on_view es (map shown_as (rv_banners ?r)) = map shown_as (rv_banners ?r')"
      and r': "rv_app ?r'" "banners_wf ?r'"
    using sink_view [OF inv(1,2) assms(2)] by blast
  have p: "pending (d\<lparr>dk_rsv := ?r'\<rparr>) = pending d @ es" using inv(5) by (simp add: es(1))
  have "set (fold on_view es (fold on_view (pending d) ?v)) \<subseteq> set (fold on_view es (map shown_as (rv_banners ?r)))"
    using inv es(2) by (intro fold_on_view_mono) (simp_all add: fold_on_view_keys keys_once_shown banners_wf_def)
  then have "set (fold on_view (pending (d\<lparr>dk_rsv := ?r'\<rparr>)) ?v) \<subseteq> set (map shown_as (rv_banners ?r'))"
    unfolding p es(3) by simp
  moreover have "closes \<or> fold on_view (pending (d\<lparr>dk_rsv := ?r'\<rparr>)) ?v = map shown_as (rv_banners ?r')"
    unfolding p using inv(7) es(3) by auto
  moreover have "\<forall>e \<in> set (pending (d\<lparr>dk_rsv := ?r'\<rparr>)). keyed_lists e" unfolding p using inv(3) es(2) by auto
  moreover have "stack_inv (dk_stack d)" using assms(1) by (simp add: desk_inv_def)
  ultimately show ?thesis using r' inv(4,5) es(1) by (auto simp: desk_inv_def Let_def)
qed

lemma desk_inv_deliver:
  assumes "desk_inv closes d" "dk_sent d < length (rv_emits (dk_rsv d))"
  shows "desk_inv closes (d\<lparr>dk_sent := Suc (dk_sent d), dk_stack := on_event (rv_emits (dk_rsv d) ! dk_sent d) (dk_stack d)\<rparr>)"
proof -
  let ?e = "rv_emits (dk_rsv d) ! dk_sent d" and ?v = "ongoing_faces (dk_stack d)"
  have p: "pending d = ?e # drop (Suc (dk_sent d)) (rv_emits (dk_rsv d))"
    using assms(2) by (simp add: Cons_nth_drop_Suc)
  have inv: "stack_inv (dk_stack d)" "keys_once ?v" "keyed_lists ?e"
    using assms(1) p by (auto simp: desk_inv_def)
  note v = on_event_view [OF inv(1), of ?e]
  have "keys_once (on_view ?e ?v)" by (rule on_view_keys [OF inv(2,3)])
  then show ?thesis using assms v by (simp add: desk_inv_def Let_def p)
qed

lemma desk_inv_step:
  assumes "desk_inv closes d" "ui_step en closes d d'"
  shows "desk_inv closes d'"
  using assms(2)
proof cases
  case (ui_backend sop)
  with assms(1) show ?thesis by (simp add: desk_inv_backend)
next
  case ui_deliver
  with assms(1) show ?thesis by (simp add: desk_inv_deliver)
next
  case (ui_timeout i)
  have inv: "stack_inv (dk_stack d)" "keys_once (ongoing_faces (dk_stack d))" using assms(1) by (simp_all add: desk_inv_def)
  have "filter (\<lambda>n. ongoing n \<and> nt_id n \<noteq> i) (st_notes (dk_stack d)) = filter ongoing (st_notes (dk_stack d))"
    using inv(1) ui_timeout(2) by (intro filter_cong) (auto simp: stack_inv_def)
  then have "ongoing_faces (timeout_fires i (dk_stack d)) = ongoing_faces (dk_stack d)"
    using dismissNotification_view(4) [OF inv(1)] by (simp add: ongoing_faces_def)
  then show ?thesis unfolding ui_timeout(1)
    by (intro desk_inv_stack [OF assms(1)]) (simp_all add: inv dismissNotification_view(2))
next
  case (ui_local input)
  have inv: "stack_inv (dk_stack d)" "keys_once (ongoing_faces (dk_stack d))" using assms(1) by (simp_all add: desk_inv_def)
  show ?thesis unfolding ui_local(1)
    by (intro desk_inv_stack [OF assms(1)]) (simp_all add: inv addNotification_view ui_local(2))
next
  case (ui_close i)
  have inv: "stack_inv (dk_stack d)" "keys_once (ongoing_faces (dk_stack d))" using assms(1) by (simp_all add: desk_inv_def)
  note faces = dismissNotification_view(3) [OF inv(1), of i]
  have "filter (\<lambda>n. ongoing n \<and> nt_id n \<noteq> i) (st_notes (dk_stack d)) = filter ongoing (st_notes (dk_stack d))" if "\<not> closes"
    using ui_close(2) that by (intro filter_cong) auto
  then have "closes \<or> ongoing_faces (dismissNotification i (dk_stack d)) = ongoing_faces (dk_stack d)"
    unfolding faces by (cases closes) (simp_all add: ongoing_faces_def)
  moreover have "set (ongoing_faces (dismissNotification i (dk_stack d))) \<subseteq> set (ongoing_faces (dk_stack d))"
    unfolding faces by (auto simp: ongoing_faces_def)
  ultimately show ?thesis unfolding ui_close(1)
    by (intro desk_inv_stack [OF assms(1)]) (simp_all add: inv dismissNotification_view(1) faces fewer_faces)
qed

lemma desk_inv_init: "desk_init d \<Longrightarrow> desk_inv closes d"
  by (simp add: desk_init_def desk_inv_def banners_wf_def stack_inv_def empty_stack_def ongoing_faces_def keys_once_def)

interpretation desktop: inv_system desk_init "ui_step en closes" "desk_inv closes" for en closes
  by unfold_locales (fact desk_inv_init, fact desk_inv_step)

subsection \<open>Properties\<close>


text \<open>A toast goes away by itself and a banner never does: after any course of events every note
  with a running timer is a toast, and a note whose timer fires, and no other, disappears.\<close>

theorem only_toasts_time_out:
  assumes "reach desk_init (ui_step en closes) d" "i \<in> st_timers (dk_stack d)"
  shows "(\<forall>n \<in> set (st_notes (dk_stack d)). nt_id n = i \<longrightarrow> \<not> ongoing n) \<and>
    ongoing_faces (timeout_fires i (dk_stack d)) = ongoing_faces (dk_stack d) \<and>
    st_notes (timeout_fires i (dk_stack d)) = filter (\<lambda>n. nt_id n \<noteq> i) (st_notes (dk_stack d)) \<and>
    i \<notin> st_timers (timeout_fires i (dk_stack d))"
proof -
  have inv: "stack_inv (dk_stack d)" using desktop.reach_inv [OF assms(1)] by (simp add: desk_inv_def)
  have "filter (\<lambda>n. ongoing n \<and> nt_id n \<noteq> i) (st_notes (dk_stack d)) = filter ongoing (st_notes (dk_stack d))"
    using inv assms(2) by (intro filter_cong) (auto simp: stack_inv_def)
  then have "ongoing_faces (timeout_fires i (dk_stack d)) = ongoing_faces (dk_stack d)"
    using dismissNotification_view(4) [OF inv] by (simp add: ongoing_faces_def)
  then show ?thesis using inv assms(2) by (auto simp: stack_inv_def timeout_fires_def)
qed

text \<open>A list event puts the display right again: whatever the user closed or the frontend missed before,
  every banner of the reservoir is shown once the events of a replacement are handled.\<close>

theorem list_event_resynchronises:
  assumes "rv_app r" "banners_wf r" "stack_inv st" "sink_proper (SReplace p evs)"
  shows "let r' = ReplaceBannersByPrefix en p evs r in
    ongoing_faces (fold on_event (drop (length (rv_emits r)) (rv_emits r')) st) = map shown_as (ListBanners r')"
  using assms by (simp add: Let_def ReplaceBannersByPrefix_fields(2) on_event_view on_view_def ListBanners_def)

subsection \<open>Two goroutines\<close>

text \<open>
  \<open>bannersMu\<close> covers the change of the list, not the event that tells of it: a replacement is
  these two parts, and another report may come between them.
\<close>

definition replace_stored :: "env \<Rightarrow> string \<Rightarrow> Event list \<Rightarrow> reservoir \<Rightarrow> emission \<times> reservoir" where
  "replace_stored en keyPrefix replacements r =
     (case fillEvents en replacements r of (added, r1) \<Rightarrow>
        let kept = filter (\<lambda>b. \<not> hasPrefix (ev_Key b) keyPrefix) (rv_banners r1) @ added
        in ((EventBannersList, [(''banners'', JList (map event_payload kept))]),
            fold logSlog replacements (r1\<lparr>rv_banners := kept\<rparr>)))"

lemma ReplaceBannersByPrefix_parts:
  "ReplaceBannersByPrefix en p evs r = (case replace_stored en p evs r of (e, r') \<Rightarrow> wailsEmit e r')"
  by (simp add: ReplaceBannersByPrefix_def replace_stored_def Let_def split: prod.split)

lemma replace_stored_fields:
  assumes "replace_stored en p evs r = (e, r1)"
  shows "rv_app r1 = rv_app r" "rv_emits r1 = rv_emits r" "e = (EventBannersList, [(''banners'', JList (map event_payload (rv_banners r1)))])"
    "map ev_Key (rv_banners r1) = map ev_Key (filter (\<lambda>b. \<not> hasPrefix (ev_Key b) p) (rv_banners r)) @ map ev_Key evs"
  using assms fillEvents_same [of en evs r]
  by (auto simp: replace_stored_def Let_def frame_simps split: prod.splits)

text \<open>A banner raised between the two parts of a replacement is listed by the reservoir, and is gone from the
  display: the snapshot, taken before it, arrives after it.\<close>

theorem racing_snapshot_hides_banner:
  assumes "rv_app r" "stack_inv st" "ev_Persistence ev = PersistenceOngoing" "ev_Severity ev \<noteq> SeverityCritical"
    and "ev_Key ev = k" "k \<noteq> []" "k \<notin> ev_Key ` set (rv_banners r)" "k \<notin> ev_Key ` set evs"
  shows "case replace_stored en p evs r of (e, r1) \<Rightarrow>
    let r3 = wailsEmit e (Report en ev r1) in
      k \<in> ev_Key ` set (ListBanners r3) \<and>
      (\<forall>j \<in> set (ongoing_faces (fold on_event (drop (length (rv_emits r)) (rv_emits r3)) st)). ni_key j \<noteq> Some k)"
proof -
  obtain e r1 where s: "replace_stored en p evs r = (e, r1)" by fastforce
  note f = replace_stored_fields [OF s]
  let ?r2 = "Report en ev r1"
  obtain es where es: "rv_emits ?r2 = rv_emits r1 @ es"
    using report_view [of r1 ev en] assms(1,3,4) by (auto simp: f(1))
  have "filled en ev r1 \<in> set (rv_banners ?r2)"
    using assms(3,5,6) by (simp add: Report_fields(3) upsertBanner_def put_first_mem)
  then have "k \<in> ev_Key ` set (rv_banners ?r2)" by (intro image_eqI [of _ _ "filled en ev r1"]) (simp_all add: assms(5))
  moreover have "k \<notin> set (map ev_Key (rv_banners r1))"
    using assms(7,8) by (auto simp: f(4) image_iff)
  then have "\<forall>b \<in> set (rv_banners r1). ev_Key b \<noteq> k" by auto
  moreover have "rv_app ?r2" "rv_emits (wailsEmit e ?r2) = rv_emits r @ es @ [e]"
    using assms(1) by (simp_all add: Report_fields(1) f(1,2) wailsEmit_def es)
  moreover have "ongoing_faces (on_event e s) = map shown_as (rv_banners r1)" if "stack_inv s" for s
    using that by (simp add: on_event_view on_view_def f(3))
  moreover have "stack_inv (fold on_event es st)"
    using assms(2) by (induction es arbitrary: st) (simp_all add: on_event_view(1))
  ultimately show ?thesis by (auto simp: s Let_def ListBanners_def frame_simps)
qed

subsection \<open>Examples\<close>

definition mounted :: desk where
  "mounted = \<lparr>dk_rsv = SetApp newReservoir, dk_sent = 0, dk_stack = empty_stack\<rparr>"

definition warned :: desk where
  "warned = mounted\<lparr>dk_rsv := Report test_env (Event0\<lparr>ev_Severity := SeverityWarn\<rparr>) (dk_rsv mounted)\<rparr>"

lemma mounted_init: "desk_init mounted"
  by (simp add: mounted_def desk_init_def SetApp_def newReservoir_def)

definition died :: desk where
  "died = mounted\<lparr>dk_rsv := Report test_env (dead_server ''eof'') (dk_rsv mounted)\<rparr>"

definition told :: "desk \<Rightarrow> desk" where
  "told d = d\<lparr>dk_sent := Suc (dk_sent d), dk_stack := on_event (rv_emits (dk_rsv d) ! dk_sent d) (dk_stack d)\<rparr>"

lemma reach_reported:
  assumes "sink_proper (SReport ev)"
    and "d = mounted\<lparr>dk_rsv := Report test_env ev (dk_rsv mounted)\<rparr>" "rv_emits (dk_rsv d) \<noteq> []"
  shows "reach desk_init (ui_step test_env closes) (told d)"
proof -
  have "ui_step test_env closes mounted d"
    using ui_backend [OF assms(1), where d = mounted and en = test_env and closes = closes] assms(2) by simp
  with reach_init [where init = desk_init, OF mounted_init]
  have "reach desk_init (ui_step test_env closes) d" by (rule reach_step)
  moreover have "dk_sent d < length (rv_emits (dk_rsv d))" using assms(2,3) by (simp add: mounted_def)
  from this have "ui_step test_env closes d (told d)" unfolding told_def by (rule ui_deliver)
  ultimately show ?thesis by (rule reach_step)
qed

lemma test_emits:
  "rv_emits (dk_rsv died) = [(EventBanner, event_payload (filled test_env (dead_server ''eof'') (dk_rsv mounted)))]"
  "rv_emits (dk_rsv warned) = [(EventToast,
     event_payload (filled test_env (Event0\<lparr>ev_Severity := SeverityWarn\<rparr>) (dk_rsv mounted)))]"
  by (simp_all add: died_def warned_def Report_fields route_def mounted_def SetApp_def newReservoir_def
      dead_server_def Event0_def)


lemma only_toasts_time_out_witness:
  "0 \<in> st_timers (dk_stack (told warned)) \<and> 0 \<notin> st_timers (timeout_fires 0 (dk_stack (told warned))) \<and>
   ongoing_faces (timeout_fires 0 (dk_stack (told warned))) = ongoing_faces (dk_stack (told warned))"
proof -
  have "reach desk_init (ui_step test_env True) (told warned)"
    by (rule reach_reported [OF _ warned_def]) (simp_all add: test_emits Event0_def)
  moreover have "0 \<in> st_timers (dk_stack (told warned))"
    by (simp add: told_def test_emits) (simp add: warned_def mounted_def test_emits on_event_def addNotification_def
        empty_stack_def stack_note_def autoDismissForPersistence_def Let_def)
  ultimately show ?thesis using only_toasts_time_out [of test_env True "told warned" 0] by blast
qed

lemma list_event_resynchronises_witness:
  "let r' = ReplaceBannersByPrefix test_env ''load:'' [Event0\<lparr>ev_Key := ''load:b''\<rparr>] (SetApp newReservoir) in
    ongoing_faces (fold on_event (rv_emits r') empty_stack) = map shown_as (ListBanners r')"
proof -
  have "stack_inv empty_stack" by (simp add: stack_inv_def empty_stack_def)
  moreover have "sink_proper (SReplace ''load:'' [Event0\<lparr>ev_Key := ''load:b''\<rparr>])"
    by (simp add: hasPrefix_def Event0_def)
  moreover have "rv_app (SetApp newReservoir)" "banners_wf (SetApp newReservoir)" "rv_emits (SetApp newReservoir) = []"
    by (simp_all add: SetApp_def newReservoir_def banners_wf_def)
  ultimately show ?thesis
    using list_event_resynchronises [of "SetApp newReservoir" empty_stack "''load:''" "[Event0\<lparr>ev_Key := ''load:b''\<rparr>]" test_env]
    by simp
qed

lemma racing_snapshot_hides_banner_witness:
  "case replace_stored test_env ''load:'' [] (SetApp newReservoir) of (e, r1) \<Rightarrow>
     ''grpc:server:dead'' \<in> ev_Key ` set (ListBanners (wailsEmit e (Report test_env (dead_server ''eof'') r1)))"
proof -
  have "stack_inv empty_stack" by (simp add: stack_inv_def empty_stack_def)
  then show ?thesis
    using racing_snapshot_hides_banner [of "SetApp newReservoir" empty_stack "dead_server ''eof''" "''grpc:server:dead''" "[]" test_env "''load:''"]
    by (simp add: SetApp_def newReservoir_def dead_server_def Event0_def split_beta Let_def)
qed

end
