(* ===== verification/Display.thy ===== *)
theory Display
  imports Frontend AppRun
begin

section \<open>Display: the runs on screen, and what start-up leaves unseen\<close>

text \<open>
  Models the run state of \<^verbatim>\<open>useScripts.ts\<close>: the map of runs that the \<open>run:*\<close> events and the answers
  to \<open>StartRun\<close> and \<open>StartParallelRuns\<close> fill, and the groups with their garbage collection. An
  answer may come before, between or after the run's own events. The banner the hook raises itself
  when it cannot listen is a note of \<open>Frontend\<close>. The theorems connect it to
  \<open>RunnerService\<close>, which emits those events, and to \<open>App\<close>, which publishes banners before a frontend
  listens.
\<close>

subsection \<open>The map of runs\<close>

record run_view =
  vw_runID :: run_id
  vw_scriptID :: script_id
  vw_status :: string
  vw_output :: "string list"
  vw_progress :: "(int \<times> int \<times> string) option"
  vw_error :: "(string \<times> string) option"

definition fresh_view :: "run_id \<Rightarrow> script_id \<Rightarrow> run_view" where
  "fresh_view runID scriptID = \<lparr>vw_runID = runID, vw_scriptID = scriptID, vw_status = ''running'',
     vw_output = [], vw_progress = None, vw_error = None\<rparr>"

text \<open>The fields of an event's data; Go sets each of them in every event it sends.\<close>

definition text_of :: "string \<Rightarrow> payload \<Rightarrow> string" where
  "text_of k p = (case field k p of Some s \<Rightarrow> s | None \<Rightarrow> [])"

definition int_of :: "string \<Rightarrow> payload \<Rightarrow> int" where
  "int_of k p = (case map_of p k of Some (JInt i) \<Rightarrow> i | _ \<Rightarrow> 0)"

text \<open>The four updaters; \<open>None\<close> for an event that is not a run's.\<close>

definition updater :: "string \<Rightarrow> (payload \<Rightarrow> run_view \<Rightarrow> run_view) option" where
  "updater event =
     (if event = ''run:output'' then Some (\<lambda>p run. run\<lparr>vw_output := vw_output run @ [text_of ''text'' p]\<rparr>)
      else if event = ''run:progress'' then
        Some (\<lambda>p run. run\<lparr>vw_progress := Some (int_of ''current'' p, int_of ''total'' p, text_of ''label'' p)\<rparr>)
      else if event = ''run:status'' then Some (\<lambda>p run. run\<lparr>vw_status := text_of ''state'' p\<rparr>)
      else if event = ''run:error'' then
        Some (\<lambda>p run. run\<lparr>vw_error := Some (text_of ''message'' p, text_of ''traceback'' p)\<rparr>)
      else None)"

definition onRunEvent :: "emission \<Rightarrow> (run_id \<rightharpoonup> run_view) \<Rightarrow> run_id \<rightharpoonup> run_view" where
  "onRunEvent e runs =
     (case e of (event, p) \<Rightarrow>
        case updater event of
          None \<Rightarrow> runs
        | Some update \<Rightarrow>
            (let run = (case runs (text_of ''runID'' p) of
                          Some v \<Rightarrow> v
                        | None \<Rightarrow> fresh_view (text_of ''runID'' p) (text_of ''scriptID'' p))
             in runs(text_of ''runID'' p \<mapsto> update p run)))"

definition startRun_returned :: "script_id \<Rightarrow> run_id \<Rightarrow> (run_id \<rightharpoonup> run_view) \<Rightarrow> run_id \<rightharpoonup> run_view" where
  "startRun_returned scriptID runID runs =
     (if runs runID = None then runs(runID \<mapsto> fresh_view runID scriptID) else runs)"

definition parallel_returned :: "script_id \<Rightarrow> run_id list \<Rightarrow> (run_id \<rightharpoonup> run_view) \<Rightarrow> run_id \<rightharpoonup> run_view" where
  "parallel_returned scriptID runIDs runs = fold (startRun_returned scriptID) runIDs runs"

text \<open>The groups, without their starting time, and the effect that drops the finished ones.\<close>

record group_view =
  gv_groupID :: string
  gv_scriptID :: script_id
  gv_runIDs :: "run_id list"

definition group_added :: "string \<Rightarrow> script_id \<Rightarrow> run_id list \<Rightarrow> (string \<rightharpoonup> group_view) \<Rightarrow> string \<rightharpoonup> group_view" where
  "group_added groupID scriptID runIDs groups =
     groups(groupID \<mapsto> \<lparr>gv_groupID = groupID, gv_scriptID = scriptID, gv_runIDs = runIDs\<rparr>)"

definition allTerminal :: "(run_id \<rightharpoonup> run_view) \<Rightarrow> group_view \<Rightarrow> bool" where
  "allTerminal runs g =
     list_all (\<lambda>i. case runs i of None \<Rightarrow> False | Some r \<Rightarrow> vw_status r \<noteq> ''running'') (gv_runIDs g)"

definition group_gc :: "(run_id \<rightharpoonup> run_view) \<Rightarrow> (string \<rightharpoonup> group_view) \<Rightarrow> string \<rightharpoonup> group_view" where
  "group_gc runs groups =
     (\<lambda>i. case groups i of None \<Rightarrow> None | Some g \<Rightarrow> if allTerminal runs g then None else Some g)"

text \<open>What the hook does when a call of \<open>StartRun\<close> or \<open>StartParallelRuns\<close> is over, \<open>None\<close> being an
  exception or a missing binding, and when the listeners of the run events cannot be installed.\<close>

definition startRun_ended ::
    "script_id \<Rightarrow> run_id option \<Rightarrow> (run_id \<rightharpoonup> run_view) \<Rightarrow> run_id option \<times> (run_id \<rightharpoonup> run_view)" where
  "startRun_ended scriptID answer runs =
     (case answer of None \<Rightarrow> (None, runs) | Some runID \<Rightarrow> (Some runID, startRun_returned scriptID runID runs))"

definition startParallelRuns_ended ::
    "script_id \<Rightarrow> (string \<times> run_id list) option \<Rightarrow> (run_id \<rightharpoonup> run_view) \<times> (string \<rightharpoonup> group_view) \<Rightarrow>
     run_id list option \<times> (run_id \<rightharpoonup> run_view) \<times> (string \<rightharpoonup> group_view)" where
  "startParallelRuns_ended scriptID answer hook =
     (case (answer, hook) of
        (None, _) \<Rightarrow> (None, hook)
      | (Some (groupID, runIDs), runs, groups) \<Rightarrow>
          (Some runIDs, parallel_returned scriptID runIDs runs, group_added groupID scriptID runIDs groups))"

definition live_updates_broken :: "string \<Rightarrow> note_input" where
  "live_updates_broken msg =
     \<lparr>ni_severity = ''warn'', ni_persistence = ''ongoing'', ni_source = Some ''frontend'',
      ni_title = Some ''Live updates unavailable'',
      ni_message = ''Script output may not refresh in real time: '' @ msg,
      ni_scriptID = None, ni_runID = None, ni_traceback = None,
      ni_key = Some ''live-updates-broken'', ni_autoDismissMs = None\<rparr>"

definition setupEvents_failed :: "string \<Rightarrow> stack \<Rightarrow> stack" where
  "setupEvents_failed msg st = addNotification (live_updates_broken msg) st"

subsection \<open>What reaches it\<close>

datatype view_input =
    RunEvent emission
  | StartReturned script_id run_id
  | ParallelReturned script_id "run_id list"

fun view_step :: "view_input \<Rightarrow> (run_id \<rightharpoonup> run_view) \<Rightarrow> run_id \<rightharpoonup> run_view" where
  "view_step (RunEvent e) runs = onRunEvent e runs"
| "view_step (StartReturned sid r) runs = startRun_returned sid r runs"
| "view_step (ParallelReturned sid rs) runs = parallel_returned sid rs runs"

definition names_run :: "run_id \<Rightarrow> emission \<Rightarrow> bool" where
  "names_run r e \<longleftrightarrow> updater (fst e) \<noteq> None \<and> text_of ''runID'' (snd e) = r"

fun concerns :: "run_id \<Rightarrow> view_input \<Rightarrow> bool" where
  "concerns r (RunEvent e) = names_run r e"
| "concerns r (StartReturned sid r') = (r' = r)"
| "concerns r (ParallelReturned sid rs) = (r \<in> set rs)"

fun input_script :: "view_input \<Rightarrow> script_id" where
  "input_script (RunEvent e) = text_of ''scriptID'' (snd e)"
| "input_script (StartReturned sid r) = sid"
| "input_script (ParallelReturned sid rs) = sid"

fun input_events :: "run_id \<Rightarrow> view_input \<Rightarrow> emission list" where
  "input_events r (RunEvent e) = (if names_run r e then [e] else [])"
| "input_events r (StartReturned sid r') = []"
| "input_events r (ParallelReturned sid rs) = []"

definition pane :: "emission \<Rightarrow> run_view \<Rightarrow> run_view" where
  "pane e v = (case updater (fst e) of None \<Rightarrow> v | Some update \<Rightarrow> update (snd e) v)"

lemma onRunEvent_at:
  "onRunEvent e runs r =
     (if names_run r e then Some (pane e (case runs r of Some v \<Rightarrow> v | None \<Rightarrow> fresh_view r (text_of ''scriptID'' (snd e))))
      else runs r)"
  by (cases "updater (fst e)") (auto simp: onRunEvent_def names_run_def pane_def Let_def split_beta)

lemma parallel_returned_at:
  "parallel_returned sid rs runs r =
     (if r \<in> set rs then Some (case runs r of Some v \<Rightarrow> v | None \<Rightarrow> fresh_view r sid) else runs r)"
  unfolding parallel_returned_def
  by (induction rs arbitrary: runs) (auto simp: startRun_returned_def split: option.split)

text \<open>One input, at one run: its events update the run's view, any other input at most creates it.\<close>

lemma view_step_at:
  "view_step i runs r =
     (if concerns r i
      then Some (fold pane (input_events r i) (case runs r of Some v \<Rightarrow> v | None \<Rightarrow> fresh_view r (input_script i)))
      else runs r)"
  by (cases i) (auto simp: onRunEvent_at parallel_returned_at startRun_returned_def split: option.split)

lemma input_events_concern: "\<not> concerns r i \<Longrightarrow> input_events r i = []"
  by (cases i) auto

lemma view_steps_at:
  assumes "\<forall>i \<in> set ins. concerns r i \<longrightarrow> input_script i = sid"
  shows "fold view_step ins runs r =
     (case runs r of
        Some v \<Rightarrow> Some (fold pane (concat (map (input_events r) ins)) v)
      | None \<Rightarrow> if \<exists>i \<in> set ins. concerns r i
                then Some (fold pane (concat (map (input_events r) ins)) (fresh_view r sid)) else None)"
  using assms
proof (induction ins arbitrary: runs)
  case (Cons i ins)
  show ?case
  proof (cases "concerns r i")
    case True
    then show ?thesis using Cons by (auto simp: view_step_at split: option.split)
  next
    case False
    then show ?thesis using Cons by (auto simp: view_step_at input_events_concern split: option.split)
  qed
qed (simp split: option.split)

subsection \<open>What a run's messages become\<close>

text \<open>
  The events forwarding one message sends for the run's pane; \<open>c\<close> says whether a cancel was
  accepted. Errors come through the reservoir, whose routing decides.
\<close>

definition pane_events :: "bool \<Rightarrow> run_id \<Rightarrow> script_id \<Rightarrow> string \<Rightarrow> Message \<Rightarrow> emission list" where
  "pane_events c r sid g m = emitted r sid g m @
     concat (map (\<lambda>ev. case route ev of
         Some (event, p) \<Rightarrow> if event = EventRunErrorInFlight then [(event, p)] else []
       | None \<Rightarrow> []) (announced c r sid ([], []) m))"

fun statuses_in :: "Message \<Rightarrow> string list" where
  "statuses_in (StatusMsg st) = [st]"
| "statuses_in (OutputMsg txt) = []"
| "statuses_in (ProgressMsg c t l) = []"
| "statuses_in (ErrorMsg m t v) = []"

fun texts_in :: "Message \<Rightarrow> string list" where
  "texts_in (OutputMsg txt) = [txt]"
| "texts_in (StatusMsg st) = []"
| "texts_in (ProgressMsg c t l) = []"
| "texts_in (ErrorMsg m t v) = []"

fun progress_in :: "Message \<Rightarrow> (int \<times> int \<times> string) list" where
  "progress_in (ProgressMsg c t l) = [(c, t, l)]"
| "progress_in (OutputMsg txt) = []"
| "progress_in (StatusMsg st) = []"
| "progress_in (ErrorMsg m t v) = []"

definition pane_errors :: "bool \<Rightarrow> Message \<Rightarrow> (string \<times> string) list" where
  "pane_errors c m = (case m of
     ErrorMsg msg tb sev \<Rightarrow> if \<not> c \<and> severityFromProto sev = SeverityError then [(msg, tb)] else []
   | _ \<Rightarrow> [])"

definition last_of :: "'a list \<Rightarrow> 'a option" where
  "last_of xs = (if xs = [] then None else Some (last xs))"

definition view_of :: "bool \<Rightarrow> run_id \<Rightarrow> script_id \<Rightarrow> Message list \<Rightarrow> run_view" where
  "view_of c r sid ms =
     \<lparr>vw_runID = r, vw_scriptID = sid, vw_status = last (''running'' # concat (map statuses_in ms)),
      vw_output = concat (map texts_in ms), vw_progress = last_of (concat (map progress_in ms)),
      vw_error = last_of (concat (map (pane_errors c) ms))\<rparr>"

lemma last_of_append [simp]: "last_of [] = None" "last_of (xs @ [x]) = Some x"
  by (simp_all add: last_of_def)

lemma field_cons [simp]:
  "field k ((k', JStr v) # p) = (if k' = k then Some v else field k p)"
  "field k ((k', JInt i) # p) = (if k' = k then None else field k p)"
  by (simp_all add: field_def)

lemma pane_events_error:
  "r \<noteq> [] \<Longrightarrow> pane_events c r sid g (ErrorMsg m t v) =
     (if pane_errors c (ErrorMsg m t v) = [] then []
      else [(EventRunErrorInFlight, run_error_payload (python_event SeverityError PersistenceInFlight m t r sid))])"
  by (auto simp: pane_events_def pane_errors_def route_def python_event_def severityFromProto_def Event0_def)

lemma pane_events_other: "\<forall>msg t v. m \<noteq> ErrorMsg msg t v \<Longrightarrow> pane_events c r sid g m = emitted r sid g m"
  by (cases m) (auto simp: pane_events_def route_def python_event_def run_failed_event_def Event0_def)

lemma pane_message:
  assumes "r \<noteq> []"
  shows "fold pane (pane_events c r sid g m) (view_of c r sid ms) = view_of c r sid (ms @ [m])"
proof (cases m)
  case (ErrorMsg msg t v)
  have "pane_errors c m = [] \<or> pane_errors c m = [(msg, t)]" by (simp add: ErrorMsg pane_errors_def)
  then show ?thesis
    using assms by (auto simp: ErrorMsg pane_events_error pane_def updater_def view_of_def run_error_payload_def
        python_event_def Event0_def text_of_def)
qed (simp_all add: pane_events_other pane_def updater_def view_of_def run_ids_payload_def text_of_def int_of_def
    pane_errors_def)

lemma pane_messages:
  assumes "r \<noteq> []"
  shows "fold pane (concat (map (pane_events c r sid g) ms)) (fresh_view r sid) = view_of c r sid ms"
proof (induction ms rule: rev_induct)
  case Nil
  then show ?case by (simp add: view_of_def fresh_view_def)
next
  case (snoc m ms)
  then show ?case using pane_message [OF assms] by simp
qed

subsection \<open>Banners published before a frontend listens\<close>

lemma boot_main_parts:
  assumes "boot_main m = Ret (Up a)"
  obtains db r where "boot_database m newReservoir = Up (db, r)"
    "a = boot_services m (findScriptsDir (ma_isDir m) (ma_sys m)) (DefaultPluginDir (os_Getenv (ma_sys m)) (ma_configDir m)) db
       (boot_registry m (findScriptsDir (ma_isDir m) (ma_sys m)) (DefaultPluginDir (os_Getenv (ma_sys m)) (ma_configDir m)) r)"
  using assms by (auto simp: boot_main_eq Let_def split: option.splits boot.splits prod.splits)

lemma reg_warn_fields [simp]:
  "rg_scripts (reg_warn m t msg err g) = rg_scripts g" "rg_issues (reg_warn m t msg err g) = rg_issues g"
  "rg_fingerprint (reg_warn m t msg err g) = rg_fingerprint g"
  by (simp_all add: reg_warn_def)

lemma New_fields [simp]: "rg_scripts (New r) = Map.empty" "rg_issues (New r) = []"
  by (simp_all add: New_def)

text \<open>The registry's fingerprint at the end of the start-up is that of one rescan of the same disk.\<close>

lemma boot_registry_fingerprint:
  assumes "sd \<noteq> []" "pd \<noteq> []" "buildFromDir (ma_fs m) sd ''builtin'' = Inr (b, bi)"
    and "reload_plugins (ma_fs m) pd = Inr (p, pi)"
    and "\<forall>e. fs_Stat (ma_fs m) pd = Some e \<longrightarrow> fs_IsNotExist (ma_fs m) e"
  shows "rg_fingerprint (boot_registry m sd pd r) = computeFingerprint (ma_runtime m) (b ++ p) (last_n maxLoadIssues (bi @ pi))"
proof -
  let ?g0 = "reg_warn m ''Plugin dir unavailable'' (mkdir_text pd) (ma_mkdir m pd) (New r)"
  obtain err1 g1 where 1: "LoadBuiltin (ma_runtime m) (ma_fs m) sd ?g0 = (err1, g1)" by fastforce
  have g1: "rg_scripts g1 = b" "rg_issues g1 = last_n maxLoadIssues bi"
    "rg_fingerprint g1 = computeFingerprint (ma_runtime m) b (last_n maxLoadIssues bi)"
    using 1 assms(3) by (auto simp: LoadBuiltin_def Let_def appendIssuesCapped_last)
  let ?g2 = "reg_warn m ''Builtin scripts load failed'' error_text err1 g1"
  obtain err2 g3 where 2: "LoadPlugins (ma_runtime m) (ma_fs m) pd ?g2 = (err2, g3)" by fastforce
  have "rg_fingerprint g3 = computeFingerprint (ma_runtime m) (b ++ p) (last_n maxLoadIssues (bi @ pi))"
  proof (cases "fs_Stat (ma_fs m) pd")
    case None
    then have "buildFromDir (ma_fs m) pd ''plugin'' = Inr (p, pi)"
      using assms(2,4) by (auto simp: reload_plugins_def split: sum.splits)
    with None 2 show ?thesis
      by (auto simp: LoadPlugins_def Let_def appendIssuesCapped_last g1 last_n_append reportOverrides_fields)
  next
    case (Some e)
    then have "p = Map.empty" "pi = []" "fs_IsNotExist (ma_fs m) e"
      using assms(4,5) by (auto simp: reload_plugins_def)
    with Some 2 g1 show ?thesis by (auto simp: LoadPlugins_def Let_def)
  qed
  then show ?thesis by (simp add: boot_registry_def 1 2 Let_def)
qed

lemma boot_services_fingerprint:
  "rg_fingerprint (ss_registry (ap_scripts (boot_services m sd pd db g))) = rg_fingerprint g"
  by (simp add: boot_services_def Let_def ScriptService_SetApp_def NewScriptService_def split_beta)

subsection \<open>Properties\<close>



text \<open>An aggregate panel is there as long as it is needed: after a batch is started its group stays
  through every event until each of its runs has a status other than running, then it goes; other
  groups are judged by their own runs.\<close>

theorem group_goes_with_its_last_run:
  "(group_gc runs (group_added gid sid rs groups) gid = None \<longleftrightarrow>
      (\<forall>r \<in> set rs. \<exists>v. runs r = Some v \<and> vw_status v \<noteq> ''running'')) \<and>
   (g' \<noteq> gid \<longrightarrow> group_gc runs (group_added gid sid rs groups) g' = group_gc runs groups g') \<and>
   group_gc runs (group_gc runs groups) = group_gc runs groups"
  by (auto simp: group_gc_def group_added_def allTerminal_def list_all_iff fun_eq_iff split: option.splits)


subsection \<open>Examples\<close>


lemma group_goes_with_its_last_run_witness:
  "group_gc (fold view_step [ParallelReturned ''s'' [''r1'']] Map.empty) (group_added ''g'' ''s'' [''r1''] Map.empty) ''g'' \<noteq> None"
  using group_goes_with_its_last_run [of "fold view_step [ParallelReturned ''s'' [''r1'']] Map.empty" "''g''" "''s''" "[''r1'']" Map.empty]
  by (simp add: parallel_returned_def startRun_returned_def fresh_view_def)

text \<open>The banner the hook raises itself is a banner like those of the reservoir: it is on screen after
  the failure, and the next list of banners, which does not have it, takes it away.\<close>

theorem banner_list_drops_own_banner:
  assumes "rv_app r" "banners_wf r" "stack_inv st" "sink_proper (SReplace p evs)"
    and "r' = ReplaceBannersByPrefix en p evs r"
    and "\<forall>b \<in> set (ListBanners r'). ev_Key b \<noteq> ''live-updates-broken''"
  shows "live_updates_broken msg \<in> set (ongoing_faces (setupEvents_failed msg st))"
    and "live_updates_broken msg \<notin>
      set (ongoing_faces (fold on_event (drop (length (rv_emits r)) (rv_emits r')) (setupEvents_failed msg st)))"
proof -
  have facts: "ni_autoDismissMs (live_updates_broken msg) = None" "ni_persistence (live_updates_broken msg) = ''ongoing''"
    "(live_updates_broken msg)\<lparr>ni_autoDismissMs := None\<rparr> = live_updates_broken msg"
    "truthy (ni_key (live_updates_broken msg))" "ni_key (live_updates_broken msg) = Some ''live-updates-broken''"
    by (simp_all add: live_updates_broken_def truthy_def)
  have put: "y \<in> set (put_first P y xs)" for P xs and y :: note_input by (induction xs) auto
  show "live_updates_broken msg \<in> set (ongoing_faces (setupEvents_failed msg st))"
    using addNotification_view(2) [OF assms(3), of "live_updates_broken msg"] facts
    by (simp add: setupEvents_failed_def view_add_def put)
  have "stack_inv (setupEvents_failed msg st)"
    using addNotification_view(1) [OF assms(3), of "live_updates_broken msg"] facts by (simp add: setupEvents_failed_def)
  from list_event_resynchronises [OF assms(1,2) this assms(4), of en]
  have shown: "ongoing_faces (fold on_event (drop (length (rv_emits r)) (rv_emits r')) (setupEvents_failed msg st)) =
      map shown_as (ListBanners r')" by (simp add: Let_def assms(5))
  have "shown_as b \<noteq> live_updates_broken msg" if "b \<in> set (ListBanners r')" for b
  proof
    assume "shown_as b = live_updates_broken msg"
    then have "field ''key'' (event_payload b) = Some ''live-updates-broken''"
      by (metis facts(5) payloadToInput_simps(2) shown_as_def)
    with that assms(6) show False by (auto simp: field_def event_payload_def split: if_splits)
  qed
  with shown show "live_updates_broken msg \<notin>
      set (ongoing_faces (fold on_event (drop (length (rv_emits r)) (rv_emits r')) (setupEvents_failed msg st)))"
    by (metis (no_types, lifting) imageE list.set_map)
qed

lemma banner_list_drops_own_banner_witness:
  "live_updates_broken ''x'' \<in> set (ongoing_faces (setupEvents_failed ''x'' empty_stack)) \<and>
   live_updates_broken ''x'' \<notin> set (ongoing_faces
     (fold on_event (rv_emits (ReplaceBannersByPrefix test_env ''load:'' [] (SetApp newReservoir))) (setupEvents_failed ''x'' empty_stack)))"
proof -
  let ?r = "SetApp newReservoir"
  have r: "rv_app ?r" "banners_wf ?r" "stack_inv empty_stack" "sink_proper (SReplace ''load:'' [])" "rv_emits ?r = []"
    "\<forall>b \<in> set (ListBanners (ReplaceBannersByPrefix test_env ''load:'' [] ?r)). ev_Key b \<noteq> ''live-updates-broken''"
    by (simp_all add: SetApp_def newReservoir_def banners_wf_def stack_inv_def empty_stack_def ListBanners_def ReplaceBannersByPrefix_fields)
  show ?thesis
    using banner_list_drops_own_banner [OF r(1-4) refl r(6), of "''x''"] r(5) by simp
qed

definition broken_machine :: "unit machine" where
  "broken_machine = test_machine\<lparr>ma_fs := test_disk (\<lambda>d. if d = ''scripts'' then [(''bad'', True)] else []) []\<rparr>"

lemma broken_boot: "\<exists>a. boot_main broken_machine = Ret (Up a)"
proof -
  have "\<exists>db r. boot_database broken_machine newReservoir = Up (db, r)"
    by (simp add: boot_database_def boot_dsn_def broken_machine_def test_machine_def test_os_def test_out_def test_sql_def
        DefaultDSN_def Open_def Migrate_def migrations_def pragmas_def)
  then show ?thesis by (auto simp: boot_main_eq) (simp_all add: broken_machine_def test_machine_def Let_def)
qed

lemma broken_scans:
  "findScriptsDir (ma_isDir broken_machine) (ma_sys broken_machine) = ''scripts''"
  "buildFromDir (ma_fs broken_machine) ''scripts'' ''builtin'' = Inr (Map.empty,
     [\<lparr>li_Dir = ''scripts/bad'', li_Source = ''builtin'', li_Error = ''reading script.json: no such file'', li_Timestamp = 7\<rparr>])"
  "fs_Stat (ma_fs broken_machine) = (\<lambda>p. None)"
  by (simp_all add: broken_machine_def test_machine_def findScriptsDir_def findScriptsDir_exe_def test_os_def)
    (simp_all add: scan_eval)



end
