(* ===== verification/Catalog.thy ===== *)
theory Catalog
  imports Watcher
begin

section \<open>The catalog on screen\<close>

text \<open>
  Models the loading of the catalog in \<^verbatim>\<open>frontend/src/hooks/useScripts.ts\<close> (\<open>loadCatalog\<close> and the two
  effects that call it) and joins it with the registry and the script service: the watcher's
  reload and its \<open>scripts:changed\<close>, the event under way, the call of \<open>ListScripts\<close> the event causes,
  and the answer. \<open>catalog_step\<close> interleaves them. The generated bindings are asynchronous: a call
  may be answered at any time and its answer handled at any later time, and any call may fail.
\<close>

subsection \<open>The hook\<close>

record catalog_hook =
  hk_scripts :: "Script list"
  hk_loading :: bool
  hk_loadError :: "string option"
  hk_logged :: "string list"

definition mounted_hook :: catalog_hook where
  "mounted_hook = \<lparr>hk_scripts = [], hk_loading = True, hk_loadError = None, hk_logged = []\<rparr>"

text \<open>How a call of \<open>loadCatalog\<close> ends: with the list, where null and a missing binding are \<open>None\<close>, or
  with an exception, whose text the hook shows and hands to \<open>LogError\<close> if the bindings can be had.\<close>

datatype load_end =
    Resolved "Script list option"
  | Rejected bool string

fun load_ended :: "load_end \<Rightarrow> catalog_hook \<Rightarrow> catalog_hook" where
  "load_ended (Resolved nextScripts) h =
     h\<lparr>hk_scripts := (case nextScripts of None \<Rightarrow> [] | Some xs \<Rightarrow> xs), hk_loadError := None\<rparr>"
| "load_ended (Rejected bindings msg) h =
     h\<lparr>hk_loadError := Some (''Failed to load scripts: '' @ msg),
       hk_logged := (if bindings then hk_logged h @ [''Failed to load scripts: '' @ msg] else hk_logged h)\<rparr>"

text \<open>The first effect awaits its call and then clears \<open>loading\<close>; the calls of the second, which
  handles \<open>scripts:changed\<close>, are not awaited.\<close>

definition mount_settled :: "load_end \<Rightarrow> catalog_hook \<Rightarrow> catalog_hook" where
  "mount_settled e h = (load_ended e h)\<lparr>hk_loading := False\<rparr>"

subsection \<open>Calls under way\<close>

record load_call =
  lc_mount :: bool
  lc_answer :: "Script list option"

definition call_settled :: "load_call \<Rightarrow> load_end \<Rightarrow> catalog_hook \<Rightarrow> catalog_hook" where
  "call_settled c e h = (if lc_mount c then mount_settled e h else load_ended e h)"

record catalog_world =
  cw_svc :: scriptService
  cw_unsaid :: nat
  cw_events :: nat
  cw_calls :: "load_call list"
  cw_listening :: bool
  cw_hook :: catalog_hook

definition mounted :: "scriptService \<Rightarrow> catalog_world" where
  "mounted svc = \<lparr>cw_svc = svc, cw_unsaid = 0, cw_events = 0,
     cw_calls = [\<lparr>lc_mount = True, lc_answer = None\<rparr>], cw_listening = False, cw_hook = mounted_hook\<rparr>"

text \<open>An event nobody listens to is gone; the handler starts one more call.\<close>

definition on_scripts_changed :: "catalog_world \<Rightarrow> catalog_world" where
  "on_scripts_changed w =
     (if cw_listening w then w\<lparr>cw_calls := cw_calls w @ [\<lparr>lc_mount = False, lc_answer = None\<rparr>]\<rparr> else w)"

definition drop_at :: "nat \<Rightarrow> 'a list \<Rightarrow> 'a list" where
  "drop_at i xs = take i xs @ drop (Suc i) xs"

text \<open>The end of the call at \<open>i\<close>.\<close>

definition settle_call :: "nat \<Rightarrow> load_end \<Rightarrow> catalog_world \<Rightarrow> catalog_world" where
  "settle_call i e w =
     w\<lparr>cw_calls := drop_at i (cw_calls w), cw_hook := call_settled (cw_calls w ! i) e (cw_hook w)\<rparr>"

text \<open>With \<open>orderly\<close> the calls end in the order they were made in, and no event arrives before the
  hook listens; the code ensures neither.\<close>

inductive catalog_step :: "runtime \<Rightarrow> desktop \<Rightarrow> fs set \<Rightarrow> string \<Rightarrow> string \<Rightarrow> bool \<Rightarrow> catalog_world \<Rightarrow> catalog_world \<Rightarrow> bool"
  for rt :: runtime and d :: desktop and D :: "fs set" and sd pd :: string and orderly :: bool
where
  cg_reload: "f \<in> D \<Longrightarrow> Reload rt f sd pd (ss_registry (cw_svc w)) = ((changed, err), g) \<Longrightarrow>
    catalog_step rt d D sd pd orderly w
      (w\<lparr>cw_svc := (cw_svc w)\<lparr>ss_registry := g\<rparr>, cw_unsaid := (if changed then Suc (cw_unsaid w) else cw_unsaid w)\<rparr>)"
| cg_notify: "cw_unsaid w = Suc n \<Longrightarrow> svc = NotifyChanged d (cw_svc w) \<Longrightarrow>
    catalog_step rt d D sd pd orderly w
      (w\<lparr>cw_svc := svc, cw_unsaid := n,
         cw_events := cw_events w + (length (ss_emits svc) - length (ss_emits (cw_svc w)))\<rparr>)"
| cg_other: "catalog_step rt d D sd pd orderly w
      (w\<lparr>cw_svc := (cw_svc w)\<lparr>ss_registry := (ss_registry (cw_svc w))\<lparr>rg_rsv := r\<rparr>\<rparr>\<rparr>)"
| cg_listen: "catalog_step rt d D sd pd orderly w (w\<lparr>cw_listening := True\<rparr>)"
| cg_event: "cw_events w = Suc n \<Longrightarrow> orderly \<longrightarrow> cw_listening w \<Longrightarrow>
    catalog_step rt d D sd pd orderly w (on_scripts_changed (w\<lparr>cw_events := n\<rparr>))"
| cg_answer: "i < length (cw_calls w) \<Longrightarrow> lc_answer (cw_calls w ! i) = None \<Longrightarrow>
    catalog_step rt d D sd pd orderly w
      (w\<lparr>cw_calls := (cw_calls w)[i := (cw_calls w ! i)\<lparr>lc_answer := Some (ListScripts rt (cw_svc w))\<rparr>]\<rparr>)"
| cg_resolve: "i < length (cw_calls w) \<Longrightarrow> orderly \<longrightarrow> i = 0 \<Longrightarrow> lc_answer (cw_calls w ! i) = Some xs \<Longrightarrow>
    catalog_step rt d D sd pd orderly w (settle_call i (Resolved (Some xs)) w)"
| cg_reject: "i < length (cw_calls w) \<Longrightarrow> orderly \<longrightarrow> i = 0 \<Longrightarrow>
    catalog_step rt d D sd pd orderly w (settle_call i (Rejected bindings msg) w)"

inductive_cases catalog_stepE: "catalog_step rt d D sd pd orderly w w'"

definition catalog_init :: "scriptService \<Rightarrow> catalog_world \<Rightarrow> bool" where
  "catalog_init svc w \<longleftrightarrow> ss_app svc \<and> w = mounted svc"

text \<open>Nothing is under way.\<close>

definition at_rest :: "catalog_world \<Rightarrow> bool" where
  "at_rest w \<longleftrightarrow> cw_unsaid w = 0 \<and> cw_events w = 0 \<and> cw_calls w = []"

subsection \<open>The invariant\<close>

text \<open>Either a change is still to be heard, or the call made last shows the catalog when it ends.\<close>

definition up_to_date :: "runtime \<Rightarrow> catalog_world \<Rightarrow> bool" where
  "up_to_date rt w \<longleftrightarrow>
     (if cw_calls w = [] then hk_loadError (cw_hook w) = None \<longrightarrow> hk_scripts (cw_hook w) = ListScripts rt (cw_svc w)
      else lc_answer (last (cw_calls w)) \<in> {None, Some (ListScripts rt (cw_svc w))})"

definition catalog_inv :: "runtime \<Rightarrow> catalog_world \<Rightarrow> bool" where
  "catalog_inv rt w \<longleftrightarrow> ss_app (cw_svc w) \<and>
     (hk_loading (cw_hook w) \<longrightarrow> (\<exists>c \<in> set (cw_calls w). lc_mount c)) \<and>
     (cw_unsaid w = 0 \<longrightarrow> cw_events w = 0 \<longrightarrow> up_to_date rt w)"

lemma ListScripts_catalog:
  "catalog (ss_registry s) = catalog (ss_registry t) \<Longrightarrow> ListScripts rt s = ListScripts rt t"
  by (simp add: ListScripts_def Registry_List_def catalog_def)

lemma ListScripts_notify [simp]: "ListScripts rt (NotifyChanged d s) = ListScripts rt s"
  by (rule ListScripts_catalog) simp

lemma ListScripts_rsv [simp]:
  "ListScripts rt (s\<lparr>ss_registry := (ss_registry s)\<lparr>rg_rsv := r\<rparr>\<rparr>) = ListScripts rt s"
  by (rule ListScripts_catalog) (simp add: catalog_def)

lemma Reload_unchanged: "Reload rt f sd pd g = ((False, err), g') \<Longrightarrow> g' = g"
  using Reload_changed by blast

lemma drop_at_0 [simp]: "drop_at 0 (x # xs) = xs"
  by (simp add: drop_at_def)

lemma call_settled_loading: "hk_loading (call_settled c e h) \<longrightarrow> hk_loading h \<and> \<not> lc_mount c"
  by (cases e) (auto simp: call_settled_def mount_settled_def)

lemma call_settled_resolved [simp]:
  "hk_scripts (call_settled c (Resolved (Some xs)) h) = xs" "hk_loadError (call_settled c (Resolved x) h) = None"
  by (simp_all add: call_settled_def mount_settled_def)

lemma call_settled_rejected [simp]: "hk_loadError (call_settled c (Rejected b msg) h) \<noteq> None"
  by (simp add: call_settled_def mount_settled_def)

lemma settle_oldest_inv:
  assumes "catalog_inv rt w" "cw_calls w = c # cs"
    and "(\<exists>xs. e = Resolved (Some xs) \<and> lc_answer c = Some xs) \<or> (\<exists>b msg. e = Rejected b msg)"
  shows "catalog_inv rt (settle_call 0 e w)"
  using assms call_settled_loading [of c e "cw_hook w"]
  by (auto simp: catalog_inv_def settle_call_def up_to_date_def split: if_splits)

lemma answer_inv:
  assumes "catalog_inv rt w" "i < length (cw_calls w)"
  shows "catalog_inv rt
    (w\<lparr>cw_calls := (cw_calls w)[i := (cw_calls w ! i)\<lparr>lc_answer := Some (ListScripts rt (cw_svc w))\<rparr>]\<rparr>)"
proof -
  have "(\<exists>c \<in> set ((cw_calls w)[i := (cw_calls w ! i)\<lparr>lc_answer := a\<rparr>]). lc_mount c)"
    if "\<exists>c \<in> set (cw_calls w). lc_mount c" for a
    using that assms(2) by (metis (no_types, lifting) in_set_conv_nth length_list_update load_call.select_convs(1)
        load_call.surjective load_call.update_convs(2) nth_list_update)
  with assms show ?thesis
    by (auto simp: catalog_inv_def up_to_date_def last_list_update)
qed

lemma catalog_inv_step:
  assumes "catalog_inv rt w" "catalog_step rt d D sd pd True w w'"
  shows "catalog_inv rt w'"
  using assms(2)
proof (cases rule: catalog_step.cases)
  case (cg_reload f changed err g)
  with assms(1) show ?thesis
    by (cases changed) (auto simp: catalog_inv_def up_to_date_def ListScripts_def dest!: Reload_unchanged)
next
  case (cg_notify n svc)
  with assms(1) show ?thesis by (auto simp: catalog_inv_def up_to_date_def)
next
  case (cg_other r)
  with assms(1) show ?thesis by (auto simp: catalog_inv_def up_to_date_def)
next
  case cg_listen
  with assms(1) show ?thesis by (auto simp: catalog_inv_def up_to_date_def)
next
  case (cg_event n)
  with assms(1) show ?thesis by (auto simp: catalog_inv_def up_to_date_def on_scripts_changed_def)
next
  case (cg_answer i)
  with assms(1) show ?thesis by (simp add: answer_inv)
next
  case (cg_resolve i xs)
  with assms(1) show ?thesis by (cases "cw_calls w") (auto intro!: settle_oldest_inv)
next
  case (cg_reject i bindings msg)
  with assms(1) show ?thesis by (cases "cw_calls w") (auto intro!: settle_oldest_inv)
qed

interpretation catalog_sys: inv_system "catalog_init svc" "catalog_step rt d D sd pd True" "catalog_inv rt"
proof (unfold_locales, goal_cases)
  case (1 s)
  then show ?case
    by (simp add: catalog_init_def mounted_def mounted_hook_def catalog_inv_def up_to_date_def)
next
  case (2 s t)
  then show ?case by (rule catalog_inv_step)
qed

subsection \<open>Coming to rest\<close>

definition to_do :: "catalog_world \<Rightarrow> nat" where
  "to_do w = 4 * cw_unsaid w + 3 * cw_events w +
     (\<Sum>c\<leftarrow>cw_calls w. case lc_answer c of None \<Rightarrow> 2 | Some xs \<Rightarrow> 1)"

lemma progress:
  assumes "ss_app (cw_svc w)" "cw_listening w" "\<not> at_rest w"
  obtains w1 where "catalog_step rt d D sd pd True w w1" "to_do w1 < to_do w" "ss_app (cw_svc w1)"
    "cw_listening w1" "ListScripts rt (cw_svc w1) = ListScripts rt (cw_svc w)"
    "at_rest w1 \<longrightarrow> hk_loadError (cw_hook w1) = None"
proof (cases "cw_unsaid w")
  case (Suc n)
  show ?thesis
    by (rule that [OF cg_notify [OF Suc refl]]) (simp_all add: assms to_do_def at_rest_def Suc)
next
  case unsaid: 0
  show ?thesis
  proof (cases "cw_events w")
    case (Suc n)
    show ?thesis
      by (rule that [OF cg_event [OF Suc]]) (simp_all add: assms to_do_def at_rest_def Suc on_scripts_changed_def)
  next
    case 0
    with unsaid assms(3) obtain c cs where c: "cw_calls w = c # cs"
      by (cases "cw_calls w") (auto simp: at_rest_def)
    show ?thesis
    proof (cases "lc_answer c")
      case None
      with c show ?thesis
        by (intro that [OF cg_answer [of 0 w]]) (simp_all add: assms to_do_def at_rest_def)
    next
      case (Some xs)
      with c show ?thesis
        by (intro that [OF cg_resolve [of 0 w _ xs]]) (simp_all add: assms to_do_def settle_call_def)
    qed
  qed
qed

lemma comes_to_rest:
  assumes "ss_app (cw_svc w)" "cw_listening w"
  shows "\<exists>w'. (catalog_step rt d D sd pd True)\<^sup>*\<^sup>* w w' \<and> at_rest w' \<and>
    ListScripts rt (cw_svc w') = ListScripts rt (cw_svc w) \<and>
    (at_rest w \<or> hk_loadError (cw_hook w') = None)"
  using assms
proof (induction "to_do w" arbitrary: w rule: less_induct)
  case less
  show ?case
  proof (cases "at_rest w")
    case False
    from progress [OF less.prems False] obtain w1 where w1: "catalog_step rt d D sd pd True w w1"
        "to_do w1 < to_do w" "ss_app (cw_svc w1)" "cw_listening w1"
        "ListScripts rt (cw_svc w1) = ListScripts rt (cw_svc w)" "at_rest w1 \<longrightarrow> hk_loadError (cw_hook w1) = None"
      by metis
    show ?thesis
    proof (cases "at_rest w1")
      case True
      with w1 show ?thesis by blast
    next
      case False
      with less.hyps [OF w1(2-4)] w1(1,5) show ?thesis
        by (metis converse_rtranclp_into_rtranclp)
    qed
  qed auto
qed

subsection \<open>What the user sees\<close>

text \<open>C26: as long as calls end in order and no event comes before the hook listens, the list on
  screen is, whenever nothing is under way and no error is shown, the list the registry has, and
  the loading mark is gone; and from every world on the way such a rest is reached without a
  further change, where the registry's list is shown, or the error of the last load.\<close>

theorem catalog_reaches_screen:
  assumes "reach (catalog_init svc) (catalog_step rt d D sd pd True) w"
  shows "(at_rest w \<longrightarrow> \<not> hk_loading (cw_hook w) \<and>
       (hk_loadError (cw_hook w) = None \<longrightarrow> hk_scripts (cw_hook w) = ListScripts rt (cw_svc w))) \<and>
     (\<exists>w'. (catalog_step rt d D sd pd True)\<^sup>*\<^sup>* w w' \<and> at_rest w' \<and>
       ListScripts rt (cw_svc w') = ListScripts rt (cw_svc w) \<and>
       (at_rest w \<or> hk_loadError (cw_hook w') = None \<and> hk_scripts (cw_hook w') = ListScripts rt (cw_svc w)))"
proof
  have inv: "catalog_inv rt w" using assms by (rule catalog_sys.reach_inv)
  show "at_rest w \<longrightarrow> \<not> hk_loading (cw_hook w) \<and>
       (hk_loadError (cw_hook w) = None \<longrightarrow> hk_scripts (cw_hook w) = ListScripts rt (cw_svc w))"
    using inv by (auto simp: catalog_inv_def at_rest_def up_to_date_def)
  let ?s = "catalog_step rt d D sd pd True" and ?w1 = "w\<lparr>cw_listening := True\<rparr>"
  have "ss_app (cw_svc ?w1)" using inv by (simp add: catalog_inv_def)
  from comes_to_rest [OF this, of rt d D sd pd] obtain w' where w': "?s\<^sup>*\<^sup>* ?w1 w'" "at_rest w'"
      "ListScripts rt (cw_svc w') = ListScripts rt (cw_svc w)" "at_rest ?w1 \<or> hk_loadError (cw_hook w') = None"
    by auto
  have steps: "?s\<^sup>*\<^sup>* w w'" by (rule converse_rtranclp_into_rtranclp [OF cg_listen w'(1)])
  then have "catalog_inv rt w'" using inv by (rule catalog_sys.steps_inv)
  with w'(2) have "hk_loadError (cw_hook w') = None \<longrightarrow> hk_scripts (cw_hook w') = ListScripts rt (cw_svc w')"
    by (simp add: catalog_inv_def at_rest_def up_to_date_def)
  with steps w' show "\<exists>w'. ?s\<^sup>*\<^sup>* w w' \<and> at_rest w' \<and> ListScripts rt (cw_svc w') = ListScripts rt (cw_svc w) \<and>
       (at_rest w \<or> hk_loadError (cw_hook w') = None \<and> hk_scripts (cw_hook w') = ListScripts rt (cw_svc w))"
    by (auto simp: at_rest_def)
qed

subsection \<open>What the order of calls decides\<close>

text \<open>The catalog changed after the first call was answered, and the event is under way.\<close>

definition answered_old :: "runtime \<Rightarrow> scriptService \<Rightarrow> load_call" where
  "answered_old rt svc = \<lparr>lc_mount = True, lc_answer = Some (ListScripts rt svc)\<rparr>"

definition changed_under :: "runtime \<Rightarrow> desktop \<Rightarrow> scriptService \<Rightarrow> registry \<Rightarrow> catalog_world" where
  "changed_under rt d svc g = (mounted svc)\<lparr>cw_svc := NotifyChanged d (svc\<lparr>ss_registry := g\<rparr>),
     cw_events := 1, cw_calls := [answered_old rt svc]\<rparr>"

lemma reach_onto:
  "reach (catalog_init svc) (catalog_step rt d D sd pd orderly) w \<Longrightarrow> catalog_step rt d D sd pd orderly w t \<Longrightarrow>
   t = t' \<Longrightarrow> reach (catalog_init svc) (catalog_step rt d D sd pd orderly) t'"
  by (auto intro: reach_step)

lemma changed_under_reachable:
  assumes "ss_app svc" "f \<in> D" "Reload rt f sd pd (ss_registry svc) = ((True, err), g)"
  shows "reach (catalog_init svc) (catalog_step rt d D sd pd orderly) (changed_under rt d svc g)"
proof -
  let ?r = "reach (catalog_init svc) (catalog_step rt d D sd pd orderly)"
  let ?w1 = "(mounted svc)\<lparr>cw_calls := [answered_old rt svc]\<rparr>"
  let ?w2 = "?w1\<lparr>cw_svc := svc\<lparr>ss_registry := g\<rparr>, cw_unsaid := 1\<rparr>"
  have "?r (mounted svc)" by (rule reach_init) (simp add: catalog_init_def assms(1))
  then have "?r ?w1"
    by (rule reach_onto [OF _ cg_answer [of 0]]) (simp_all add: mounted_def answered_old_def)
  then have "?r ?w2"
    by (rule reach_onto [OF _ cg_reload [OF assms(2), of rt sd pd _ True err g]]) (simp_all add: mounted_def assms(3))
  then show ?thesis
    by (rule reach_onto [OF _ cg_notify [of _ 0, OF _ refl]]) (simp_all add: assms(1) mounted_def changed_under_def)
qed

text \<open>The order of answers is not the order of calls: an answer taken before a change and handled
  after that of the call the change caused puts the old list back, and it stays. Nothing is under
  way and no error is shown.\<close>

theorem overtaken_answer_stays:
  assumes "ss_app svc" "f \<in> D" "Reload rt f sd pd (ss_registry svc) = ((True, err), g)"
  shows "\<exists>w. reach (catalog_init svc) (catalog_step rt d D sd pd False) w \<and> at_rest w \<and> cw_listening w \<and>
     hk_loadError (cw_hook w) = None \<and> hk_scripts (cw_hook w) = ListScripts rt svc \<and>
     ListScripts rt (cw_svc w) = Registry_List rt g"
proof -
  let ?r = "reach (catalog_init svc) (catalog_step rt d D sd pd False)" and ?n = "Registry_List rt g"
  define w1 where "w1 = (changed_under rt d svc g)\<lparr>cw_listening := True\<rparr>"
  define w2 where "w2 = w1\<lparr>cw_events := 0, cw_calls := [answered_old rt svc, \<lparr>lc_mount = False, lc_answer = None\<rparr>]\<rparr>"
  define w3 where "w3 = w2\<lparr>cw_calls := [answered_old rt svc, \<lparr>lc_mount = False, lc_answer = Some ?n\<rparr>]\<rparr>"
  define w4 where "w4 = settle_call 1 (Resolved (Some ?n)) w3"
  define w where "w = settle_call 0 (Resolved (Some (ListScripts rt svc))) w4"
  note defs = w2_def w1_def changed_under_def mounted_def
  have new: "ListScripts rt (NotifyChanged d (svc\<lparr>ss_registry := g\<rparr>)) = ?n"
    by simp (simp add: ListScripts_def)
  have "?r w1" unfolding w1_def by (rule reach_onto [OF changed_under_reachable [OF assms] cg_listen refl])
  then have "?r w2"
    by (rule reach_onto [OF _ cg_event [of _ 0]]) (simp_all add: defs on_scripts_changed_def)
  then have "?r w3"
    by (rule reach_onto [OF _ cg_answer [of 1]]) (use new in \<open>simp_all add: w3_def defs\<close>)
  then have "?r w4"
    unfolding w4_def by (rule reach_onto [OF _ cg_resolve refl]) (simp_all add: w3_def defs)
  then have "?r w"
    unfolding w_def
    by (rule reach_onto [OF _ cg_resolve refl]) (simp_all add: w4_def w3_def defs settle_call_def drop_at_def answered_old_def)
  moreover have "at_rest w \<and> cw_listening w \<and> hk_loadError (cw_hook w) = None \<and>
      hk_scripts (cw_hook w) = ListScripts rt svc \<and> ListScripts rt (cw_svc w) = ?n"
    using new by (simp add: w_def w4_def w3_def defs settle_call_def at_rest_def drop_at_def)
  ultimately show ?thesis by blast
qed

text \<open>A change between the first answer and the start of listening is not heard: the old list stays
  on screen, although every call ends in order.\<close>

theorem unheard_change_stays:
  assumes "ss_app svc" "f \<in> D" "Reload rt f sd pd (ss_registry svc) = ((True, err), g)"
  shows "\<exists>w. reach (catalog_init svc) (catalog_step rt d D sd pd False) w \<and> at_rest w \<and> cw_listening w \<and>
     hk_loadError (cw_hook w) = None \<and> hk_scripts (cw_hook w) = ListScripts rt svc \<and>
     ListScripts rt (cw_svc w) = Registry_List rt g"
proof -
  let ?r = "reach (catalog_init svc) (catalog_step rt d D sd pd False)"
  define w1 where "w1 = (changed_under rt d svc g)\<lparr>cw_events := 0\<rparr>"
  define w2 where "w2 = w1\<lparr>cw_listening := True\<rparr>"
  define w where "w = settle_call 0 (Resolved (Some (ListScripts rt svc))) w2"
  note defs = w2_def w1_def changed_under_def mounted_def
  have "?r w1"
    by (rule reach_onto [OF changed_under_reachable [OF assms] cg_event [of _ 0]])
      (simp_all add: defs on_scripts_changed_def)
  then have "?r w2" unfolding w2_def by (rule reach_onto [OF _ cg_listen refl])
  then have "?r w"
    unfolding w_def by (rule reach_onto [OF _ cg_resolve refl]) (simp_all add: defs answered_old_def)
  moreover have "at_rest w \<and> cw_listening w \<and> hk_loadError (cw_hook w) = None \<and>
      hk_scripts (cw_hook w) = ListScripts rt svc \<and> ListScripts rt (cw_svc w) = Registry_List rt g"
    by (simp add: w_def defs settle_call_def at_rest_def drop_at_def) (simp add: ListScripts_def)
  ultimately show ?thesis by blast
qed

subsection \<open>Examples\<close>

lemma fresh_scripts_fields:
  "ss_app fresh_scripts" "ss_registry fresh_scripts = New newReservoir" "ListScripts test_runtime fresh_scripts = []"
  by (simp_all add: fresh_scripts_def ScriptService_SetApp_def NewScriptService_def ListScripts_def Registry_List_def New_def
      test_runtime_def insertion_sort_def sorted_keys_def)

lemma loaded_list: "Registry_List test_runtime loaded = [test_script ''plugin'' ''/p/a'']"
  by (simp add: Registry_List_def loaded_state test_runtime_def insertion_sort_def sorted_keys_def)

abbreviation test_catalog :: "bool \<Rightarrow> catalog_world \<Rightarrow> catalog_world \<Rightarrow> bool" where
  "test_catalog \<equiv> catalog_step test_runtime test_desktop {two_dirs ''a''} ''/s'' ''/p''"

text \<open>From a change the frontend has not heard of yet, with the first call not answered.\<close>

lemma catalog_reaches_screen_witness:
  "\<exists>w'. (test_catalog True)\<^sup>*\<^sup>* ((mounted fresh_scripts)\<lparr>cw_svc := fresh_scripts\<lparr>ss_registry := loaded\<rparr>, cw_unsaid := 1\<rparr>) w' \<and>
     at_rest w' \<and> hk_loadError (cw_hook w') = None \<and> hk_scripts (cw_hook w') = [test_script ''plugin'' ''/p/a'']"
proof -
  let ?w = "(mounted fresh_scripts)\<lparr>cw_svc := fresh_scripts\<lparr>ss_registry := loaded\<rparr>, cw_unsaid := 1\<rparr>"
  have "reach (catalog_init fresh_scripts) (test_catalog True) (mounted fresh_scripts)"
    by (rule reach_init) (simp add: catalog_init_def fresh_scripts_fields)
  then have "reach (catalog_init fresh_scripts) (test_catalog True) ?w"
    by (rule reach_onto [OF _ cg_reload [of "two_dirs ''a''" _ _ _ _ _ True None loaded]])
      (simp_all add: mounted_def test_reload fresh_scripts_fields)
  from catalog_reaches_screen [OF this] show ?thesis
    by (auto simp: at_rest_def ListScripts_def loaded_list)
qed

lemma overtaken_answer_stays_witness:
  "\<exists>w. reach (catalog_init fresh_scripts) (test_catalog False) w \<and> at_rest w \<and>
     hk_scripts (cw_hook w) = [] \<and> ListScripts test_runtime (cw_svc w) = [test_script ''plugin'' ''/p/a'']"
  using overtaken_answer_stays [OF fresh_scripts_fields(1) _ test_reload [folded fresh_scripts_fields(2)], of "{two_dirs ''a''}" test_desktop]
  by (auto simp: fresh_scripts_fields(3) loaded_list)

lemma unheard_change_stays_witness:
  "\<exists>w. reach (catalog_init fresh_scripts) (test_catalog False) w \<and> at_rest w \<and>
     hk_scripts (cw_hook w) = [] \<and> ListScripts test_runtime (cw_svc w) = [test_script ''plugin'' ''/p/a'']"
  using unheard_change_stays [OF fresh_scripts_fields(1) _ test_reload [folded fresh_scripts_fields(2)], of "{two_dirs ''a''}" test_desktop]
  by (auto simp: fresh_scripts_fields(3) loaded_list)

end
