(* ===== verification/Spec2Isabelle.thy ===== *)
theory Spec2Isabelle
  imports Prelude Logging Notify Cache RunChannel Db Grpc Manager RunHistory Paths Registry Reloads ScriptService LogService
    RunnerService Lifecycle PyRunner PyScript PyCache Conversation Process ProcessRun EnvService Watcher Recording App AppRun Frontend Display Catalog
begin

text \<open>
  A verification library for the Go backend of Go Python Runner: a desktop program that runs
  Python scripts as child processes, talks to each over a bidirectional gRPC stream, and
  shows their output, errors and results in a frontend. The definitions are translated from
  \<^verbatim>\<open>main.go\<close> and the packages under \<^verbatim>\<open>internal/\<close>, and, for the two other ends, from the hooks of
  the frontend that take the events they emit (\<^verbatim>\<open>frontend/src/hooks\<close>) and from the helper library the
  scripts talk to the server with (\<^verbatim>\<open>scripts/_lib/runner.py\<close>).

  \<^bold>\<open>How the program works.\<close> Every part reports what the user should know to one reservoir
  (\<open>Notify\<close>), which logs it, keeps the banners and emits Wails events; the log goes to a file and
  to a ring buffer the log viewer reads (\<open>Logging\<close>, \<open>LogService\<close>). The registry (\<open>Registry\<close>) scans the
  builtin and plugin directories for scripts, the watcher (\<open>Watcher\<close>) rescans them when the disk
  changes, and the script service (\<open>ScriptService\<close>) hands the catalog to the frontend. Starting a
  script (\<open>RunnerService\<close>) asks the manager (\<open>Manager\<close>) to register a run with the gRPC server
  (\<open>Grpc\<close>), spawn the process (\<open>Process\<close>) and wait for its exit; the server handles the script's
  messages, among them those to the shared-memory registry (\<open>Cache\<close>) and the database (\<open>Db\<close>), and
  puts its output into the run's channel (\<open>RunChannel\<close>), from which the service forwards it to the
  frontend. The environment service (\<open>EnvService\<close>) installs Python packages. \<open>App\<close> wires the parts and
  \<open>AppRun\<close> runs and ends them. In the frontend the reservoir's events become notifications
  (\<open>Frontend\<close>) and the runs' events the panes of the runs (\<open>Display\<close>).

  \<^bold>\<open>Which theory models what.\<close>
  \<^item> \<open>Prelude\<close>: errors as values (\<open>goerror\<close>, with \<open>errors.Is\<close> and \<open>errors.Join\<close>), the outcome type \<open>go\<close>
    of operations that may panic or block, list and map helpers, decimal numbers, the locale
    \<open>map_range\<close> of Go's unspecified map iteration order, reachability and the locale \<open>inv_system\<close>
    of invariants of a step relation.
  \<^item> \<open>Logging\<close>: \<^verbatim>\<open>internal/logging\<close>. The circular buffer with its indices, and the slog handler.
    The locale \<open>bounded_log\<close> states what a buffer of the newest entries promises; \<open>Push\<close> is one.
  \<^item> \<open>Notify\<close>: \<^verbatim>\<open>internal/notify/notify.go\<close>. The locales \<open>event_sink\<close> (a report is recorded) and
    \<open>banner_board\<close> (banners by key) are its contract. \<open>Recording\<close> models the test double of
    \<^verbatim>\<open>notify/testing.go\<close>, which meets the first and, while no key is raised twice, shows the same banners.
  \<^item> \<open>Cache\<close>: \<^verbatim>\<open>internal/runner/cache.go\<close> with the unlinking of both platforms; the locale \<open>ref_registry\<close> is
    the specification by holders.
  \<^item> \<open>RunChannel\<close>, \<open>Grpc\<close>: \<^verbatim>\<open>internal/runner/grpc_server.go\<close> and \<^verbatim>\<open>dialog.go\<close>. The phase machine with its
    compare-and-swap loop, the guarded send, the sessions and every message handler; \<open>srv_step\<close> is
    the interleaving of all goroutines that use the server.
  \<^item> \<open>Manager\<close>: \<^verbatim>\<open>internal/runner/manager.go\<close>. Start, the start signal, the final status, the stages of
    the exit, cancellation and history; \<open>mgr_step\<close> interleaves starts, cancels and exits.
    \<open>RunHistory\<close>: the same with the \<open>runs\<close> table beside it, over several lives of the program.
  \<^item> \<open>Process\<close>: \<^verbatim>\<open>internal/runner/process.go\<close>. The search for an interpreter, the child's environment,
    and the handshake of \<open>Start\<close>, the stderr reader, \<open>Wait\<close> and \<open>Cancel\<close>. \<open>ProcessRun\<close>: the goroutines around
    one child in time (\<open>proc_step\<close>), and the process joined with the manager's start, cancel and exit.
  \<^item> \<open>Db\<close>: \<^verbatim>\<open>internal/db/db.go\<close>.
  \<^item> \<open>Paths\<close>: \<^verbatim>\<open>path/filepath\<close> as the program uses it (\<open>Clean\<close>, \<open>Join\<close>, \<open>Abs\<close>, with the slash), and the
    components of a path, on which what the registry and the script service say of paths rests.
  \<^item> \<open>Registry\<close>, \<open>Watcher\<close>: \<^verbatim>\<open>internal/registry\<close>. Scanning, overlaying plugins, fingerprints, issues
    and their banners, listing; then the debounced loop over file system events. The locale
    \<open>slice_sort\<close> is what \<open>sort.Slice\<close> promises (Go's insertion sort is an instance),
    \<open>registry_runtime\<close> what the runtime promises the registry. \<open>Reloads\<close>: the stages of \<open>Reload\<close>
    and the interleaving of any number of its calls (\<open>reload_step\<close>).
  \<^item> \<open>RunnerService\<close>, \<open>ScriptService\<close>, \<open>LogService\<close>, \<open>EnvService\<close>: \<^verbatim>\<open>internal/services\<close>. Single and
    parallel starts with their rollback, run groups, the forwarding of messages; the containment of
    opened paths; errors from the frontend; installs, serialized by an atomic (\<open>env_step\<close>).
  \<^item> \<open>Lifecycle\<close>: no code of its own; one run through server, manager and run service, from the
    client's connection to what the user sees.
  \<^item> \<open>PyRunner\<close>: \<^verbatim>\<open>scripts/_lib/runner.py\<close>. The message iterator, the reader thread and every function of
    the library, over the module's globals; what gRPC and the reader do while a script is in the
    library is a parameter, so it may be anything. \<open>PyScript\<close>: scripts as trees of calls with their
    wrapper \<open>run\<close>, the shape of what they say (\<open>well_told\<close>), and what server and manager make of it.
    \<open>PyCache\<close>: objects shared through shared memory and the registry of \<open>Cache\<close>, and rows of a query.
    \<open>Conversation\<close>: the threads of a script and the server on one stream (\<open>conv_step\<close>), and which
    request a reply belongs to.
  \<^item> \<open>App\<close>: \<^verbatim>\<open>main.go\<close>. The start-up with its fatal and its reported failures, the events \<open>main\<close> reports
    itself, and the native dialog handler. \<open>AppRun\<close>: the services, options and window handed to Wails, the
    callbacks and the watcher's goroutine, and the end with its cancellation and deferred calls.
  \<^item> \<open>Frontend\<close>: \<^verbatim>\<open>useNotifications.tsx\<close> and \<^verbatim>\<open>useNotifyChannel.ts\<close>. The stack of notifications, its timers and
    the handlers of the events; \<open>ui_step\<close> joins it with the reservoir, with the events under way between.
  \<^item> \<open>Display\<close>: the runs and groups of \<^verbatim>\<open>useScripts.ts\<close>; one run from the client's connection to the screen,
    and what start-up publishes before a frontend listens. \<open>Catalog\<close>: its \<open>loadCatalog\<close>, from the watcher's
    reload through \<open>scripts:changed\<close> and the calls of \<open>ListScripts\<close> under way to the list on screen
    (\<open>catalog_step\<close>).

  A struct is a record with the code's fields, a method a function from state to state with its
  result, an error or early return a branch; a pointer to a run channel is its index in
  the server's list of channels. \<open>Ret\<close>, \<open>Block\<close> and \<open>Panic\<close> are the outcomes of an operation.

  \<^bold>\<open>What the lemmas show.\<close> Each component has its invariant or abstract view first (\<open>ring_list\<close>,
  \<open>banner_shown\<close>, the holders of a block, \<open>rc_inv\<close>, \<open>server_inv\<close>, \<open>mgr_inv\<close>, \<open>registry_inv\<close>, \<open>env_ok\<close>, \<open>tracks\<close>, \<open>told_inv\<close>, \<open>conv_inv\<close>, \<open>catalog_inv\<close>), that
  every operation keeps it, and then its properties, each after a text with its number: the
  numbers run through all theories, in the order of importance. Theorems without a number are
  further facts of the same kind. Each theorem with a hypothesis is followed by a witness, an
  instance at concrete data on which the hypotheses hold.

  \<^bold>\<open>Concurrency.\<close> An operation under a mutex, or a single atomic instruction, is one step; where the code
  gives up its lock or has none, its stages are separate definitions and the step relation
  interleaves them. In \<open>Watcher\<close> a firing of the timer is one step; that two firings can overlap,
  because a scan may outlast the debounce window, is the subject of \<open>Reloads\<close>. A report is one step
  in \<open>Notify\<close>; \<open>Frontend\<close> separates the change of the banner list from its event where it matters.

  \<^bold>\<open>Time and bounds.\<close> Times are natural numbers. The ring has 1000 entries in the program and any capacity
  in the theorems; the channel buffers 100 messages; 50 load issues are kept; a forwarded
  line has less than 1 MiB. The loops of the code that are recursions here are structural or have
  their measure; the compare-and-swap loop recurs on the list of interfering transitions, one
  per round, and is shown to need at most three rounds; a cancelled or exited process needs at most
  five steps to the return of \<open>Wait\<close>. A toast stays 6000 milliseconds, of which only the order counts.

  \<^bold>\<open>Parameters.\<close> Code outside the repository is an argument: gRPC's sends and receives, \<^verbatim>\<open>database/sql\<close>
  and SQLite (\<open>sqldriver\<close>; \<open>runs_table\<close> is what \<open>RunHistory\<close> asks of it), the operating system and disk (\<open>os\<close>, \<open>fs\<close>, \<open>desktop\<close>, \<open>watch_env\<close>), the
  child's command (\<open>cmd_run\<close>), uuids and clocks (\<open>env\<close>), JSON decoding and hashing (\<open>fs_Unmarshal\<close>,
  \<open>rt_digest\<close>), map iteration and sorting (\<open>rt_range\<close>, \<open>rt_sortScripts\<close>), the native dialog; of Python pickle, the creation of shared
  memory, tracebacks and the printing of messages (\<open>python\<close>).

  \<^bold>\<open>Not modelled.\<close> Windows path separators (the theorems on paths are about the slash); the main loop of
  the Wails application, which is known by the callbacks it makes and by what \<open>app.Run\<close> answers; the
  encoding of the log file and its rotation; the listener of the gRPC server and its graceful stop;
  \<open>HideConsole\<close>; the generated protocol code, which is not in the repository; of the frontend the
  rendering, and the generated bindings, whose calls may be answered at any time; the example scripts, which are programs over the
  library whose theorems hold for all of them, and the build files. A timeout of the library is a wait
  that finds nothing: the 30 seconds themselves are not measured. The tests of the program are not modelled either.
\<close>

end
